(* ===== verification/C_Prelude.thy ===== *)
theory C_Prelude
  imports Main "HOL-Library.Word"
begin

text \<open>
  Shared vocabulary of the development: how a C function of the repository is read as a
  HOL function.

  \<^item> A pointer is a \<open>cptr\<close>: \<open>NULL\<close>, \<open>Freed\<close> (it points to memory that was handed back
    to \<open>free\<close>) or \<open>Ptr x\<close> with the object it points to. Reading or freeing a \<open>Freed\<close>
    pointer, or reading \<open>NULL\<close>, is undefined behaviour.
  \<^item> A function that returns an \<open>int\<close> status and writes through out-parameters returns
    a \<open>res\<close>: \<open>Ok v\<close> (status 0 with the values written), \<open>Err e\<close> (status \<open>-e\<close>) or
    \<open>UB\<close> (the C text has no defined meaning there: an index outside its array, a read
    of freed memory, a division by zero, a shift by the width or more).
  \<^item> A function that changes state returns the pair of its \<open>res\<close> and the new state;
    the state is returned with errors too, because the C code does not roll back.
  \<^item> \<open>out_arg\<close> says whether the caller passed \<open>NULL\<close> for an out-parameter.
  \<^item> \<open>uint8_t .. uint64_t\<close> and \<open>size_t\<close> are words of that width (LP64).
\<close>

section \<open>Machine integers\<close>

type_synonym u8 = "8 word"
type_synonym u16 = "16 word"
type_synonym u32 = "32 word"
type_synonym u64 = "64 word"

section \<open>Errors and results\<close>

datatype errno =
    EINVAL | ENOMEM | ENOENT | ESPIPE | EALREADY | EACCES | EPERM
  | EFBIG | EIO | EFAULT | ENFILE
  | OsErrno int \<comment> \<open>whatever the operating system left in \<open>errno\<close>\<close>

datatype 'a res = Ok 'a | Err errno | UB

definition no_ub :: "'a res \<Rightarrow> bool" where
  "no_ub r = (case r of UB \<Rightarrow> False | _ \<Rightarrow> True)"

datatype 'a cptr = NULL | Freed | Ptr 'a

datatype out_arg = OutNull | OutAddr

section \<open>Sequencing\<close>

text \<open>
  \<open>and_then\<close> is the repository's \<open>rc = f(...); if (rc != 0) return rc;\<close>.
\<close>

definition and_then :: "'a res \<times> 's \<Rightarrow> ('a \<Rightarrow> 's \<Rightarrow> 'b res \<times> 's) \<Rightarrow> 'b res \<times> 's" where
  "and_then m f =
     (case m of
        (Ok a, s) \<Rightarrow> f a s
      | (Err e, s) \<Rightarrow> (Err e, s)
      | (UB, s) \<Rightarrow> (UB, s))"

definition res_bind :: "'a res \<Rightarrow> ('a \<Rightarrow> 'b res) \<Rightarrow> 'b res" where
  "res_bind m f = (case m of Ok a \<Rightarrow> f a | Err e \<Rightarrow> Err e | UB \<Rightarrow> UB)"

text \<open>Reading the object behind a pointer; \<open>NULL\<close> and freed memory are undefined.\<close>

definition deref :: "'a cptr \<Rightarrow> ('a \<Rightarrow> 'b res \<times> 'a cptr) \<Rightarrow> 'b res \<times> 'a cptr" where
  "deref p f = (case p of Ptr x \<Rightarrow> f x | _ \<Rightarrow> (UB, p))"

definition load :: "'a cptr \<Rightarrow> 'a res" where
  "load p = (case p of Ptr x \<Rightarrow> Ok x | _ \<Rightarrow> UB)"

text \<open>Array accesses, undefined outside the array.\<close>

definition array_read :: "'a list \<Rightarrow> nat \<Rightarrow> 'a res" where
  "array_read xs i = (if i < length xs then Ok (xs ! i) else UB)"

definition array_write :: "'a list \<Rightarrow> nat \<Rightarrow> 'a \<Rightarrow> 'a list res" where
  "array_write xs i x = (if i < length xs then Ok (xs[i := x]) else UB)"

text \<open>\<open>free(p)\<close>: a no-op on \<open>NULL\<close>, undefined on memory that is already free.\<close>

definition c_free :: "'a cptr \<Rightarrow> unit res \<times> 'a cptr" where
  "c_free p = (case p of NULL \<Rightarrow> (Ok (), NULL) | Freed \<Rightarrow> (UB, Freed) | Ptr _ \<Rightarrow> (Ok (), Freed))"

section \<open>Automation\<close>

named_theorems c_ops \<open>definitions of the operations of the component at hand\<close>
named_theorems c_inv \<open>invariant facts\<close>

lemma and_then_simps [simp]:
  "and_then (Ok a, s) f = f a s"
  "and_then (Err e, s) f = (Err e, s)"
  "and_then (UB, s) f = (UB, s)"
  by (simp_all add: and_then_def)

lemma and_then_eq_Ok:
  "and_then m f = (Ok b, t) \<longleftrightarrow> (\<exists>a s. m = (Ok a, s) \<and> f a s = (Ok b, t))"
  by (auto simp: and_then_def split: prod.splits res.splits)

lemma res_bind_simps [simp]:
  "res_bind (Ok a) f = f a"
  "res_bind (Err e) f = Err e"
  "res_bind UB f = UB"
  by (simp_all add: res_bind_def)

lemma res_bind_eq_Ok: "res_bind m f = Ok b \<longleftrightarrow> (\<exists>a. m = Ok a \<and> f a = Ok b)"
  by (cases m) auto

lemma deref_simps [simp]:
  "deref (Ptr x) f = f x"
  "deref NULL f = (UB, NULL)"
  "deref Freed f = (UB, Freed)"
  by (simp_all add: deref_def)

lemma load_simps [simp]: "load (Ptr x) = Ok x" "load NULL = UB" "load Freed = UB"
  by (simp_all add: load_def)

lemma load_eq_Ok: "load p = Ok x \<longleftrightarrow> p = Ptr x"
  by (simp add: load_def split: cptr.splits)

lemma array_read_in [simp]: "i < length xs \<Longrightarrow> array_read xs i = Ok (xs ! i)"
  by (simp add: array_read_def)

lemma array_write_in [simp]: "i < length xs \<Longrightarrow> array_write xs i x = Ok (xs[i := x])"
  by (simp add: array_write_def)

lemma no_ub_simps [simp]: "no_ub (Ok a)" "no_ub (Err e)" "\<not> no_ub UB"
  by (simp_all add: no_ub_def)

lemma no_ub_iff: "no_ub r \<longleftrightarrow> r \<noteq> UB"
  by (cases r) auto

lemma c_free_simps [simp]:
  "c_free NULL = (Ok (), NULL)" "c_free Freed = (UB, Freed)" "c_free (Ptr x) = (Ok (), Freed)"
  by (simp_all add: c_free_def)

section \<open>Lists and words\<close>

lemma take_list_update_ge: "n \<le> i \<Longrightarrow> take n (xs[i := x]) = take n xs"
  by simp

lemma distinct_take_Suc:
  "n < length xs \<Longrightarrow> distinct (take (Suc n) xs) \<longleftrightarrow> distinct (take n xs) \<and> xs ! n \<notin> set (take n xs)"
  by (simp add: take_Suc_conv_app_nth)

lemma unat_dec: "w \<noteq> 0 \<Longrightarrow> unat (w - 1) = unat w - 1" for w :: "'a::len word"
  by (simp add: unat_minus_one)

lemma unat_inc: "unat w + 1 < 2 ^ LENGTH('a) \<Longrightarrow> unat (w + 1) = unat w + 1"
  for w :: "'a::len word"
  by (metis unat_add_lem unat_1)

lemma unat_less [simp]: "unat w < 2 ^ LENGTH('a)" for w :: "'a::len word"
  by (rule unsigned_less)

lemma unat_less_32: "unat w < 4294967296" for w :: u32
  using unat_less [of w] by simp

lemma sint_32: "sint w = (if uint w < 2147483648 then uint w else uint w - 4294967296)" for w :: u32
proof -
  have "0 \<le> uint w" "uint w < 4294967296"
    using uint_lt2p [of w] by simp_all
  moreover have "(x + 2147483648) mod 4294967296 - 2147483648 =
      (if x < 2147483648 then x else x - 4294967296)" if "0 \<le> x" "x < 4294967296" for x :: int
    using that by (simp add: mod_pos_pos_trivial mod_pos_geq)
  ultimately show ?thesis
    by (simp add: sint_uint signed_take_bit_eq_take_bit_shift take_bit_eq_mod)
qed

lemma sint_64:
  "sint w = (if uint w < 9223372036854775808 then uint w else uint w - 18446744073709551616)" for w :: u64
proof -
  have "0 \<le> uint w" "uint w < 18446744073709551616"
    using uint_lt2p [of w] by simp_all
  moreover have "(x + 9223372036854775808) mod 18446744073709551616 - 9223372036854775808 =
      (if x < 9223372036854775808 then x else x - 18446744073709551616)"
    if "0 \<le> x" "x < 18446744073709551616" for x :: int
    using that by (simp add: mod_pos_pos_trivial mod_pos_geq)
  ultimately show ?thesis
    by (simp add: sint_uint signed_take_bit_eq_take_bit_shift take_bit_eq_mod)
qed

lemma less_3_nat: "(k :: nat) < 3 \<longleftrightarrow> k = 0 \<or> k = 1 \<or> k = 2"
  by auto

lemma unat_eq_iff: "unat v = unat w \<longleftrightarrow> v = w" for v w :: "'a::len word"
  by (metis word_unat_eq_iff)

lemma unat_pos_iff: "0 < unat w \<longleftrightarrow> w \<noteq> 0" for w :: "'a::len word"
  by (simp add: unat_gt_0)

lemma unat_of_nat_lt: "n < 2 ^ LENGTH('a) \<Longrightarrow> unat (of_nat n :: 'a::len word) = n"
  by (simp add: unat_of_nat take_bit_nat_eq_self)

end
