(* ===== verification/Id_Source.thy ===== *)
theory Id_Source
  imports C_Prelude
begin

text \<open>
  The interface between a pool of identifiers (\<open>id_pool.c\<close>) and its clients
  (\<open>client_mngr.c\<close> keeps one pool of client identifiers and one pool of file identifiers per
  client). A provider has an invariant, the identifiers it owns, the ones in use, and the two
  operations; a client run is a sequence of requests.
\<close>

datatype 'i id_op = Take | Give 'i

text \<open>
  A client that records what it holds. The first component says that no request was undefined
  and that each identifier handed out was not held at that moment.
\<close>

fun run_ids ::
  "('p \<Rightarrow> 'i res \<times> 'p) \<Rightarrow> ('p \<Rightarrow> 'i \<Rightarrow> unit res \<times> 'p) \<Rightarrow> 'p \<Rightarrow> 'i set \<Rightarrow> 'i id_op list
     \<Rightarrow> bool \<times> 'i set \<times> 'p" where
  "run_ids alloc release p held [] = (True, held, p)"
| "run_ids alloc release p held (Take # ops) =
     (case alloc p of
        (Ok i, p') \<Rightarrow> (case run_ids alloc release p' (insert i held) ops of
                        (ok, held', p'') \<Rightarrow> (i \<notin> held \<and> ok, held', p''))
      | (Err e, p') \<Rightarrow> run_ids alloc release p' held ops
      | (UB, p') \<Rightarrow> (False, held, p'))"
| "run_ids alloc release p held (Give i # ops) =
     (case release p i of
        (Ok _, p') \<Rightarrow> run_ids alloc release p' (held - {i}) ops
      | (Err e, p') \<Rightarrow> run_ids alloc release p' held ops
      | (UB, p') \<Rightarrow> (False, held, p'))"

locale id_source =
  fixes inv :: "'p \<Rightarrow> bool"
    and used :: "'p \<Rightarrow> 'i set"
    and owned :: "'p \<Rightarrow> 'i set"
    and alloc :: "'p \<Rightarrow> 'i res \<times> 'p"
    and release :: "'p \<Rightarrow> 'i \<Rightarrow> unit res \<times> 'p"
  assumes used_owned: "inv p \<Longrightarrow> used p \<subseteq> owned p"
    and finite_owned: "inv p \<Longrightarrow> finite (owned p)"
    and alloc_Ok: "inv p \<Longrightarrow> used p \<noteq> owned p \<Longrightarrow>
          \<exists>i p'. alloc p = (Ok i, p') \<and> inv p' \<and> i \<in> owned p - used p
               \<and> used p' = insert i (used p) \<and> owned p' = owned p"
    and alloc_full: "inv p \<Longrightarrow> used p = owned p \<Longrightarrow> \<exists>e. alloc p = (Err e, p)"
    and release_Ok: "inv p \<Longrightarrow> i \<in> used p \<Longrightarrow>
          \<exists>p'. release p i = (Ok (), p') \<and> inv p' \<and> used p' = used p - {i} \<and> owned p' = owned p"
    and release_unused: "inv p \<Longrightarrow> i \<notin> used p \<Longrightarrow> \<exists>e. release p i = (Err e, p)"
begin

lemma alloc_cases:
  assumes "inv p"
  obtains (Ok) i p' where "alloc p = (Ok i, p')" "inv p'" "i \<in> owned p" "i \<notin> used p"
      "used p' = insert i (used p)" "owned p' = owned p"
  | (Full) e where "alloc p = (Err e, p)" "used p = owned p"
  using alloc_Ok [OF assms] alloc_full [OF assms] by blast

lemma release_cases:
  assumes "inv p"
  obtains (Ok) p' where "release p i = (Ok (), p')" "inv p'" "i \<in> used p"
      "used p' = used p - {i}" "owned p' = owned p"
  | (Unused) e where "release p i = (Err e, p)" "i \<notin> used p"
  using release_Ok [OF assms, of i] release_unused [OF assms, of i] by blast

lemma run_ids_sound:
  assumes "inv p" "run_ids alloc release p (used p) ops = (ok, held, p')"
  shows "ok \<and> inv p' \<and> used p' = held \<and> owned p' = owned p"
  using assms
proof (induction ops arbitrary: p ok)
  case Nil
  then show ?case by auto
next
  case (Cons x ops)
  note IH = Cons.IH and run = Cons.prems(2)
  show ?case
  proof (cases x)
    case Take
    from Cons.prems(1) show ?thesis
    proof (cases rule: alloc_cases)
      case (Ok i q)
      with run Take obtain ok' where
        "run_ids alloc release q (used q) ops = (ok', held, p')" "ok = ok'"
        by (auto split: prod.splits)
      with IH [OF Ok(2)] Ok show ?thesis by simp
    next
      case (Full e)
      with run Take IH [OF Cons.prems(1)] show ?thesis by simp
    qed
  next
    case (Give i)
    from Cons.prems(1) show ?thesis
    proof (cases rule: release_cases [where i = i])
      case (Ok q)
      with run Give IH [OF Ok(2)] show ?thesis by simp
    next
      case (Unused e)
      with run Give IH [OF Cons.prems(1)] show ?thesis by simp
    qed
  qed
qed

text \<open>Handing out and taking back at once restores what is in use.\<close>

lemma release_after_alloc:
  assumes "inv p" "alloc p = (Ok i, p')"
  shows "\<exists>p''. release p' i = (Ok (), p'') \<and> used p'' = used p \<and> inv p''"
  using assms(1)
proof (cases rule: alloc_cases)
  case (Ok j q)
  with assms(2) have "inv p'" "i \<in> used p'" "used p' - {i} = used p" by auto
  with release_Ok [of p' i] show ?thesis by auto
next
  case (Full e)
  with assms(2) show ?thesis by simp
qed

end

end
