(* ===== verification/Id_Pool.thy ===== *)
theory Id_Pool
  imports Id_Source
begin

text \<open>
  \<open>INFRA/src/id_pool.c\<close>: a fixed-capacity pool of 32-bit identifiers. The free identifiers
  are a stack in \<open>free_ids\<close> (its first \<open>top\<close> cells), and one byte per identifier in
  \<open>in_use\<close> detects a double free. The out-parameters \<open>out_id\<close> and \<open>id_count\<close> are not
  checked by the code; they are the values of the results here.
\<close>

section \<open>State and operations\<close>

record id_pool =
  pool_in_use :: "u8 list"
  pool_capacity :: u32
  pool_top :: u32
  id_start_offset :: u32
  free_ids :: "u32 list"

record id_pool_cfg =
  cfg_capacity :: u32
  cfg_id_start_offset :: u32

text \<open>
  \<open>sizeof(id_pool_t)\<close> and \<open>offsetof(id_pool_t, free_ids)\<close> under LP64 (the header is a pointer
  and three 32-bit words, padded to a multiple of 8).
\<close>

definition sizeof_id_pool :: u32 where
  "sizeof_id_pool = 24"

definition offsetof_free_ids :: nat where
  "offsetof_free_ids = 20"

text \<open>
  The sizes are computed in 32 bits. The writes that follow \<open>malloc\<close> (the flags at
  \<open>base + sz_hdr + sz_free\<close>, the \<open>capacity\<close> identifiers) are in bounds only if the total did
  not wrap around; otherwise they run over the allocated block.
\<close>

definition id_pool_create :: "bool \<Rightarrow> out_arg \<Rightarrow> id_pool_cfg cptr \<Rightarrow> id_pool cptr res" where
  "id_pool_create malloc_ok pool cfg =
     (if pool = OutNull then Err EINVAL
      else if cfg = NULL then Err EINVAL
      else res_bind (load cfg) (\<lambda>c.
        if cfg_capacity c = 0 then Err EINVAL
        else
          let capacity = cfg_capacity c;
              sz_hdr = sizeof_id_pool;
              sz_free = capacity * 4;
              sz_inuse = capacity * 1;
              total = sz_hdr + sz_free + sz_inuse
          in if \<not> malloc_ok then Err ENOMEM
             else if unat sz_hdr \<le> unat total
                   \<and> unat sz_hdr + unat sz_free + unat sz_inuse \<le> unat total
                   \<and> offsetof_free_ids + 4 * unat capacity \<le> unat total
             then Ok (Ptr \<lparr>pool_in_use = replicate (unat capacity) 0,
                           pool_capacity = capacity,
                           pool_top = capacity,
                           id_start_offset = cfg_id_start_offset c,
                           free_ids = map (\<lambda>i. cfg_id_start_offset c + (capacity - 1 - of_nat i))
                                        [0..<unat capacity]\<rparr>)
             else UB))"

definition id_pool_allocate :: "id_pool cptr \<Rightarrow> u32 res \<times> id_pool cptr" where
  "id_pool_allocate pool =
     (if pool = NULL then (Err EINVAL, pool)
      else deref pool (\<lambda>p.
        if pool_top p = 0 then (Err ENOENT, pool)
        else
          let t = pool_top p - 1; p1 = p\<lparr>pool_top := t\<rparr>
          in and_then (array_read (free_ids p1) (unat t), Ptr p1) (\<lambda>out_id s.
               let idx = out_id - id_start_offset p1
               in and_then (array_write (pool_in_use p1) (unat idx) 1, s) (\<lambda>flags _.
                    (Ok out_id, Ptr (p1\<lparr>pool_in_use := flags\<rparr>))))))"

definition id_pool_free :: "id_pool cptr \<Rightarrow> u32 \<Rightarrow> unit res \<times> id_pool cptr" where
  "id_pool_free pool ident =
     (if pool = NULL then (Err EINVAL, pool)
      else deref pool (\<lambda>p.
        let idx = ident - id_start_offset p
        in if ident \<ge> pool_capacity p + id_start_offset p \<or> ident < id_start_offset p
           then (Err ESPIPE, pool)
           else and_then (array_read (pool_in_use p) (unat idx), pool) (\<lambda>flag s.
             if flag = 0 then (Err EALREADY, s)
             else and_then (array_write (pool_in_use p) (unat idx) 0, s) (\<lambda>flags _.
               let p1 = p\<lparr>pool_in_use := flags\<rparr>
               in and_then (array_write (free_ids p1) (unat (pool_top p1)) ident, Ptr p1) (\<lambda>ids _.
                    (Ok (), Ptr (p1\<lparr>free_ids := ids, pool_top := pool_top p1 + 1\<rparr>)))))))"

text \<open>
  \<open>pool->free_ids == NULL\<close> is never true (an array member is not a null pointer), so the
  guards of the last two operations reduce to \<open>pool == NULL\<close>.
\<close>

definition id_pool_destroy :: "id_pool cptr \<Rightarrow> unit res \<times> id_pool cptr" where
  "id_pool_destroy pool = (if pool = NULL then (Err EINVAL, pool) else c_free pool)"

text \<open>\<open>int count = pool->capacity - pool->top\<close>: the 32-bit difference read as signed.\<close>

definition id_pool_get_used_id_count :: "id_pool cptr \<Rightarrow> u32 res" where
  "id_pool_get_used_id_count pool =
     (if pool = NULL then Err EINVAL
      else res_bind (load pool) (\<lambda>p.
        let count = sint (pool_capacity p - pool_top p)
        in if count < 0 then Err EINVAL else Ok (word_of_int count)))"

section \<open>Invariant and abstract view\<close>

definition id_index :: "id_pool \<Rightarrow> u32 \<Rightarrow> nat" where
  "id_index p i = unat (i - id_start_offset p)"

text \<open>The free identifiers, the next one to be handed out first.\<close>

definition free_stack :: "id_pool \<Rightarrow> u32 list" where
  "free_stack p = rev (take (unat (pool_top p)) (free_ids p))"

definition used_ids :: "id_pool \<Rightarrow> u32 set" where
  "used_ids p = (\<lambda>k. id_start_offset p + of_nat k) `
     {k. k < unat (pool_capacity p) \<and> pool_in_use p ! k \<noteq> 0}"

definition all_ids :: "id_pool \<Rightarrow> u32 set" where
  "all_ids p = (\<lambda>k. id_start_offset p + of_nat k) ` {..<unat (pool_capacity p)}"

definition id_pool_inv :: "id_pool \<Rightarrow> bool" where
  "id_pool_inv p \<longleftrightarrow>
     pool_capacity p \<noteq> 0 \<and>
     length (free_ids p) = unat (pool_capacity p) \<and>
     length (pool_in_use p) = unat (pool_capacity p) \<and>
     pool_top p \<le> pool_capacity p \<and>
     distinct (free_stack p) \<and>
     id_index p ` set (free_stack p) =
       {k. k < unat (pool_capacity p) \<and> pool_in_use p ! k = 0}"

text \<open>
  The bound test of \<open>id_pool_free\<close> adds capacity and offset in 32 bits. \<open>no_wrap\<close> says that this
  sum does not wrap around; \<open>id_pool_create\<close> does not check it.
\<close>

definition no_wrap :: "id_pool \<Rightarrow> bool" where
  "no_wrap p \<longleftrightarrow> unat (pool_capacity p) + unat (id_start_offset p) < 2 ^ 32"


section \<open>Basic facts\<close>

lemma id_index_less_inj:
  "id_index p i = id_index p j \<longleftrightarrow> i = j"
  by (simp add: id_index_def unat_eq_iff)

lemma inj_id_index: "inj_on (id_index p) A"
  by (simp add: inj_on_def id_index_less_inj)

lemma offset_plus_index: "id_start_offset p + of_nat (id_index p i) = i"
  by (simp add: id_index_def)

lemma id_index_offset_plus:
  "k < unat (pool_capacity p) \<Longrightarrow> id_index p (id_start_offset p + of_nat k) = k"
proof -
  assume "k < unat (pool_capacity p)"
  then have "k < 2 ^ 32" using unat_less [of "pool_capacity p"] by simp
  then show ?thesis by (simp add: id_index_def unat_of_nat_lt)
qed

lemma mem_all_ids: "i \<in> all_ids p \<longleftrightarrow> id_index p i < unat (pool_capacity p)"
  by (force simp: all_ids_def id_index_offset_plus offset_plus_index
      intro: image_eqI [where x = "id_index p i"])

lemma mem_used_ids:
  "i \<in> used_ids p \<longleftrightarrow>
     id_index p i < unat (pool_capacity p) \<and> pool_in_use p ! id_index p i \<noteq> 0"
  by (force simp: used_ids_def id_index_offset_plus offset_plus_index
      intro: image_eqI [where x = "id_index p i"])

lemma used_subset_all: "used_ids p \<subseteq> all_ids p"
  by (auto simp: mem_used_ids mem_all_ids)

lemma id_pool_invD:
  assumes "id_pool_inv p"
  shows "pool_capacity p \<noteq> 0"
    and "length (free_ids p) = unat (pool_capacity p)"
    and "length (pool_in_use p) = unat (pool_capacity p)"
    and "unat (pool_top p) \<le> unat (pool_capacity p)"
    and "distinct (free_stack p)"
    and "id_index p ` set (free_stack p) =
           {k. k < unat (pool_capacity p) \<and> pool_in_use p ! k = 0}"
  using assms by (simp_all add: id_pool_inv_def word_le_nat_alt)

lemma set_free_stack:
  assumes "id_pool_inv p"
  shows "set (free_stack p) = all_ids p - used_ids p"
proof -
  have "i \<in> set (free_stack p) \<longleftrightarrow> i \<in> all_ids p - used_ids p" for i
  proof -
    have "i \<in> set (free_stack p) \<longleftrightarrow> id_index p i \<in> id_index p ` set (free_stack p)"
      by (auto simp: id_index_less_inj)
    also have "\<dots> \<longleftrightarrow> id_index p i < unat (pool_capacity p) \<and> pool_in_use p ! id_index p i = 0"
      by (simp only: id_pool_invD(6) [OF assms] mem_Collect_eq)
    also have "\<dots> \<longleftrightarrow> i \<in> all_ids p - used_ids p"
      by (simp add: mem_all_ids mem_used_ids) blast
    finally show ?thesis .
  qed
  then show ?thesis by blast
qed

lemma finite_all_ids [simp]: "finite (all_ids p)"
  by (simp add: all_ids_def)

lemma card_all_ids: "card (all_ids p) = unat (pool_capacity p)"
proof -
  have "inj_on (\<lambda>k. id_start_offset p + of_nat k) {..<unat (pool_capacity p)}"
    by (rule inj_on_inverseI [where g = "id_index p"]) (simp add: id_index_offset_plus)
  then show ?thesis by (simp add: all_ids_def card_image)
qed

lemma length_free_stack: "id_pool_inv p \<Longrightarrow> length (free_stack p) = unat (pool_top p)"
  by (simp add: free_stack_def id_pool_invD)

text \<open>Free and used identifiers always add up to the capacity.\<close>

lemma used_plus_top:
  assumes "id_pool_inv p"
  shows "card (used_ids p) + unat (pool_top p) = unat (pool_capacity p)"
proof -
  have "card (set (free_stack p)) = unat (pool_top p)"
    using assms by (simp add: distinct_card id_pool_invD length_free_stack)
  moreover have "card (all_ids p - used_ids p) = card (all_ids p) - card (used_ids p)"
    using used_subset_all finite_subset [OF used_subset_all finite_all_ids]
    by (rule card_Diff_subset [rotated])
  moreover have "card (used_ids p) \<le> card (all_ids p)"
    by (rule card_mono [OF finite_all_ids used_subset_all])
  ultimately show ?thesis
    using set_free_stack [OF assms] by (simp add: card_all_ids)
qed

lemma in_bounds_iff_all_ids:
  assumes "id_pool_inv p" "no_wrap p"
  shows "\<not> (i \<ge> pool_capacity p + id_start_offset p \<or> i < id_start_offset p) \<longleftrightarrow> i \<in> all_ids p"
proof -
  have s: "unat (pool_capacity p + id_start_offset p) =
             unat (pool_capacity p) + unat (id_start_offset p)"
    using assms(2) by (simp add: no_wrap_def unat_word_ariths)
  show ?thesis
  proof (cases "id_start_offset p \<le> i")
    case True
    then have "unat (i - id_start_offset p) = unat i - unat (id_start_offset p)"
      by (simp add: unat_sub)
    with True s show ?thesis
      by (auto simp: mem_all_ids id_index_def word_le_nat_alt word_less_nat_alt)
  next
    case False
    then have lt: "unat i < unat (id_start_offset p)" by (simp add: word_le_nat_alt)
    have "unat (i - id_start_offset p) =
            2 ^ 32 + unat i - unat (id_start_offset p)"
      using lt unat_less [of "id_start_offset p"]
      by (simp add: unat_sub_if')
    then have "unat (pool_capacity p) \<le> id_index p i"
      using assms(2) by (simp add: id_index_def no_wrap_def)
    with False show ?thesis by (auto simp: mem_all_ids)
  qed
qed

section \<open>Creation\<close>

lemma create_sizes:
  fixes cap :: u32
  assumes "unat cap \<le> 858993454"
  shows "unat (cap * 4) = 4 * unat cap"
    and "unat (sizeof_id_pool + cap * 4 + cap * 1) = 24 + 5 * unat cap"
proof -
  show m: "unat (cap * 4) = 4 * unat cap"
    using assms by (simp add: unat_word_ariths)
  show "unat (sizeof_id_pool + cap * 4 + cap * 1) = 24 + 5 * unat cap"
    using assms by (simp add: sizeof_id_pool_def unat_word_ariths)
qed

lemma create_total_wraps:
  fixes cap :: u32
  assumes "858993454 < unat cap"
  shows "\<not> (unat sizeof_id_pool + unat (cap * 4) + unat (cap * 1)
               \<le> unat (sizeof_id_pool + cap * 4 + cap * 1)
            \<and> offsetof_free_ids + 4 * unat cap \<le> unat (sizeof_id_pool + cap * 4 + cap * 1))"
proof (cases "4 * unat cap < 2 ^ 32")
  case True
  then have m: "unat (cap * 4) = 4 * unat cap"
    by (simp add: unat_word_ariths)
  have "unat (sizeof_id_pool + cap * 4 + cap * 1) < 2 ^ 32"
    by (simp add: unat_less_32)
  then show ?thesis using assms m by (simp add: sizeof_id_pool_def)
next
  case False
  have "unat (sizeof_id_pool + cap * 4 + cap * 1) < 2 ^ 32"
    by (simp add: unat_less_32)
  with False show ?thesis by simp
qed

lemma nth_rev_ids:
  fixes cap off :: u32
  shows "rev (map (\<lambda>i. off + (cap - 1 - of_nat i)) [0..<unat cap]) =
           map (\<lambda>i. off + of_nat i) [0..<unat cap]"
proof (rule nth_equalityI)
  fix k assume "k < length (rev (map (\<lambda>i. off + (cap - 1 - of_nat i)) [0..<unat cap]))"
  then have k: "k < unat cap" by simp
  have e: "cap - 1 - of_nat (unat cap - Suc k) = of_nat k"
  proof -
    have "of_nat (unat cap - Suc k) = (of_nat (unat cap) - of_nat (Suc k) :: u32)"
      using k by (simp add: of_nat_diff)
    then show ?thesis by simp
  qed
  show "rev (map (\<lambda>i. off + (cap - 1 - of_nat i)) [0..<unat cap]) ! k =
          map (\<lambda>i. off + of_nat i) [0..<unat cap] ! k"
    using k e by (simp add: rev_nth)
qed simp

lemma id_pool_create_Ok:
  assumes "cfg_capacity c \<noteq> 0" "unat (cfg_capacity c) \<le> 858993454"
  obtains p where "id_pool_create True OutAddr (Ptr c) = Ok (Ptr p)"
    and "id_pool_inv p"
    and "pool_capacity p = cfg_capacity c"
    and "id_start_offset p = cfg_id_start_offset c"
    and "used_ids p = {}"
    and "free_stack p = map (\<lambda>i. cfg_id_start_offset c + of_nat i) [0..<unat (cfg_capacity c)]"
proof -
  let ?cap = "cfg_capacity c" and ?off = "cfg_id_start_offset c"
  let ?p = "\<lparr>pool_in_use = replicate (unat ?cap) 0, pool_capacity = ?cap, pool_top = ?cap,
              id_start_offset = ?off,
              free_ids = map (\<lambda>i. ?off + (?cap - 1 - of_nat i)) [0..<unat ?cap]\<rparr>"
  have h: "unat sizeof_id_pool = 24" by (simp add: sizeof_id_pool_def)
  have c: "id_pool_create True OutAddr (Ptr c) = Ok (Ptr ?p)"
    using assms(1) create_sizes [OF assms(2)]
    by (simp add: id_pool_create_def Let_def h offsetof_free_ids_def)
  have fs: "free_stack ?p = map (\<lambda>i. ?off + of_nat i) [0..<unat ?cap]"
    by (simp add: free_stack_def nth_rev_ids)
  have ix: "id_index ?p (?off + of_nat k) = k" if "k < unat ?cap" for k
    using id_index_offset_plus [of k ?p] that by simp
  have d: "distinct (free_stack ?p)"
    unfolding fs by (auto simp: distinct_map inj_on_def) (metis ix)
  have im: "id_index ?p ` set (free_stack ?p) = {..<unat ?cap}"
    unfolding fs using ix by (auto simp: image_image)
  have "id_pool_inv ?p"
    unfolding id_pool_inv_def using assms(1) d im by auto
  with c fs show ?thesis by (intro that) (auto simp: used_ids_def)
qed

section \<open>Allocation\<close>

lemma allocate_when_empty:
  assumes "id_pool_inv p" "free_stack p = []"
  shows "id_pool_allocate (Ptr p) = (Err ENOENT, Ptr p)"
proof -
  have "unat (pool_top p) = 0"
    using assms length_free_stack [OF assms(1)] by simp
  then show ?thesis by (simp add: id_pool_allocate_def unat_0_iff)
qed

definition after_allocate :: "id_pool \<Rightarrow> id_pool" where
  "after_allocate p = p\<lparr>pool_top := pool_top p - 1,
     pool_in_use := (pool_in_use p)[id_index p (hd (free_stack p)) := 1]\<rparr>"

lemma allocate_when_nonempty:
  assumes inv: "id_pool_inv p" and fs: "free_stack p = i # rest"
  shows "id_pool_allocate (Ptr p) = (Ok i, Ptr (after_allocate p))"
    and "id_pool_inv (after_allocate p)"
    and "free_stack (after_allocate p) = rest"
    and "used_ids (after_allocate p) = insert i (used_ids p)"
    and "pool_capacity (after_allocate p) = pool_capacity p"
    and "id_start_offset (after_allocate p) = id_start_offset p"
proof -
  note invs = id_pool_invD [OF inv]
  let ?p = "after_allocate p"
  show cap: "pool_capacity ?p = pool_capacity p" and off: "id_start_offset ?p = id_start_offset p"
    by (simp_all add: after_allocate_def)
  have top: "unat (pool_top p) = Suc (length rest)"
    using length_free_stack [OF inv] fs by simp
  then have tnz: "pool_top p \<noteq> 0" by auto
  have t1: "unat (pool_top p - 1) = length rest"
    using top tnz by (simp add: unat_dec)
  have lt: "length rest < length (free_ids p)"
    using top invs by simp
  have tk: "rev (take (length rest) (free_ids p)) = rest" "free_ids p ! length rest = i"
    using fs lt top by (simp_all add: free_stack_def take_Suc_conv_app_nth)
  have ii: "i \<in> all_ids p - used_ids p"
    using set_free_stack [OF inv] fs by auto
  then have ix: "id_index p i < unat (pool_capacity p)" "pool_in_use p ! id_index p i = 0"
    by (auto simp: mem_all_ids mem_used_ids)
  show "id_pool_allocate (Ptr p) = (Ok i, Ptr ?p)"
    using tnz lt ix invs tk fs t1
    by (simp add: id_pool_allocate_def after_allocate_def Let_def id_index_def)
  show fs': "free_stack ?p = rest"
    by (simp add: free_stack_def after_allocate_def t1 tk)
  have used: "pool_in_use ?p = (pool_in_use p)[id_index p i := 1]"
    by (simp add: after_allocate_def fs)
  have ixp: "id_index ?p = id_index p"
    by (rule ext) (simp add: id_index_def after_allocate_def)
  have "j \<in> used_ids ?p \<longleftrightarrow> j \<in> insert i (used_ids p)" for j
    using ix invs by (auto simp: mem_used_ids ixp cap used nth_list_update id_index_less_inj)
  then show us: "used_ids ?p = insert i (used_ids p)" by blast
  have "{k. k < unat (pool_capacity ?p) \<and> pool_in_use ?p ! k = 0} =
          {k. k < unat (pool_capacity p) \<and> pool_in_use p ! k = 0} - {id_index p i}"
    using ix invs by (auto simp: cap used nth_list_update)
  also have "\<dots> = id_index p ` set (i # rest) - {id_index p i}"
    using invs(6) fs by simp
  also have "\<dots> = id_index p ` set rest"
    using invs(5) fs by (auto simp: id_index_less_inj)
  finally have "id_index ?p ` set (free_stack ?p) =
                  {k. k < unat (pool_capacity ?p) \<and> pool_in_use ?p ! k = 0}"
    by (simp add: fs' ixp)
  moreover have "pool_top ?p \<le> pool_capacity ?p"
    using t1 invs(4) top cap by (simp add: after_allocate_def word_le_nat_alt)
  ultimately show "id_pool_inv ?p"
    using invs fs fs' cap
    by (simp add: id_pool_inv_def) (simp add: after_allocate_def)
qed

section \<open>Release\<close>

definition after_free :: "id_pool \<Rightarrow> u32 \<Rightarrow> id_pool" where
  "after_free p i = p\<lparr>pool_in_use := (pool_in_use p)[id_index p i := 0],
     free_ids := (free_ids p)[unat (pool_top p) := i], pool_top := pool_top p + 1\<rparr>"

lemma free_illegal:
  assumes "id_pool_inv p" "no_wrap p" "i \<notin> all_ids p"
  shows "id_pool_free (Ptr p) i = (Err ESPIPE, Ptr p)"
  using in_bounds_iff_all_ids [OF assms(1,2), of i] assms(3)
  by (auto simp: id_pool_free_def)

lemma free_double:
  assumes "id_pool_inv p" "no_wrap p" "i \<in> all_ids p" "i \<notin> used_ids p"
  shows "id_pool_free (Ptr p) i = (Err EALREADY, Ptr p)"
proof -
  have "id_index p i < length (pool_in_use p)" "pool_in_use p ! id_index p i = 0"
    using assms by (auto simp: mem_all_ids mem_used_ids id_pool_invD)
  then show ?thesis
    using in_bounds_iff_all_ids [OF assms(1,2), of i] assms(3)
    by (auto simp: id_pool_free_def id_index_def)
qed

lemma free_when_used:
  assumes inv: "id_pool_inv p" and nw: "no_wrap p" and u: "i \<in> used_ids p"
  shows "id_pool_free (Ptr p) i = (Ok (), Ptr (after_free p i))"
    and "id_pool_inv (after_free p i)"
    and "free_stack (after_free p i) = i # free_stack p"
    and "used_ids (after_free p i) = used_ids p - {i}"
    and "pool_capacity (after_free p i) = pool_capacity p"
    and "id_start_offset (after_free p i) = id_start_offset p"
proof -
  note invs = id_pool_invD [OF inv]
  let ?p = "after_free p i"
  show cap: "pool_capacity ?p = pool_capacity p" and off: "id_start_offset ?p = id_start_offset p"
    by (simp_all add: after_free_def)
  have ix: "id_index p i < unat (pool_capacity p)" "pool_in_use p ! id_index p i \<noteq> 0"
    using u by (auto simp: mem_used_ids)
  have "0 < card (used_ids p)"
    using u finite_subset [OF used_subset_all finite_all_ids] by (auto simp: card_gt_0_iff)
  then have lt: "unat (pool_top p) < unat (pool_capacity p)"
    using used_plus_top [OF inv] by simp
  have t1: "unat (pool_top p + 1) = Suc (unat (pool_top p))"
    using lt unat_less_32 [of "pool_capacity p"] by (simp add: unat_inc)
  have b: "\<not> (i \<ge> pool_capacity p + id_start_offset p \<or> i < id_start_offset p)"
    using in_bounds_iff_all_ids [OF inv nw] u used_subset_all by blast
  show "id_pool_free (Ptr p) i = (Ok (), Ptr ?p)"
    using b ix lt invs by (simp add: id_pool_free_def after_free_def Let_def id_index_def)
  show fs: "free_stack ?p = i # free_stack p"
    using lt invs by (simp add: free_stack_def after_free_def t1 take_Suc_conv_app_nth)
  have used: "pool_in_use ?p = (pool_in_use p)[id_index p i := 0]"
    by (simp add: after_free_def)
  have ixp: "id_index ?p = id_index p"
    by (rule ext) (simp add: id_index_def after_free_def)
  have "j \<in> used_ids ?p \<longleftrightarrow> j \<in> used_ids p - {i}" for j
    using ix invs by (auto simp: mem_used_ids ixp cap used nth_list_update id_index_less_inj)
  then show "used_ids ?p = used_ids p - {i}" by blast
  have "{k. k < unat (pool_capacity ?p) \<and> pool_in_use ?p ! k = 0} =
          insert (id_index p i) {k. k < unat (pool_capacity p) \<and> pool_in_use p ! k = 0}"
    using ix invs by (auto simp: cap used nth_list_update)
  also have "\<dots> = id_index p ` set (i # free_stack p)"
    using invs(6) by simp
  finally have "id_index ?p ` set (free_stack ?p) =
                  {k. k < unat (pool_capacity ?p) \<and> pool_in_use ?p ! k = 0}"
    by (simp add: fs ixp)
  moreover have "pool_top ?p \<le> pool_capacity ?p"
    using t1 lt cap by (simp add: after_free_def word_le_nat_alt)
  moreover have "i \<notin> set (free_stack p)"
    using set_free_stack [OF inv] u by blast
  ultimately show "id_pool_inv ?p"
    using invs fs cap by (simp add: id_pool_inv_def) (simp add: after_free_def)
qed

lemma all_ids_cong:
  "pool_capacity q = pool_capacity p \<Longrightarrow> id_start_offset q = id_start_offset p \<Longrightarrow>
     all_ids q = all_ids p"
  by (simp add: all_ids_def)

lemma no_wrap_cong:
  "pool_capacity q = pool_capacity p \<Longrightarrow> id_start_offset q = id_start_offset p \<Longrightarrow>
     no_wrap q \<longleftrightarrow> no_wrap p"
  by (simp add: no_wrap_def)

section \<open>The pool as a source of identifiers\<close>

text \<open>The interface's view of a pool pointer: it is live and its pool is well formed.\<close>

definition live_pool :: "id_pool cptr \<Rightarrow> bool" where
  "live_pool q = (case q of Ptr p \<Rightarrow> id_pool_inv p \<and> no_wrap p | _ \<Rightarrow> False)"

definition pool_used :: "id_pool cptr \<Rightarrow> u32 set" where
  "pool_used q = (case q of Ptr p \<Rightarrow> used_ids p | _ \<Rightarrow> {})"

definition pool_owned :: "id_pool cptr \<Rightarrow> u32 set" where
  "pool_owned q = (case q of Ptr p \<Rightarrow> all_ids p | _ \<Rightarrow> {})"

lemma live_pool_cases:
  assumes "live_pool q"
  obtains p where "q = Ptr p" "id_pool_inv p" "no_wrap p"
  using assms by (auto simp: live_pool_def split: cptr.splits)

lemma live_pool_simps [simp]:
  "live_pool (Ptr p) \<longleftrightarrow> id_pool_inv p \<and> no_wrap p" "\<not> live_pool NULL" "\<not> live_pool Freed"
  "pool_used (Ptr p) = used_ids p" "pool_owned (Ptr p) = all_ids p"
  by (simp_all add: live_pool_def pool_used_def pool_owned_def)

lemma free_stack_empty_iff:
  "id_pool_inv p \<Longrightarrow> free_stack p = [] \<longleftrightarrow> used_ids p = all_ids p"
  using set_free_stack [of p] used_subset_all [of p] by auto

interpretation ids: id_source live_pool pool_used pool_owned id_pool_allocate id_pool_free
proof unfold_locales
  fix q
  assume q: "live_pool q"
  then obtain p where p: "q = Ptr p" "id_pool_inv p" "no_wrap p"
    by (rule live_pool_cases)
  show "pool_used q \<subseteq> pool_owned q" "finite (pool_owned q)"
    using p used_subset_all by simp_all
  show "\<exists>i q'. id_pool_allocate q = (Ok i, q') \<and> live_pool q' \<and> i \<in> pool_owned q - pool_used q
          \<and> pool_used q' = insert i (pool_used q) \<and> pool_owned q' = pool_owned q"
    if "pool_used q \<noteq> pool_owned q"
  proof -
    from that p have "free_stack p \<noteq> []" by (simp add: free_stack_empty_iff)
    then obtain i rest where fs: "free_stack p = i # rest"
      by (meson neq_Nil_conv)
    note a = allocate_when_nonempty [OF p(2) fs]
    have "i \<in> all_ids p - used_ids p"
      using set_free_stack [OF p(2)] fs by auto
    with a p all_ids_cong [OF a(5,6)] no_wrap_cong [OF a(5,6)] show ?thesis
      by simp
  qed
  show "\<exists>e. id_pool_allocate q = (Err e, q)" if "pool_used q = pool_owned q"
    using that p allocate_when_empty by (auto simp: free_stack_empty_iff)
  fix i
  show "\<exists>q'. id_pool_free q i = (Ok (), q') \<and> live_pool q' \<and> pool_used q' = pool_used q - {i}
          \<and> pool_owned q' = pool_owned q" if "i \<in> pool_used q"
  proof -
    from that p have "i \<in> used_ids p" by simp
    note f = free_when_used [OF p(2,3) this]
    with p all_ids_cong [OF f(5,6)] no_wrap_cong [OF f(5,6)] show ?thesis by simp
  qed
  show "\<exists>e. id_pool_free q i = (Err e, q)" if "i \<notin> pool_used q"
    using that p free_illegal free_double by (cases "i \<in> all_ids p") auto
qed

text \<open>The status codes of the failures, and the count, for a client of the interface.\<close>

lemma pool_full:
  assumes "live_pool q" "pool_used q = pool_owned q"
  shows "id_pool_allocate q = (Err ENOENT, q)"
  using assms allocate_when_empty by (auto elim!: live_pool_cases simp: free_stack_empty_iff)

lemma pool_release_unused:
  assumes "live_pool q" "i \<in> pool_owned q" "i \<notin> pool_used q"
  shows "id_pool_free q i = (Err EALREADY, q)"
  using assms free_double by (auto elim!: live_pool_cases)

lemma used_id_count:
  assumes "id_pool_inv p"
  shows "id_pool_get_used_id_count (Ptr p) =
           (if card (used_ids p) < 2 ^ 31 then Ok (of_nat (card (used_ids p))) else Err EINVAL)"
proof -
  let ?d = "pool_capacity p - pool_top p"
  have "unat ?d = card (used_ids p)"
    using used_plus_top [OF assms] id_pool_invD(4) [OF assms]
    by (simp add: unat_sub word_le_nat_alt)
  then have u: "uint ?d = int (card (used_ids p))" by (simp add: uint_nat)
  have b: "card (used_ids p) < 2 ^ 32"
    using u uint_lt2p [of ?d] by simp
  have "sint ?d = (if card (used_ids p) < 2 ^ 31 then int (card (used_ids p))
                   else int (card (used_ids p)) - 2 ^ 32)"
    using u b by (simp add: sint_32)
  with b show ?thesis
    by (simp add: id_pool_get_used_id_count_def Let_def)
qed

section \<open>Properties\<close>

text \<open>C15 (safety). No identifier is handed out twice while it is held: in any sequence of
  allocations and releases on a fresh pool of at most 858993454 identifiers whose range does not
  wrap around (offset plus capacity below \<open>2 ^ 32\<close>), no request is undefined, each identifier
  handed out was not held before, and the pool's flags record exactly what the client holds, which
  is never more than the capacity.\<close>

theorem id_pool_never_hands_out_twice:
  assumes "id_pool_create True OutAddr (Ptr c) = Ok q"
    and "unat (cfg_capacity c) \<le> 858993454"
    and "unat (cfg_capacity c) + unat (cfg_id_start_offset c) < 2 ^ 32"
    and "run_ids id_pool_allocate id_pool_free q {} ops = (ok, held, q')"
  shows "ok \<and> pool_used q' = held \<and> card held \<le> unat (cfg_capacity c)"
proof -
  from assms(1) have "cfg_capacity c \<noteq> 0"
    by (auto simp: id_pool_create_def)
  then obtain p where p: "q = Ptr p" "id_pool_inv p" "pool_capacity p = cfg_capacity c"
    "id_start_offset p = cfg_id_start_offset c" "used_ids p = {}"
    using id_pool_create_Ok [of c] assms(1,2) by (metis res.inject(1))
  with assms(3) have live: "live_pool q" by (simp add: no_wrap_def)
  have run: "ok \<and> live_pool q' \<and> pool_used q' = held \<and> pool_owned q' = pool_owned q"
    using ids.run_ids_sound [OF live, of ops ok held q'] assms(4) p by simp
  have "card held \<le> card (pool_owned q)"
    using run ids.used_owned [of q'] ids.finite_owned [OF live] by (metis card_mono)
  with run p show ?thesis by (simp add: card_all_ids)
qed

theorem id_pool_never_hands_out_twice_witness:
  "\<exists>ok held q'.
     run_ids id_pool_allocate id_pool_free
       (case id_pool_create True OutAddr (Ptr \<lparr>cfg_capacity = 5, cfg_id_start_offset = 100\<rparr>) of
          Ok q \<Rightarrow> q | _ \<Rightarrow> NULL) {} [Take, Take, Give 100, Take] = (ok, held, q')
     \<and> ok \<and> pool_used q' = held \<and> card held \<le> 5"
proof -
  let ?c = "\<lparr>cfg_capacity = 5, cfg_id_start_offset = 100\<rparr>"
  obtain p where p: "id_pool_create True OutAddr (Ptr ?c) = Ok (Ptr p)"
    by (rule id_pool_create_Ok [of ?c]) simp_all
  obtain ok held q' where r:
    "run_ids id_pool_allocate id_pool_free (Ptr p) {} [Take, Take, Give 100, Take] = (ok, held, q')"
    by (metis prod_cases3)
  from id_pool_never_hands_out_twice [OF p _ _ r]
  have "ok \<and> pool_used q' = held \<and> card held \<le> 5" by simp
  with r show ?thesis unfolding p res.case by blast
qed

text \<open>C31 (refinement). A pool that satisfies its invariant and whose range of identifiers does not
  wrap around (offset plus capacity below \<open>2 ^ 32\<close>) refines a plain stack of free identifiers:
  allocation pops the stack and fails with \<open>ENOENT\<close> exactly when it is empty; a release fails
  with \<open>ESPIPE\<close> outside the pool's range and with \<open>EALREADY\<close> on a double free, without
  changing the pool, and otherwise pushes the identifier; the invariant is kept throughout.\<close>

definition stack_allocate :: "u32 list \<Rightarrow> u32 res \<times> u32 list" where
  "stack_allocate st = (case st of [] \<Rightarrow> (Err ENOENT, []) | i # st' \<Rightarrow> (Ok i, st'))"

definition stack_free :: "u32 set \<Rightarrow> u32 list \<Rightarrow> u32 \<Rightarrow> unit res \<times> u32 list" where
  "stack_free owned st i =
     (if i \<notin> owned then (Err ESPIPE, st)
      else if i \<in> set st then (Err EALREADY, st)
      else (Ok (), i # st))"

theorem id_pool_refines_stack:
  assumes "id_pool_inv p" "no_wrap p"
  shows "\<exists>r p' r' p''.
      id_pool_allocate (Ptr p) = (r, Ptr p') \<and> id_pool_inv p' \<and> no_wrap p'
    \<and> (r, free_stack p') = stack_allocate (free_stack p)
    \<and> id_pool_free (Ptr p) i = (r', Ptr p'') \<and> id_pool_inv p'' \<and> no_wrap p''
    \<and> (r', free_stack p'') = stack_free (all_ids p) (free_stack p) i"
proof -
  have a: "\<exists>r p'. id_pool_allocate (Ptr p) = (r, Ptr p') \<and> id_pool_inv p' \<and> no_wrap p'
             \<and> (r, free_stack p') = stack_allocate (free_stack p)"
  proof (cases "free_stack p")
    case Nil
    with assms allocate_when_empty show ?thesis by (auto simp: stack_allocate_def)
  next
    case (Cons j rest)
    note n = allocate_when_nonempty [OF assms(1) Cons]
    show ?thesis
      using n assms(2) no_wrap_cong [OF n(5,6)] Cons by (auto simp: stack_allocate_def)
  qed
  have f: "\<exists>r' p''. id_pool_free (Ptr p) i = (r', Ptr p'') \<and> id_pool_inv p'' \<and> no_wrap p''
             \<and> (r', free_stack p'') = stack_free (all_ids p) (free_stack p) i"
  proof (cases "i \<in> used_ids p")
    case True
    note n = free_when_used [OF assms True]
    show ?thesis
      using n assms(2) no_wrap_cong [OF n(5,6)] True set_free_stack [OF assms(1)] used_subset_all
      by (auto simp: stack_free_def)
  next
    case False
    then show ?thesis
      using assms free_illegal [OF assms] free_double [OF assms] set_free_stack [OF assms(1)]
      by (cases "i \<in> all_ids p") (auto simp: stack_free_def)
  qed
  from a f show ?thesis by metis
qed

definition sample_pool :: id_pool where
  "sample_pool = \<lparr>pool_in_use = [1, 0, 0], pool_capacity = 3, pool_top = 2,
                  id_start_offset = 7, free_ids = [9, 8, 7]\<rparr>"

lemma sample_pool_ok: "id_pool_inv sample_pool" "no_wrap sample_pool"
proof -
  have free: "{k. k < 3 \<and> [1, 0, 0 :: u8] ! k = 0} = {1, 2}"
    by (auto simp: less_3_nat)
  have st: "free_stack sample_pool = [8, 9]"
    by code_simp
  have ix: "id_index sample_pool 8 = 1" "id_index sample_pool 9 = 2"
    by (simp_all add: id_index_def sample_pool_def)
  have fields: "pool_capacity sample_pool = 3" "pool_top sample_pool = 2"
    "length (free_ids sample_pool) = 3" "pool_in_use sample_pool = [1, 0, 0]"
    by (simp_all add: sample_pool_def)
  show "id_pool_inv sample_pool"
    unfolding id_pool_inv_def fields st using free ix by simp
qed (simp add: no_wrap_def sample_pool_def)

theorem id_pool_refines_stack_witness:
  "\<exists>r p' r' p''.
      id_pool_allocate (Ptr sample_pool) = (r, Ptr p') \<and> id_pool_inv p' \<and> no_wrap p'
    \<and> (r, free_stack p') = stack_allocate (free_stack sample_pool)
    \<and> id_pool_free (Ptr sample_pool) 7 = (r', Ptr p'') \<and> id_pool_inv p'' \<and> no_wrap p''
    \<and> (r', free_stack p'') = stack_free (all_ids sample_pool) (free_stack sample_pool) 7"
  by (rule id_pool_refines_stack [OF sample_pool_ok])

text \<open>Creation is correct exactly up to a capacity of 858993454: a fresh pool
  satisfies the invariant, nothing is in use and the identifiers come out in increasing order
  from the offset; above it the 32-bit size computation wraps around and the initialisation
  writes past the allocated block.\<close>

theorem id_pool_create_bounds:
  assumes "cfg_capacity c \<noteq> 0"
  shows "(unat (cfg_capacity c) \<le> 858993454 \<longrightarrow>
           (\<exists>p. id_pool_create True OutAddr (Ptr c) = Ok (Ptr p) \<and> id_pool_inv p \<and> used_ids p = {}
              \<and> free_stack p =
                  map (\<lambda>i. cfg_id_start_offset c + of_nat i) [0..<unat (cfg_capacity c)]))
         \<and> (858993454 < unat (cfg_capacity c) \<longrightarrow> id_pool_create True OutAddr (Ptr c) = UB)"
proof (intro conjI impI)
  show "\<exists>p. id_pool_create True OutAddr (Ptr c) = Ok (Ptr p) \<and> id_pool_inv p \<and> used_ids p = {}
          \<and> free_stack p = map (\<lambda>i. cfg_id_start_offset c + of_nat i) [0..<unat (cfg_capacity c)]"
    if "unat (cfg_capacity c) \<le> 858993454"
    using id_pool_create_Ok [OF assms that] by metis
  show "id_pool_create True OutAddr (Ptr c) = UB" if "858993454 < unat (cfg_capacity c)"
    using create_total_wraps [OF that] assms by (auto simp: id_pool_create_def Let_def)
qed

theorem id_pool_create_bounds_witness:
  "\<exists>p. id_pool_create True OutAddr (Ptr \<lparr>cfg_capacity = 5, cfg_id_start_offset = 100\<rparr>) = Ok (Ptr p)
     \<and> id_pool_inv p \<and> used_ids p = {}
     \<and> free_stack p = [100, 101, 102, 103, 104]"
proof -
  let ?c = "\<lparr>cfg_capacity = 5, cfg_id_start_offset = 100\<rparr>"
  have u: "[0..<5] = [0, 1, 2, 3, 4 :: nat]" by (simp add: upt_rec)
  show ?thesis using id_pool_create_bounds [of ?c] by (simp add: u)
qed

text \<open>When capacity plus offset does not fit in 32 bits, every release fails with
  \<open>ESPIPE\<close>, whatever the identifier: identifiers of such a pool can never be given back.\<close>

theorem id_pool_wrapped_range_never_frees:
  assumes "2 ^ 32 \<le> unat (pool_capacity p) + unat (id_start_offset p)"
  shows "id_pool_free (Ptr p) i = (Err ESPIPE, Ptr p)"
proof -
  have "unat (pool_capacity p + id_start_offset p) =
          unat (pool_capacity p) + unat (id_start_offset p) - 2 ^ 32"
    using assms unat_less_32 [of "pool_capacity p"] unat_less_32 [of "id_start_offset p"]
    by (simp add: unat_plus_if')
  then have "unat (pool_capacity p + id_start_offset p) < unat (id_start_offset p)"
    using unat_less_32 [of "pool_capacity p"] assms by simp
  then have "pool_capacity p + id_start_offset p \<le> i \<or> i < id_start_offset p"
    by (simp add: word_less_nat_alt word_le_nat_alt) linarith
  then show ?thesis by (simp add: id_pool_free_def)
qed

theorem id_pool_wrapped_range_never_frees_witness:
  "id_pool_free (Ptr \<lparr>pool_in_use = [1, 0], pool_capacity = 2, pool_top = 1,
      id_start_offset = 4294967294, free_ids = [4294967295, 4294967294]\<rparr>) 4294967294 =
   (Err ESPIPE, Ptr \<lparr>pool_in_use = [1, 0], pool_capacity = 2, pool_top = 1,
      id_start_offset = 4294967294, free_ids = [4294967295, 4294967294]\<rparr>)"
  by (rule id_pool_wrapped_range_never_frees) simp

text \<open>The used count is the number of identifiers in use; as it is computed
  in a signed \<open>int\<close>, it is reported as an error from \<open>2 ^ 31\<close> identifiers on.\<close>

theorem id_pool_used_count:
  assumes "id_pool_inv p"
  shows "id_pool_get_used_id_count (Ptr p) =
           (if card (used_ids p) < 2 ^ 31 then Ok (of_nat (card (used_ids p))) else Err EINVAL)"
  by (rule used_id_count [OF assms])

theorem id_pool_used_count_witness: "id_pool_get_used_id_count (Ptr sample_pool) = Ok 1"
proof -
  have "used_ids sample_pool = {7}"
    by (auto simp: used_ids_def sample_pool_def less_3_nat intro: image_eqI [where x = 0])
  with id_pool_used_count [OF sample_pool_ok(1)] show ?thesis by simp
qed

end
