(* ===== verification/Client_Mngr.thy ===== *)
theory Client_Mngr
  imports Id_Pool
begin

text \<open>
  \<open>CLIENTS_MANAGER/src/client_mngr.c\<close>: a two-level registry. One pool of identifiers names the
  clients, and each client has a pool of its own that names its files. The \<open>file_data\<close> entries
  of all clients lie in one area at the end of the manager's allocation; a client's
  \<open>files_data\<close> pointer is the index of its first entry in that area. A \<open>void *ctx\<close> is \<open>None\<close> for
  \<open>NULL\<close>. Entries outside the area are heap memory of somebody else: reading or writing them is
  undefined.
\<close>

section \<open>Data\<close>

type_synonym ctx = "nat option"

record file_data =
  file_size :: u32
  file_ctx :: ctx

record client_data =
  files_id_pool :: "id_pool cptr"
  files_data :: nat
  client_in_use :: bool

record client_mngr =
  max_clients :: u32
  max_files :: u32
  clients_id_pool :: "id_pool cptr"
  clients_data :: "client_data list"
  file_area :: "file_data list"

record client_mngr_cfg =
  clients_capacity :: u32
  files_capacity :: u32

text \<open>The three struct sizes under LP64.\<close>

definition sizeof_client_mngr :: u32 where
  "sizeof_client_mngr = 16"

definition sizeof_client_data :: u32 where
  "sizeof_client_data = 24"

definition sizeof_file_data :: u32 where
  "sizeof_file_data = 16"

definition zero_file :: file_data where
  "zero_file = \<lparr>file_size = 0, file_ctx = None\<rparr>"

definition zero_client :: client_data where
  "zero_client = \<lparr>files_id_pool = NULL, files_data = 0, client_in_use = False\<rparr>"

section \<open>Access\<close>

definition get_file_data :: "client_mngr \<Rightarrow> u32 \<Rightarrow> u32 \<Rightarrow> nat res" where
  "get_file_data m client_id file_id =
     res_bind (array_read (clients_data m) (unat client_id)) (\<lambda>cl.
       if files_data cl + unat file_id < length (file_area m)
       then Ok (files_data cl + unat file_id) else UB)"

definition set_client :: "u32 \<Rightarrow> client_data \<Rightarrow> client_mngr \<Rightarrow> client_mngr" where
  "set_client c cl m = m\<lparr>clients_data := (clients_data m)[unat c := cl]\<rparr>"

definition set_file :: "nat \<Rightarrow> file_data \<Rightarrow> client_mngr \<Rightarrow> client_mngr" where
  "set_file i fd m = m\<lparr>file_area := (file_area m)[i := fd]\<rparr>"

definition on_mngr ::
  "client_mngr cptr \<Rightarrow> (client_mngr \<Rightarrow> 'a res \<times> client_mngr) \<Rightarrow> 'a res \<times> client_mngr cptr" where
  "on_mngr p f =
     (if p = NULL then (Err EINVAL, p)
      else deref p (\<lambda>m. case f m of (r, m') \<Rightarrow> (r, Ptr m')))"

section \<open>Creation and destruction\<close>

text \<open>
  \<open>id_pool_destroy\<close> on the pools of the clients made so far; its status is ignored.
\<close>

fun drop_pools :: "client_data list \<Rightarrow> unit res" where
  "drop_pools [] = Ok ()"
| "drop_pools (cl # cls) =
     (case fst (id_pool_destroy (files_id_pool cl)) of UB \<Rightarrow> UB | _ \<Rightarrow> drop_pools cls)"

text \<open>
  The loop over the clients. \<open>i * manager->max_files\<close> is a 32-bit product. \<open>mallocs i\<close> says
  whether the allocation of the \<open>i\<close>-th file pool succeeds.
\<close>

fun create_clients ::
  "(nat \<Rightarrow> bool) \<Rightarrow> u32 \<Rightarrow> nat \<Rightarrow> nat \<Rightarrow> client_data list \<Rightarrow> client_data list res" where
  "create_clients mallocs mf 0 i cls = Ok cls"
| "create_clients mallocs mf (Suc left) i cls =
     (case id_pool_create (mallocs i) OutAddr
             (Ptr \<lparr>cfg_capacity = mf, cfg_id_start_offset = 0\<rparr>) of
        Ok pool \<Rightarrow>
          create_clients mallocs mf left (Suc i)
            (cls[i := \<lparr>files_id_pool = pool, files_data = unat (of_nat i * mf),
                       client_in_use = False\<rparr>])
      | Err e \<Rightarrow> (case drop_pools (take i cls) of UB \<Rightarrow> UB | _ \<Rightarrow> Err e)
      | UB \<Rightarrow> UB)"

text \<open>
  All sizes are computed in 32 bits. The header and the array of clients must lie inside the
  allocated block; what is left of the block holds \<open>file_data\<close> entries.
\<close>

definition client_mngr_create ::
  "bool \<Rightarrow> bool \<Rightarrow> (nat \<Rightarrow> bool) \<Rightarrow> client_mngr_cfg cptr \<Rightarrow> out_arg \<Rightarrow> client_mngr cptr res" where
  "client_mngr_create calloc_ok malloc_ok mallocs cfg client_manager =
     (if client_manager = OutNull \<or> cfg = NULL then Err EINVAL
      else res_bind (load cfg) (\<lambda>c.
        let base_size = sizeof_client_mngr;
            clients_data_size = clients_capacity c * sizeof_client_data;
            files_data_size = files_capacity c * sizeof_file_data;
            total_size = base_size + clients_data_size + files_data_size
        in if \<not> calloc_ok then Err ENOMEM
           else if unat total_size < unat base_size + 24 * unat (clients_capacity c) then UB
           else
             case id_pool_create malloc_ok OutAddr
                    (Ptr \<lparr>cfg_capacity = clients_capacity c, cfg_id_start_offset = 0\<rparr>) of
               Err e \<Rightarrow> Err e
             | UB \<Rightarrow> UB
             | Ok ids \<Rightarrow>
                 (case create_clients mallocs (files_capacity c) (unat (clients_capacity c)) 0
                         (replicate (unat (clients_capacity c)) zero_client) of
                    Ok cls \<Rightarrow>
                      Ok (Ptr \<lparr>max_clients = clients_capacity c, max_files = files_capacity c,
                               clients_id_pool = ids, clients_data = cls,
                               file_area = replicate
                                 ((unat total_size - unat base_size - unat clients_data_size) div 16)
                                 zero_file\<rparr>)
                  | Err e \<Rightarrow> (case fst (id_pool_destroy ids) of UB \<Rightarrow> UB | _ \<Rightarrow> Err e)
                  | UB \<Rightarrow> UB)))"

fun destroy_pools :: "client_data list \<Rightarrow> unit res \<times> client_data list" where
  "destroy_pools [] = (Ok (), [])"
| "destroy_pools (cl # cls) =
     (case id_pool_destroy (files_id_pool cl) of
        (Ok _, pool) \<Rightarrow>
          (case destroy_pools cls of (r, cls') \<Rightarrow> (r, cl\<lparr>files_id_pool := pool\<rparr> # cls'))
      | (r, pool) \<Rightarrow> (r, cl # cls))"

definition client_mngr_destroy :: "client_mngr cptr \<Rightarrow> unit res \<times> client_mngr cptr" where
  "client_mngr_destroy client_manager =
     (if client_manager = NULL then (Err EINVAL, client_manager)
      else deref client_manager (\<lambda>m.
        case destroy_pools (clients_data m) of
          (Ok _, cls) \<Rightarrow>
            (case id_pool_destroy (clients_id_pool m) of
               (Ok _, _) \<Rightarrow> (Ok (), Freed)
             | (r, ids) \<Rightarrow> (r, Ptr (m\<lparr>clients_data := cls, clients_id_pool := ids\<rparr>)))
        | (r, cls) \<Rightarrow> (r, Ptr (m\<lparr>clients_data := cls\<rparr>))))"

section \<open>Clients\<close>

definition client_mngr_allocate :: "client_mngr cptr \<Rightarrow> u32 res \<times> client_mngr cptr" where
  "client_mngr_allocate client_manager =
     on_mngr client_manager (\<lambda>m.
       case id_pool_allocate (clients_id_pool m) of
         (r, ids) \<Rightarrow> and_then (r, m\<lparr>clients_id_pool := ids\<rparr>) (\<lambda>c_id m.
           and_then (array_read (clients_data m) (unat c_id), m) (\<lambda>cl m.
             (Ok c_id, set_client c_id (cl\<lparr>client_in_use := True\<rparr>) m))))"

definition client_mngr_free :: "client_mngr cptr \<Rightarrow> u32 \<Rightarrow> unit res \<times> client_mngr cptr" where
  "client_mngr_free client_manager client_id =
     on_mngr client_manager (\<lambda>m.
       if client_id \<ge> max_clients m then (Err EINVAL, m)
       else and_then (array_read (clients_data m) (unat client_id), m) (\<lambda>cl m.
         case id_pool_get_used_id_count (files_id_pool cl) of
           UB \<Rightarrow> (UB, m)
         | Err e \<Rightarrow> (Err EACCES, m)
         | Ok id_count \<Rightarrow>
             if id_count \<noteq> 0 then (Err EACCES, m)
             else
               let m = set_client client_id (cl\<lparr>client_in_use := False\<rparr>) m
               in case id_pool_free (clients_id_pool m) client_id of
                    (r, ids) \<Rightarrow> (r, m\<lparr>clients_id_pool := ids\<rparr>)))"

section \<open>Files\<close>

definition client_mngr_file_allocate ::
  "client_mngr cptr \<Rightarrow> u32 \<Rightarrow> u32 \<Rightarrow> u32 res \<times> client_mngr cptr" where
  "client_mngr_file_allocate client_manager client_id fsize =
     on_mngr client_manager (\<lambda>m.
       if client_id \<ge> max_clients m then (Err EINVAL, m)
       else and_then (array_read (clients_data m) (unat client_id), m) (\<lambda>cl m.
         case id_pool_allocate (files_id_pool cl) of
           (r, pool) \<Rightarrow>
             and_then (r, set_client client_id (cl\<lparr>files_id_pool := pool\<rparr>) m) (\<lambda>f_id m.
               and_then (get_file_data m client_id f_id, m) (\<lambda>i m.
                 (Ok f_id, set_file i \<lparr>file_size = fsize, file_ctx = None\<rparr> m)))))"

definition client_mngr_file_free ::
  "client_mngr cptr \<Rightarrow> u32 \<Rightarrow> u32 \<Rightarrow> unit res \<times> client_mngr cptr" where
  "client_mngr_file_free client_manager client_id file_id =
     on_mngr client_manager (\<lambda>m.
       if client_id \<ge> max_clients m then (Err EINVAL, m)
       else if file_id \<ge> max_files m then (Err EINVAL, m)
       else and_then (get_file_data m client_id file_id, m) (\<lambda>i m.
         let fd = file_area m ! i
         in if file_ctx fd \<noteq> None then (Err EPERM, m)
            else
              let m = set_file i (fd\<lparr>file_size := 0\<rparr>) m
              in and_then (array_read (clients_data m) (unat client_id), m) (\<lambda>cl m.
                   case id_pool_free (files_id_pool cl) file_id of
                     (r, pool) \<Rightarrow> (r, set_client client_id (cl\<lparr>files_id_pool := pool\<rparr>) m))))"

definition client_mngr_file_set_ctx ::
  "client_mngr cptr \<Rightarrow> u32 \<Rightarrow> u32 \<Rightarrow> ctx \<Rightarrow> unit res \<times> client_mngr cptr" where
  "client_mngr_file_set_ctx client_manager client_id file_id ctx =
     on_mngr client_manager (\<lambda>m.
       if client_id \<ge> max_clients m then (Err EINVAL, m)
       else if file_id \<ge> max_files m then (Err EINVAL, m)
       else and_then (get_file_data m client_id file_id, m) (\<lambda>i m.
         (Ok (), set_file i ((file_area m ! i)\<lparr>file_ctx := ctx\<rparr>) m)))"

definition client_mngr_file_get_ctx :: "client_mngr cptr \<Rightarrow> u32 \<Rightarrow> u32 \<Rightarrow> ctx res" where
  "client_mngr_file_get_ctx client_manager client_id file_id =
     (if client_manager = NULL then Err EINVAL
      else res_bind (load client_manager) (\<lambda>m.
        if client_id \<ge> max_clients m then Err EINVAL
        else if file_id \<ge> max_files m then Err EINVAL
        else res_bind (get_file_data m client_id file_id) (\<lambda>i.
          if file_ctx (file_area m ! i) = None then Err EINVAL
          else Ok (file_ctx (file_area m ! i)))))"

definition client_mngr_file_get_size :: "client_mngr cptr \<Rightarrow> u32 \<Rightarrow> u32 \<Rightarrow> u32 res" where
  "client_mngr_file_get_size client_manager client_id file_id =
     (if client_manager = NULL then Err EINVAL
      else res_bind (load client_manager) (\<lambda>m.
        if client_id \<ge> max_clients m then Err EINVAL
        else if file_id \<ge> max_files m then Err EINVAL
        else res_bind (get_file_data m client_id file_id) (\<lambda>i.
          Ok (file_size (file_area m ! i)))))"

section \<open>Invariant and abstract view\<close>

definition pool_for :: "u32 \<Rightarrow> id_pool cptr \<Rightarrow> bool" where
  "pool_for cap q \<longleftrightarrow> live_pool q \<and> pool_owned q = {i. i < cap} \<and> unat cap < 2 ^ 31"

definition mngr_inv :: "client_mngr \<Rightarrow> bool" where
  "mngr_inv m \<longleftrightarrow>
     pool_for (max_clients m) (clients_id_pool m) \<and>
     length (clients_data m) = unat (max_clients m) \<and>
     (\<forall>c<max_clients m.
        pool_for (max_files m) (files_id_pool (clients_data m ! unat c)) \<and>
        files_data (clients_data m ! unat c) = unat (c * max_files m) \<and>
        (client_in_use (clients_data m ! unat c) \<longleftrightarrow> c \<in> pool_used (clients_id_pool m)))"

text \<open>The registered clients, and the files of a client with size and context.\<close>

definition clients_of :: "client_mngr \<Rightarrow> u32 set" where
  "clients_of m = pool_used (clients_id_pool m)"

definition entry :: "client_mngr \<Rightarrow> u32 \<Rightarrow> u32 \<Rightarrow> nat" where
  "entry m c f = unat (c * max_files m) + unat f"

definition file_ids :: "client_mngr \<Rightarrow> u32 \<Rightarrow> u32 set" where
  "file_ids m c = pool_used (files_id_pool (clients_data m ! unat c))"

definition files_of :: "client_mngr \<Rightarrow> u32 \<Rightarrow> u32 \<rightharpoonup> u32 \<times> ctx" where
  "files_of m c = (\<lambda>f. if f \<in> file_ids m c
     then Some (file_size (file_area m ! entry m c f), file_ctx (file_area m ! entry m c f))
     else None)"

text \<open>The entries of client \<open>c\<close> lie inside the area.\<close>

definition area_fits :: "client_mngr \<Rightarrow> u32 \<Rightarrow> bool" where
  "area_fits m c \<longleftrightarrow> unat (c * max_files m) + unat (max_files m) \<le> length (file_area m)"

definition entries_apart :: "client_mngr \<Rightarrow> bool" where
  "entries_apart m \<longleftrightarrow> unat (max_clients m) * unat (max_files m) < 2 ^ 32"

lemma pool_forD:
  assumes "pool_for cap q"
  shows "live_pool q" "pool_owned q = {i. i < cap}" "pool_used q \<subseteq> {i. i < cap}"
  using assms ids.used_owned by (auto simp: pool_for_def)

lemma mngr_invD:
  assumes "mngr_inv m"
  shows "pool_for (max_clients m) (clients_id_pool m)"
    and "length (clients_data m) = unat (max_clients m)"
    and "c < max_clients m \<Longrightarrow> pool_for (max_files m) (files_id_pool (clients_data m ! unat c))"
    and "c < max_clients m \<Longrightarrow> files_data (clients_data m ! unat c) = unat (c * max_files m)"
    and "c < max_clients m \<Longrightarrow> client_in_use (clients_data m ! unat c) \<longleftrightarrow> c \<in> clients_of m"
  using assms by (simp_all add: mngr_inv_def clients_of_def)

lemma client_in_range:
  assumes "mngr_inv m" "c < max_clients m"
  shows "unat c < length (clients_data m)"
  using assms by (simp add: mngr_inv_def word_less_nat_alt)

lemma read_client:
  assumes "mngr_inv m" "c < max_clients m"
  shows "array_read (clients_data m) (unat c) = Ok (clients_data m ! unat c)"
  using client_in_range [OF assms] by simp

lemma get_entry:
  assumes "mngr_inv m" "c < max_clients m"
  shows "get_file_data m c f = (if entry m c f < length (file_area m) then Ok (entry m c f) else UB)"
  using assms by (simp add: get_file_data_def read_client mngr_invD entry_def)

lemma entry_fits: "area_fits m c \<Longrightarrow> f < max_files m \<Longrightarrow> entry m c f < length (file_area m)"
  by (simp add: area_fits_def entry_def word_less_nat_alt)

lemma files_of_None: "files_of m c f = None \<longleftrightarrow> f \<notin> file_ids m c"
  by (simp add: files_of_def)

lemma dom_files_of: "dom (files_of m c) = file_ids m c"
  by (auto simp: files_of_def dom_def)

lemma file_ids_bounded: "mngr_inv m \<Longrightarrow> c < max_clients m \<Longrightarrow> file_ids m c \<subseteq> {f. f < max_files m}"
  using pool_forD(3) mngr_invD(3) unfolding file_ids_def by blast

lemma set_client_simps [simp]:
  "max_clients (set_client c cl m) = max_clients m" "max_files (set_client c cl m) = max_files m"
  "clients_id_pool (set_client c cl m) = clients_id_pool m"
  "file_area (set_client c cl m) = file_area m"
  "clients_data (set_client c cl m) = (clients_data m)[unat c := cl]"
  by (simp_all add: set_client_def)

lemma set_file_simps [simp]:
  "max_clients (set_file i fd m) = max_clients m" "max_files (set_file i fd m) = max_files m"
  "clients_id_pool (set_file i fd m) = clients_id_pool m"
  "clients_data (set_file i fd m) = clients_data m"
  "file_area (set_file i fd m) = (file_area m)[i := fd]"
  by (simp_all add: set_file_def)

lemma set_client_id: "set_client c (clients_data m ! unat c) m = m"
  by (simp add: set_client_def)

text \<open>Entries of two clients do not meet.\<close>

lemma entry_inj:
  assumes "entries_apart m" "c < max_clients m" "d < max_clients m"
    and "f < max_files m" "g < max_files m" "entry m c f = entry m d g"
  shows "c = d \<and> f = g"
proof -
  let ?M = "unat (max_files m)"
  have prod: "unat (x * max_files m) = unat x * ?M" if "x < max_clients m" for x
  proof -
    have "unat x * ?M \<le> unat (max_clients m) * ?M"
      using that by (intro mult_le_mono1) (simp add: word_less_nat_alt)
    from this assms(1) [unfolded entries_apart_def] have "unat x * ?M < 2 ^ 32"
      by (rule le_less_trans)
    then show ?thesis by (subst unat_mult_lem [THEN iffD1]) simp_all
  qed
  have fg: "unat f < ?M" "unat g < ?M" using assms(4,5) by (simp_all add: word_less_nat_alt)
  have e: "unat c * ?M + unat f = unat d * ?M + unat g"
    using assms(6) prod assms(2,3) by (simp add: entry_def)
  have "unat c = (unat c * ?M + unat f) div ?M" "unat d = (unat d * ?M + unat g) div ?M"
    using fg by simp_all
  with e have "unat c = unat d" by simp
  with e have "unat f = unat g" by simp
  with \<open>unat c = unat d\<close> show ?thesis by (simp add: unat_eq_iff)
qed

text \<open>Replacing the pool of a client and one entry of its area.\<close>

lemma mngr_inv_set_client:
  assumes inv: "mngr_inv m" and c: "c < max_clients m"
    and cl: "pool_for (max_files m) (files_id_pool cl)"
      "files_data cl = files_data (clients_data m ! unat c)"
      "client_in_use cl = client_in_use (clients_data m ! unat c)"
  shows "mngr_inv (set_client c cl m)"
  using assms client_in_range [OF inv c] unfolding mngr_inv_def
  by (auto simp: nth_list_update unat_eq_iff)

lemma mngr_inv_set_file: "mngr_inv m \<Longrightarrow> mngr_inv (set_file i fd m)"
  by (simp add: mngr_inv_def)

lemma clients_of_set [simp]:
  "clients_of (set_client c cl m) = clients_of m" "clients_of (set_file i fd m) = clients_of m"
  by (simp_all add: clients_of_def)

lemma entry_set [simp]:
  "entry (set_client c cl m) = entry m" "entry (set_file i fd m) = entry m"
  by (simp_all add: fun_eq_iff entry_def)

lemma file_ids_set_file [simp]: "file_ids (set_file i fd m) = file_ids m"
  by (simp add: fun_eq_iff file_ids_def)

lemma file_ids_set_client:
  "mngr_inv m \<Longrightarrow> c < max_clients m \<Longrightarrow>
     file_ids (set_client c cl m) d = (if d = c then pool_used (files_id_pool cl) else file_ids m d)"
  using client_in_range [of m c] by (auto simp: file_ids_def nth_list_update unat_eq_iff)

lemma files_of_set_file:
  assumes "mngr_inv m" "entries_apart m" "c < max_clients m" "d < max_clients m"
    and "f < max_files m" "entry m c f < length (file_area m)"
  shows "files_of (set_file (entry m c f) fd m) d =
           (if d = c \<and> f \<in> file_ids m c then (files_of m c)(f \<mapsto> (file_size fd, file_ctx fd))
            else files_of m d)"
proof
  fix g
  have e: "entry m d g = entry m c f \<longleftrightarrow> d = c \<and> g = f" if "g \<in> file_ids m d"
    using that file_ids_bounded [OF assms(1,4)] entry_inj [OF assms(2,4,3)] assms(5) by blast
  show "files_of (set_file (entry m c f) fd m) d g =
           (if d = c \<and> f \<in> file_ids m c then (files_of m c)(f \<mapsto> (file_size fd, file_ctx fd))
            else files_of m d) g"
  proof (cases "g \<in> file_ids m d")
    case True
    with e [OF True] assms(6) show ?thesis
      by (cases "d = c"; cases "g = f") (simp_all add: files_of_def)
  next
    case False
    then show ?thesis by (cases "d = c"; cases "g = f") (simp_all add: files_of_def)
  qed
qed

section \<open>The operations on the abstract view\<close>

lemma file_allocate_Ok:
  assumes inv: "mngr_inv m" and apart: "entries_apart m" and c: "c < max_clients m"
    and fits: "area_fits m c" and room: "file_ids m c \<noteq> {f. f < max_files m}"
  shows "\<exists>f m'. client_mngr_file_allocate (Ptr m) c sz = (Ok f, Ptr m') \<and> mngr_inv m' \<and>
           f < max_files m \<and> f \<notin> file_ids m c \<and> clients_of m' = clients_of m \<and>
           (\<forall>d<max_clients m. files_of m' d =
              (if d = c then (files_of m c)(f \<mapsto> (sz, None)) else files_of m d))"
proof -
  let ?cl = "clients_data m ! unat c"
  note pf = mngr_invD(3) [OF inv c]
  from pool_forD(1) [OF pf] show ?thesis
  proof (cases rule: ids.alloc_cases)
    case (Full e)
    with room pool_forD(2) [OF pf] show ?thesis by (simp add: file_ids_def)
  next
    case (Ok f q)
    let ?cl' = "?cl\<lparr>files_id_pool := q\<rparr>"
    let ?m1 = "set_client c ?cl' m"
    let ?fd = "\<lparr>file_size = sz, file_ctx = None\<rparr>"
    have pf': "pool_for (max_files m) q" using pf Ok by (simp add: pool_for_def)
    have inv1: "mngr_inv ?m1" using pf' by (intro mngr_inv_set_client [OF inv c]) simp_all
    have f: "f < max_files m" using Ok(3) pool_forD(2) [OF pf] by simp
    have e: "entry m c f < length (file_area m)" using entry_fits [OF fits f] .
    have g: "get_file_data ?m1 c f = Ok (entry m c f)"
      using get_entry [OF inv1, of c f] c e by simp
    have run: "client_mngr_file_allocate (Ptr m) c sz = (Ok f, Ptr (set_file (entry m c f) ?fd ?m1))"
      using c Ok(1) g by (simp add: client_mngr_file_allocate_def on_mngr_def read_client [OF inv c] not_le)
    have ids: "file_ids ?m1 d = (if d = c then insert f (file_ids m c) else file_ids m d)" for d
      using file_ids_set_client [OF inv c] Ok(5) by (simp add: file_ids_def)
    have other: "files_of ?m1 d = files_of m d" if "d \<noteq> c" for d
      using that by (simp add: fun_eq_iff files_of_def ids)
    have same: "(files_of ?m1 c)(f \<mapsto> x) = (files_of m c)(f \<mapsto> x)" for x
      by (auto simp: fun_eq_iff files_of_def ids)
    have "files_of (set_file (entry m c f) ?fd ?m1) d =
            (if d = c then (files_of m c)(f \<mapsto> (sz, None)) else files_of m d)"
      if d: "d < max_clients m" for d
    proof -
      have "files_of (set_file (entry ?m1 c f) ?fd ?m1) d =
            (if d = c \<and> f \<in> file_ids ?m1 c then (files_of ?m1 c)(f \<mapsto> (file_size ?fd, file_ctx ?fd))
             else files_of ?m1 d)"
        using inv1 apart c d f e by (intro files_of_set_file) (simp_all add: entries_apart_def)
      then show ?thesis using ids [of c] other same by simp
    qed
    moreover have "f \<notin> file_ids m c" using Ok(4) by (simp add: file_ids_def)
    ultimately show ?thesis
      using run mngr_inv_set_file [OF inv1] f by auto
  qed
qed

lemma file_allocate_full:
  assumes "mngr_inv m" "c < max_clients m" "file_ids m c = {f. f < max_files m}"
  shows "client_mngr_file_allocate (Ptr m) c sz = (Err ENOENT, Ptr m)"
proof -
  note pf = mngr_invD(3) [OF assms(1,2)]
  let ?q = "files_id_pool (clients_data m ! unat c)"
  have "id_pool_allocate ?q = (Err ENOENT, ?q)"
    using assms(3) pool_forD(2) [OF pf]
    by (intro pool_full [OF pool_forD(1) [OF pf]]) (simp add: file_ids_def)
  with assms(2) show ?thesis
    by (simp add: client_mngr_file_allocate_def on_mngr_def read_client [OF assms(1,2)] not_le
        set_client_id)
qed

lemma file_free_Ok:
  assumes inv: "mngr_inv m" and apart: "entries_apart m" and c: "c < max_clients m"
    and fits: "area_fits m c" and f: "f \<in> file_ids m c"
    and noctx: "file_ctx (file_area m ! entry m c f) = None"
  shows "\<exists>m'. client_mngr_file_free (Ptr m) c f = (Ok (), Ptr m') \<and> mngr_inv m' \<and>
           clients_of m' = clients_of m \<and>
           (\<forall>d<max_clients m. files_of m' d =
              (if d = c then (files_of m c)(f := None) else files_of m d))"
proof -
  let ?cl = "clients_data m ! unat c" and ?e = "entry m c f"
  let ?fd = "(file_area m ! ?e)\<lparr>file_size := 0\<rparr>"
  let ?m1 = "set_file ?e ?fd m"
  note pf = mngr_invD(3) [OF inv c]
  have fb: "f < max_files m" using file_ids_bounded [OF inv c] f by blast
  have e: "?e < length (file_area m)" using entry_fits [OF fits fb] .
  have inv1: "mngr_inv ?m1" using mngr_inv_set_file [OF inv] .
  have "f \<in> pool_used (files_id_pool ?cl)" using f by (simp add: file_ids_def)
  then obtain q where q: "id_pool_free (files_id_pool ?cl) f = (Ok (), q)" "live_pool q"
    "pool_used q = pool_used (files_id_pool ?cl) - {f}" "pool_owned q = pool_owned (files_id_pool ?cl)"
    using ids.release_Ok [OF pool_forD(1) [OF pf]] by blast
  let ?m2 = "set_client c (?cl\<lparr>files_id_pool := q\<rparr>) ?m1"
  have "pool_for (max_files m) q" using pf q by (simp add: pool_for_def)
  then have inv2: "mngr_inv ?m2" using c by (intro mngr_inv_set_client [OF inv1]) simp_all
  have run: "client_mngr_file_free (Ptr m) c f = (Ok (), Ptr ?m2)"
    using c fb e noctx q(1)
    by (simp add: client_mngr_file_free_def on_mngr_def get_entry [OF inv c] not_le Let_def
        read_client [OF inv c])
  have ids: "file_ids ?m2 d = (if d = c then file_ids m c - {f} else file_ids m d)" for d
    using file_ids_set_client [OF inv1, of c] c q(3) by (simp add: file_ids_def)
  have "files_of ?m2 d = (if d = c then (files_of m c)(f := None) else files_of m d)"
    if d: "d < max_clients m" for d
  proof
    fix g
    have "files_of ?m1 d g = files_of m d g" if "d \<noteq> c \<or> g \<noteq> f"
      using files_of_set_file [OF inv apart c d fb e, of ?fd] that by (auto split: if_splits)
    moreover have "files_of ?m2 d g = (if d = c \<and> g = f then None else files_of ?m1 d g)"
      by (auto simp: files_of_def ids)
    ultimately show "files_of ?m2 d g =
        (if d = c then (files_of m c)(f := None) else files_of m d) g" by auto
  qed
  with run inv2 show ?thesis by auto
qed

lemma client_allocate_Ok:
  assumes inv: "mngr_inv m" and room: "clients_of m \<noteq> {c. c < max_clients m}"
  shows "\<exists>c m'. client_mngr_allocate (Ptr m) = (Ok c, Ptr m') \<and> mngr_inv m' \<and>
           c < max_clients m \<and> c \<notin> clients_of m \<and> clients_of m' = insert c (clients_of m) \<and>
           files_of m' = files_of m"
proof -
  note pf = mngr_invD(1) [OF inv]
  from pool_forD(1) [OF pf] show ?thesis
  proof (cases rule: ids.alloc_cases)
    case (Full e)
    with room pool_forD(2) [OF pf] show ?thesis by (simp add: clients_of_def)
  next
    case (Ok c q)
    have c: "c < max_clients m" using Ok(3) pool_forD(2) [OF pf] by simp
    let ?cl = "(clients_data m ! unat c)\<lparr>client_in_use := True\<rparr>"
    let ?m = "set_client c ?cl (m\<lparr>clients_id_pool := q\<rparr>)"
    have pf': "pool_for (max_clients m) q" using pf Ok by (simp add: pool_for_def)
    have run: "client_mngr_allocate (Ptr m) = (Ok c, Ptr ?m)"
      using Ok(1) client_in_range [OF inv c] by (simp add: client_mngr_allocate_def on_mngr_def)
    have "mngr_inv ?m"
      using inv pf' Ok(4,5) client_in_range [OF inv c] unfolding mngr_inv_def
      by (auto simp: nth_list_update unat_eq_iff)
    moreover have "files_of ?m = files_of m"
      using client_in_range [OF inv c]
      by (auto simp: fun_eq_iff files_of_def file_ids_def entry_def nth_list_update)
    ultimately show ?thesis using run c Ok(4,5) by (auto simp: clients_of_def)
  qed
qed

text \<open>The count of a client's files as \<open>client_mngr_free\<close> reads it.\<close>

lemma used_count:
  assumes "pool_for cap q"
  shows "\<exists>n. id_pool_get_used_id_count q = Ok n \<and> (n = 0 \<longleftrightarrow> pool_used q = {})"
proof -
  obtain p where p: "q = Ptr p" "id_pool_inv p" "no_wrap p"
    using pool_forD(1) [OF assms] by (rule live_pool_cases)
  have fin: "finite (used_ids p)" using finite_subset [OF used_subset_all finite_all_ids] .
  have "card (used_ids p) \<le> card (all_ids p)" by (rule card_mono [OF finite_all_ids used_subset_all])
  also have "all_ids p = {i. i < cap}" using pool_forD(2) [OF assms] p(1) by simp
  also have "card {i. i < cap} = unat cap"
  proof -
    have "{i. i < cap} = of_nat ` {..<unat cap}"
    proof (rule set_eqI)
      fix i
      show "i \<in> {i. i < cap} \<longleftrightarrow> i \<in> of_nat ` {..<unat cap}"
      proof
        assume "i \<in> {i. i < cap}"
        then show "i \<in> of_nat ` {..<unat cap}"
          by (intro image_eqI [where x = "unat i"]) (simp_all add: word_less_nat_alt)
      next
        assume "i \<in> of_nat ` {..<unat cap}"
        then obtain k where k: "k < unat cap" "i = of_nat k" by blast
        then have "unat i = k" using unat_less_32 [of cap] by (simp add: unat_of_nat_lt)
        with k show "i \<in> {i. i < cap}" by (simp add: word_less_nat_alt)
      qed
    qed
    moreover have "inj_on (of_nat :: nat \<Rightarrow> u32) {..<unat cap}"
    proof (rule inj_onI)
      fix x y assume xy: "x \<in> {..<unat cap}" "y \<in> {..<unat cap}" "of_nat x = (of_nat y :: u32)"
      then have "x < 2 ^ 32" "y < 2 ^ 32" using unat_less_32 [of cap] by auto
      then have "unat (of_nat x :: u32) = x" "unat (of_nat y :: u32) = y"
        by (simp_all add: unat_of_nat_lt)
      with xy(3) show "x = y" by metis
    qed
    ultimately show ?thesis by (simp add: card_image)
  qed
  finally have b: "card (used_ids p) < 2 ^ 31" using assms by (simp add: pool_for_def)
  then have "id_pool_get_used_id_count q = Ok (of_nat (card (used_ids p)))"
    using used_id_count [OF p(2)] p(1) by simp
  moreover have "of_nat (card (used_ids p)) = (0 :: u32) \<longleftrightarrow> used_ids p = {}"
  proof -
    have "unat (of_nat (card (used_ids p)) :: u32) = card (used_ids p)"
      using b by (intro unat_of_nat_lt) simp
    then have "of_nat (card (used_ids p)) = (0 :: u32) \<longleftrightarrow> card (used_ids p) = 0"
      by (simp only: unat_eq_0 [symmetric])
    then show ?thesis using fin by simp
  qed
  ultimately show ?thesis using p(1) by auto
qed

lemma client_free_cases:
  assumes inv: "mngr_inv m"
  obtains (Range) "\<not> c < max_clients m" "client_mngr_free (Ptr m) c = (Err EINVAL, Ptr m)"
  | (Busy) "c < max_clients m" "file_ids m c \<noteq> {}" "client_mngr_free (Ptr m) c = (Err EACCES, Ptr m)"
  | (Unknown) "c < max_clients m" "file_ids m c = {}" "c \<notin> clients_of m"
      "client_mngr_free (Ptr m) c = (Err EALREADY, Ptr m)"
  | (Freed) m' where "c < max_clients m" "file_ids m c = {}" "c \<in> clients_of m"
      "client_mngr_free (Ptr m) c = (Ok (), Ptr m')" "mngr_inv m'"
      "clients_of m' = clients_of m - {c}" "files_of m' = files_of m"
proof (cases "c < max_clients m")
  case False
  then show ?thesis by (intro Range) (simp_all add: client_mngr_free_def on_mngr_def not_less)
next
  case c: True
  let ?cl = "clients_data m ! unat c"
  obtain n where n: "id_pool_get_used_id_count (files_id_pool ?cl) = Ok n" "n = 0 \<longleftrightarrow> file_ids m c = {}"
    using used_count [OF mngr_invD(3) [OF inv c]] unfolding file_ids_def by blast
  note pf = mngr_invD(1) [OF inv]
  show ?thesis
  proof (cases "file_ids m c = {}")
    case False
    with c n show ?thesis
      by (intro Busy) (simp_all add: client_mngr_free_def on_mngr_def not_le read_client [OF inv c])
  next
    case none: True
    let ?m1 = "set_client c (?cl\<lparr>client_in_use := False\<rparr>) m"
    have run: "client_mngr_free (Ptr m) c =
        (case id_pool_free (clients_id_pool m) c of (r, ids) \<Rightarrow> (r, Ptr (?m1\<lparr>clients_id_pool := ids\<rparr>)))"
    proof -
      have "\<not> max_clients m \<le> c" using c by simp
      with n none show ?thesis
        by (simp add: client_mngr_free_def on_mngr_def read_client [OF inv c] Let_def
            split: prod.splits)
    qed
    show ?thesis
    proof (cases "c \<in> clients_of m")
      case False
      then have "id_pool_free (clients_id_pool m) c = (Err EALREADY, clients_id_pool m)"
        using pool_release_unused [OF pool_forD(1) [OF pf]] pool_forD(2) [OF pf] c
        by (simp add: clients_of_def)
      moreover have "?cl\<lparr>client_in_use := False\<rparr> = ?cl"
        using mngr_invD(5) [OF inv c] False by (cases ?cl) simp
      ultimately have "client_mngr_free (Ptr m) c = (Err EALREADY, Ptr m)"
        unfolding run by (simp add: set_client_def)
      with c none False show ?thesis by (intro Unknown)
    next
      case True
      then obtain q where q: "id_pool_free (clients_id_pool m) c = (Ok (), q)" "live_pool q"
        "pool_used q = pool_used (clients_id_pool m) - {c}" "pool_owned q = pool_owned (clients_id_pool m)"
        using ids.release_Ok [OF pool_forD(1) [OF pf]] unfolding clients_of_def by blast
      let ?m2 = "?m1\<lparr>clients_id_pool := q\<rparr>"
      have pf': "pool_for (max_clients m) q" using pf q by (simp add: pool_for_def)
      have "mngr_inv ?m2"
        using inv pf' q(3) client_in_range [OF inv c] unfolding mngr_inv_def
        by (auto simp: nth_list_update unat_eq_iff)
      moreover have "files_of ?m2 = files_of m"
        using client_in_range [OF inv c]
        by (auto simp: fun_eq_iff files_of_def file_ids_def entry_def nth_list_update)
      moreover have "client_mngr_free (Ptr m) c = (Ok (), Ptr ?m2)" unfolding run q(1) by simp
      moreover have "clients_of ?m2 = clients_of m - {c}" using q(3) by (simp add: clients_of_def)
      ultimately show ?thesis using c none True by (intro Freed)
    qed
  qed
qed

section \<open>A fresh manager\<close>

lemma create_clients_Ok:
  assumes q: "id_pool_create True OutAddr (Ptr \<lparr>cfg_capacity = mf, cfg_id_start_offset = 0\<rparr>) = Ok q"
  shows "i + left \<le> length cls \<Longrightarrow>
     \<exists>cls'. create_clients (\<lambda>_. True) mf left i cls = Ok cls' \<and> length cls' = length cls \<and>
       (\<forall>j<i. cls' ! j = cls ! j) \<and>
       (\<forall>j. i \<le> j \<and> j < i + left \<longrightarrow>
          cls' ! j = \<lparr>files_id_pool = q, files_data = unat (of_nat j * mf), client_in_use = False\<rparr>)"
proof (induction left arbitrary: i cls)
  case 0
  then show ?case by auto
next
  case (Suc left)
  let ?c = "\<lparr>files_id_pool = q, files_data = unat (of_nat i * mf), client_in_use = False\<rparr>"
  from Suc.IH [of "Suc i" "cls[i := ?c]"] Suc.prems obtain cls' where
    c: "create_clients (\<lambda>_. True) mf left (Suc i) (cls[i := ?c]) = Ok cls'" "length cls' = length cls"
      "\<forall>j<Suc i. cls' ! j = cls[i := ?c] ! j"
      "\<forall>j. Suc i \<le> j \<and> j < Suc i + left \<longrightarrow>
          cls' ! j = \<lparr>files_id_pool = q, files_data = unat (of_nat j * mf), client_in_use = False\<rparr>"
    by auto
  have "cls' ! i = ?c" using c(3) Suc.prems by simp
  then have "cls' ! j = \<lparr>files_id_pool = q, files_data = unat (of_nat j * mf), client_in_use = False\<rparr>"
    if "i \<le> j" "j < i + Suc left" for j
    using c(4) that by (cases "j = i") auto
  moreover have "cls' ! j = cls ! j" if "j < i" for j using c(3) that by simp
  ultimately show ?case using c(1,2) q by (intro exI [of _ cls']) simp
qed

lemma create_pool_for:
  assumes "cap \<noteq> 0" "unat cap \<le> 858993454"
  obtains q where "id_pool_create True OutAddr (Ptr \<lparr>cfg_capacity = cap, cfg_id_start_offset = 0\<rparr>) = Ok q"
    "pool_for cap q" "pool_used q = {}"
proof -
  obtain p where p: "id_pool_create True OutAddr (Ptr \<lparr>cfg_capacity = cap, cfg_id_start_offset = 0\<rparr>) =
      Ok (Ptr p)" "id_pool_inv p" "pool_capacity p = cap" "id_start_offset p = 0" "used_ids p = {}"
    using id_pool_create_Ok [of "\<lparr>cfg_capacity = cap, cfg_id_start_offset = 0\<rparr>"] assms by auto
  have "no_wrap p" using p(3,4) unat_less_32 [of cap] by (simp add: no_wrap_def)
  moreover have "all_ids p = {i. i < cap}"
    by (auto simp: mem_all_ids id_index_def p(3,4) word_less_nat_alt)
  ultimately have "pool_for cap (Ptr p)" using p(2) assms(2) by (simp add: pool_for_def)
  with p(1,5) that show ?thesis by simp
qed

text \<open>Configurations whose sizes do not wrap around.\<close>

definition sane_cfg :: "client_mngr_cfg \<Rightarrow> bool" where
  "sane_cfg c \<longleftrightarrow> clients_capacity c \<noteq> 0 \<and> files_capacity c \<noteq> 0 \<and>
     16 + 24 * unat (clients_capacity c) + 16 * unat (files_capacity c) < 2 ^ 32"

lemma create_fresh:
  assumes "sane_cfg c"
  obtains m where "client_mngr_create True True (\<lambda>_. True) (Ptr c) OutAddr = Ok (Ptr m)"
    "mngr_inv m" "max_clients m = clients_capacity c" "max_files m = files_capacity c"
    "clients_of m = {}" "\<And>d. d < max_clients m \<Longrightarrow> file_ids m d = {}"
    "length (file_area m) = unat (files_capacity c)"
proof -
  let ?cc = "clients_capacity c" and ?fc = "files_capacity c"
  have b: "?cc \<noteq> 0" "?fc \<noteq> 0" "16 + 24 * unat ?cc + 16 * unat ?fc < 2 ^ 32"
    using assms by (simp_all add: sane_cfg_def)
  have u1: "unat (?cc * 24) = unat ?cc * 24" using b(3) by (subst unat_mult_lem [THEN iffD1]) simp_all
  have u2: "unat (?fc * 16) = unat ?fc * 16" using b(3) by (subst unat_mult_lem [THEN iffD1]) simp_all
  have u3: "unat (16 + ?cc * 24) = 16 + unat ?cc * 24"
    using b(3) u1 by (subst unat_add_lem [THEN iffD1]) simp_all
  have u4: "unat (16 + ?cc * 24 + ?fc * 16) = 16 + unat ?cc * 24 + unat ?fc * 16"
    using b(3) u2 u3 by (subst unat_add_lem [THEN iffD1]) simp_all
  obtain ids where ids: "id_pool_create True OutAddr
      (Ptr \<lparr>cfg_capacity = ?cc, cfg_id_start_offset = 0\<rparr>) = Ok ids" "pool_for ?cc ids" "pool_used ids = {}"
    by (rule create_pool_for [OF b(1)]) (use b(3) in simp)
  obtain q where q: "id_pool_create True OutAddr
      (Ptr \<lparr>cfg_capacity = ?fc, cfg_id_start_offset = 0\<rparr>) = Ok q" "pool_for ?fc q" "pool_used q = {}"
    by (rule create_pool_for [OF b(2)]) (use b(3) in simp)
  obtain cls where cls: "create_clients (\<lambda>_. True) ?fc (unat ?cc) 0 (replicate (unat ?cc) zero_client) = Ok cls"
    "length cls = unat ?cc"
    "\<And>j. j < unat ?cc \<Longrightarrow>
       cls ! j = \<lparr>files_id_pool = q, files_data = unat (of_nat j * ?fc), client_in_use = False\<rparr>"
    using create_clients_Ok [OF q(1), of 0 "unat ?cc" "replicate (unat ?cc) zero_client"] by auto
  let ?m = "\<lparr>max_clients = ?cc, max_files = ?fc, clients_id_pool = ids, clients_data = cls,
             file_area = replicate (unat ?fc) zero_file\<rparr>"
  have run: "client_mngr_create True True (\<lambda>_. True) (Ptr c) OutAddr = Ok (Ptr ?m)"
    using ids(1) cls(1) u1 u4
    by (simp add: client_mngr_create_def Let_def sizeof_client_mngr_def sizeof_client_data_def
        sizeof_file_data_def)
  have each: "cls ! unat d = \<lparr>files_id_pool = q, files_data = unat (d * ?fc), client_in_use = False\<rparr>"
    if "d < ?cc" for d
    using cls(3) [of "unat d"] that by (simp add: word_less_nat_alt)
  have "mngr_inv ?m"
    unfolding mngr_inv_def using ids(2,3) q(2) cls(2) each by simp
  with run that ids(3) q(3) each show ?thesis by (simp add: clients_of_def file_ids_def)
qed

definition sample_mngr_cfg :: client_mngr_cfg where
  "sample_mngr_cfg = \<lparr>clients_capacity = 2, files_capacity = 3\<rparr>"

definition sample_mngr :: client_mngr where
  "sample_mngr =
     (case client_mngr_create True True (\<lambda>_. True) (Ptr sample_mngr_cfg) OutAddr of
        Ok (Ptr m) \<Rightarrow> m
      | _ \<Rightarrow> \<lparr>max_clients = 0, max_files = 0, clients_id_pool = NULL, clients_data = [], file_area = []\<rparr>)"

lemma sample_sane: "sane_cfg sample_mngr_cfg"
  by (simp add: sane_cfg_def sample_mngr_cfg_def)

lemma sample_mngr_facts:
  "mngr_inv sample_mngr" "max_clients sample_mngr = 2" "max_files sample_mngr = 3"
  "clients_of sample_mngr = {}" "file_ids sample_mngr 0 = {}" "length (file_area sample_mngr) = 3"
proof -
  obtain m where m: "client_mngr_create True True (\<lambda>_. True) (Ptr sample_mngr_cfg) OutAddr = Ok (Ptr m)"
    "mngr_inv m" "max_clients m = 2" "max_files m = 3"
    "clients_of m = {}" "\<And>d. d < max_clients m \<Longrightarrow> file_ids m d = {}"
    "length (file_area m) = 3"
    using create_fresh [OF sample_sane] by (auto simp: sample_mngr_cfg_def)
  then have "sample_mngr = m" by (simp add: sample_mngr_def)
  with m show "mngr_inv sample_mngr" "max_clients sample_mngr = 2" "max_files sample_mngr = 3"
    "clients_of sample_mngr = {}" "file_ids sample_mngr 0 = {}" "length (file_area sample_mngr) = 3"
    by auto
qed

lemma sample_mngr_area: "area_fits sample_mngr 0" "entries_apart sample_mngr"
  by (simp_all add: area_fits_def entries_apart_def sample_mngr_facts)

section \<open>Properties\<close>

text \<open>
  C36 (invariant). A manager created from capacities whose sizes fit in 32 bits satisfies the
  invariant, has no clients and no files, and its area of file entries holds exactly
  \<open>files_capacity\<close> of them: as many as one client may use, not as many as all clients may use.
\<close>

theorem client_mngr_create_fresh:
  assumes "sane_cfg c"
  shows "\<exists>m. client_mngr_create True True (\<lambda>_. True) (Ptr c) OutAddr = Ok (Ptr m) \<and> mngr_inv m \<and>
           clients_of m = {} \<and> (\<forall>d<clients_capacity c. files_of m d = Map.empty) \<and>
           length (file_area m) = unat (files_capacity c)"
proof -
  obtain m where m: "client_mngr_create True True (\<lambda>_. True) (Ptr c) OutAddr = Ok (Ptr m)"
    "mngr_inv m" "max_clients m = clients_capacity c" "clients_of m = {}"
    "\<And>d. d < max_clients m \<Longrightarrow> file_ids m d = {}" "length (file_area m) = unat (files_capacity c)"
    using create_fresh [OF assms] by metis
  then show ?thesis by (auto simp: fun_eq_iff files_of_def)
qed

theorem client_mngr_create_fresh_witness:
  "\<exists>m. client_mngr_create True True (\<lambda>_. True) (Ptr sample_mngr_cfg) OutAddr = Ok (Ptr m) \<and> mngr_inv m \<and>
           clients_of m = {} \<and> length (file_area m) = 3"
  using client_mngr_create_fresh [OF sample_sane] by (auto simp: sample_mngr_cfg_def)

text \<open>
  C26 (error). The consequence: on a manager just created from capacities whose sizes fit in 32 bits,
  each of the five file operations, for a client
  other than client 0 and a file identifier in range, reaches memory outside the allocated block,
  starting with the first file of client 1. The position of the client's entries,
  \<open>client_id * files_capacity\<close>, must not wrap around in 32 bits, as it only does with tens of
  thousands of clients and files.
\<close>

theorem client_mngr_area_overflow:
  assumes "sane_cfg cfg" "client_mngr_create True True (\<lambda>_. True) (Ptr cfg) OutAddr = Ok (Ptr m)"
    and "0 < c" "c < clients_capacity cfg" "f < files_capacity cfg"
    and "unat c * unat (files_capacity cfg) < 2 ^ 32"
  shows "fst (client_mngr_file_allocate (Ptr m) c sz) = UB \<and>
         fst (client_mngr_file_free (Ptr m) c f) = UB \<and>
         fst (client_mngr_file_set_ctx (Ptr m) c f x) = UB \<and>
         client_mngr_file_get_ctx (Ptr m) c f = UB \<and>
         client_mngr_file_get_size (Ptr m) c f = UB"
proof -
  obtain m' where "client_mngr_create True True (\<lambda>_. True) (Ptr cfg) OutAddr = Ok (Ptr m')"
    "mngr_inv m'" "max_clients m' = clients_capacity cfg" "max_files m' = files_capacity cfg"
    "\<And>d. d < max_clients m' \<Longrightarrow> file_ids m' d = {}" "length (file_area m') = unat (files_capacity cfg)"
    using create_fresh [OF assms(1)] by metis
  with assms(2) have m: "mngr_inv m" "max_clients m = clients_capacity cfg"
    "max_files m = files_capacity cfg" "\<And>d. d < max_clients m \<Longrightarrow> file_ids m d = {}"
    "length (file_area m) = unat (files_capacity cfg)" by simp_all
  have cm: "c < max_clients m" "f < max_files m" using assms(4,5) m(2,3) by simp_all
  have prod: "unat (c * max_files m) = unat c * unat (max_files m)"
    using assms(6) m(3) by (subst unat_mult_lem [THEN iffD1]) simp_all
  have "1 \<le> unat c" using assms(3) by (simp add: word_less_nat_alt)
  then have le: "1 * unat (max_files m) \<le> unat c * unat (max_files m)" by (rule mult_le_mono1)
  have len: "length (file_area m) = unat (max_files m)" using m(3,5) by simp
  have far: "length (file_area m) \<le> entry m c g" for g
    using le unfolding entry_def prod len by linarith
  then have out: "get_file_data m c g = UB" for g
    using get_entry [OF m(1) cm(1), of g] by (simp add: not_less)
  let ?cl = "clients_data m ! unat c"
  note pf = mngr_invD(3) [OF m(1) cm(1)]
  have "fst (client_mngr_file_allocate (Ptr m) c sz) = UB"
    using pool_forD(1) [OF pf]
  proof (cases rule: ids.alloc_cases)
    case (Full e)
    have "f \<in> pool_owned (files_id_pool ?cl)" using pool_forD(2) [OF pf] cm(2) by simp
    with Full m(4) [OF cm(1)] show ?thesis by (simp add: file_ids_def)
  next
    case (Ok g q)
    have "mngr_inv (set_client c (?cl\<lparr>files_id_pool := q\<rparr>) m)"
      using Ok pf cm(1) by (intro mngr_inv_set_client [OF m(1)]) (simp_all add: pool_for_def)
    from get_entry [OF this, of c g] cm(1) far [of g]
    have "get_file_data (set_client c (?cl\<lparr>files_id_pool := q\<rparr>) m) c g = UB"
      by (simp add: not_less)
    with Ok(1) cm(1) show ?thesis
      by (simp add: client_mngr_file_allocate_def on_mngr_def read_client [OF m(1) cm(1)] not_le)
  qed
  then show ?thesis
    using out cm
    by (simp add: client_mngr_file_free_def client_mngr_file_set_ctx_def
        client_mngr_file_get_ctx_def client_mngr_file_get_size_def on_mngr_def not_le)
qed

theorem client_mngr_area_overflow_witness:
  "\<exists>m. client_mngr_create True True (\<lambda>_. True) (Ptr sample_mngr_cfg) OutAddr = Ok (Ptr m) \<and>
       fst (client_mngr_file_allocate (Ptr m) 1 100) = UB \<and>
       client_mngr_file_get_ctx (Ptr m) 1 0 = UB"
proof -
  obtain m where m: "client_mngr_create True True (\<lambda>_. True) (Ptr sample_mngr_cfg) OutAddr = Ok (Ptr m)"
    using create_fresh [OF sample_sane] by metis
  have b: "(0 :: u32) < 1" "1 < clients_capacity sample_mngr_cfg" "0 < files_capacity sample_mngr_cfg"
    "unat (1 :: u32) * unat (files_capacity sample_mngr_cfg) < 2 ^ 32"
    by (simp_all add: sample_mngr_cfg_def)
  from client_mngr_area_overflow [OF sample_sane m b, of 100 None] m show ?thesis by blast
qed

text \<open>
  C21 (functional). Registering a client gives an identifier below the limit that is not
  registered, registers exactly it and touches no file; it fails, with \<open>-ENOENT\<close> and without a
  change, exactly when all identifiers are registered.
\<close>

theorem client_mngr_allocate_result:
  assumes "mngr_inv m"
  shows "if clients_of m = {c. c < max_clients m}
         then client_mngr_allocate (Ptr m) = (Err ENOENT, Ptr m)
         else \<exists>c m'. client_mngr_allocate (Ptr m) = (Ok c, Ptr m') \<and> mngr_inv m' \<and>
                c < max_clients m \<and> c \<notin> clients_of m \<and>
                clients_of m' = insert c (clients_of m) \<and> files_of m' = files_of m"
proof (cases "clients_of m = {c. c < max_clients m}")
  case True
  note pf = mngr_invD(1) [OF assms]
  have "id_pool_allocate (clients_id_pool m) = (Err ENOENT, clients_id_pool m)"
    using True pool_forD(2) [OF pf] by (intro pool_full [OF pool_forD(1) [OF pf]]) (simp add: clients_of_def)
  with True show ?thesis by (simp add: client_mngr_allocate_def on_mngr_def)
next
  case False
  with client_allocate_Ok [OF assms] show ?thesis by simp
qed

theorem client_mngr_allocate_result_witness:
  "\<exists>c m'. client_mngr_allocate (Ptr sample_mngr) = (Ok c, Ptr m') \<and> clients_of m' = {c} \<and> c < 2"
proof -
  have "(0 :: u32) \<in> {c. c < 2}" by simp
  then have r: "clients_of sample_mngr \<noteq> {c. c < max_clients sample_mngr}"
    unfolding sample_mngr_facts by blast
  show ?thesis
    using client_mngr_allocate_result [OF sample_mngr_facts(1), unfolded if_not_P [OF r]]
    unfolding sample_mngr_facts by blast
qed

text \<open>
  C20 (safety). A client can be removed exactly when it is registered and has no files; each
  refusal has its own status and leaves the manager as it was.
\<close>

theorem client_mngr_free_result:
  assumes "mngr_inv m"
  shows "if \<not> c < max_clients m then client_mngr_free (Ptr m) c = (Err EINVAL, Ptr m)
         else if files_of m c \<noteq> Map.empty then client_mngr_free (Ptr m) c = (Err EACCES, Ptr m)
         else if c \<notin> clients_of m then client_mngr_free (Ptr m) c = (Err EALREADY, Ptr m)
         else \<exists>m'. client_mngr_free (Ptr m) c = (Ok (), Ptr m') \<and> mngr_inv m' \<and>
                clients_of m' = clients_of m - {c} \<and> files_of m' = files_of m"
proof -
  have e: "files_of m c = Map.empty \<longleftrightarrow> file_ids m c = {}"
    by (metis dom_eq_empty_conv dom_files_of)
  from assms show ?thesis
    by (cases rule: client_free_cases [where c = c]) (simp_all add: e)
qed

theorem client_mngr_free_result_witness:
  "client_mngr_free (Ptr sample_mngr) 2 = (Err EINVAL, Ptr sample_mngr) \<and>
   client_mngr_free (Ptr sample_mngr) 0 = (Err EALREADY, Ptr sample_mngr)"
proof -
  have "files_of sample_mngr 0 = Map.empty" by (simp add: fun_eq_iff files_of_def sample_mngr_facts)
  with client_mngr_free_result [OF sample_mngr_facts(1), of 2]
    client_mngr_free_result [OF sample_mngr_facts(1), of 0]
  show ?thesis by (simp add: sample_mngr_facts)
qed

text \<open>
  C18 (functional). Adding a file to a client whose entries lie in the area (on a manager that was
  just created this is client 0 only), on a manager whose number of clients times number of files
  is below \<open>2 ^ 32\<close>, so that no two clients share entries by wrap-around: it gives a fresh file
  identifier of that client with the requested size and no context; no other file of any client
  changes. It fails, with \<open>-ENOENT\<close> and without a change, exactly when the client is full.
\<close>

theorem client_mngr_file_allocate_result:
  assumes "mngr_inv m" "entries_apart m" "c < max_clients m" "area_fits m c"
  shows "if dom (files_of m c) = {f. f < max_files m}
         then client_mngr_file_allocate (Ptr m) c sz = (Err ENOENT, Ptr m)
         else \<exists>f m'. client_mngr_file_allocate (Ptr m) c sz = (Ok f, Ptr m') \<and> mngr_inv m' \<and>
                files_of m c f = None \<and> f < max_files m \<and> clients_of m' = clients_of m \<and>
                (\<forall>d<max_clients m. files_of m' d =
                   (if d = c then (files_of m c)(f \<mapsto> (sz, None)) else files_of m d))"
proof (cases "dom (files_of m c) = {f. f < max_files m}")
  case True
  with file_allocate_full [OF assms(1,3)] show ?thesis by (simp add: dom_files_of)
next
  case False
  then have "file_ids m c \<noteq> {f. f < max_files m}" by (simp add: dom_files_of)
  from file_allocate_Ok [OF assms this, of sz] show ?thesis
    unfolding if_not_P [OF False] files_of_None by blast
qed

theorem client_mngr_file_allocate_result_witness:
  "\<exists>f m'. client_mngr_file_allocate (Ptr sample_mngr) 0 42 = (Ok f, Ptr m') \<and>
          files_of m' 0 = [f \<mapsto> (42, None)]"
proof -
  have c: "0 < max_clients sample_mngr" by (simp add: sample_mngr_facts)
  have e: "files_of sample_mngr 0 = Map.empty" by (simp add: fun_eq_iff files_of_def sample_mngr_facts)
  have "(0 :: u32) \<in> {f. f < max_files sample_mngr}" by (simp add: sample_mngr_facts)
  then have r: "dom (files_of sample_mngr 0) \<noteq> {f. f < max_files sample_mngr}" unfolding e by blast
  obtain f m' where "client_mngr_file_allocate (Ptr sample_mngr) 0 42 = (Ok f, Ptr m')"
    "\<forall>d<max_clients sample_mngr. files_of m' d =
       (if d = 0 then (files_of sample_mngr 0)(f \<mapsto> (42, None)) else files_of sample_mngr d)"
    using client_mngr_file_allocate_result [OF sample_mngr_facts(1) sample_mngr_area(2) c
        sample_mngr_area(1), of 42, unfolded if_not_P [OF r]] by blast
  with c e show ?thesis by auto
qed

text \<open>
  C19 (safety). Removing a file of an existing client whose entries lie in the area (on a manager
  that was just created this is client 0 only), on a manager whose number of clients times number
  of files is below \<open>2 ^ 32\<close>: an identifier out of range is refused with \<open>-EINVAL\<close>, one whose
  context is still set with \<open>-EPERM\<close>, one that is not a file of the client with \<open>-EALREADY\<close>;
  otherwise exactly this file disappears.
\<close>

theorem client_mngr_file_free_result:
  assumes "mngr_inv m" "entries_apart m" "c < max_clients m" "area_fits m c"
  shows "if \<not> f < max_files m then client_mngr_file_free (Ptr m) c f = (Err EINVAL, Ptr m)
         else if file_ctx (file_area m ! entry m c f) \<noteq> None
         then client_mngr_file_free (Ptr m) c f = (Err EPERM, Ptr m)
         else if f \<notin> dom (files_of m c)
         then \<exists>m'. client_mngr_file_free (Ptr m) c f = (Err EALREADY, Ptr m') \<and> mngr_inv m' \<and>
                clients_of m' = clients_of m \<and> (\<forall>d<max_clients m. files_of m' d = files_of m d)
         else \<exists>m'. client_mngr_file_free (Ptr m) c f = (Ok (), Ptr m') \<and> mngr_inv m' \<and>
                clients_of m' = clients_of m \<and>
                (\<forall>d<max_clients m. files_of m' d =
                   (if d = c then (files_of m c)(f := None) else files_of m d))"
proof -
  note inv = assms(1) and c = assms(3)
  let ?e = "entry m c f" and ?cl = "clients_data m ! unat c"
  have nc: "\<not> max_clients m \<le> c" using c by simp
  consider "\<not> f < max_files m" | "f < max_files m" "file_ctx (file_area m ! ?e) \<noteq> None"
    | "f < max_files m" "file_ctx (file_area m ! ?e) = None" "f \<notin> file_ids m c"
    | "f \<in> file_ids m c" "file_ctx (file_area m ! ?e) = None" "f < max_files m"
    by blast
  then show ?thesis
  proof cases
    case 1
    with nc show ?thesis by (simp add: client_mngr_file_free_def on_mngr_def not_less)
  next
    case 2
    with entry_fits [OF assms(4)] nc show ?thesis
      by (simp add: client_mngr_file_free_def on_mngr_def get_entry [OF inv c] not_le)
  next
    case 3
    let ?m1 = "set_file ?e ((file_area m ! ?e)\<lparr>file_size := 0\<rparr>) m"
    note pf = mngr_invD(3) [OF inv c]
    have "id_pool_free (files_id_pool ?cl) f = (Err EALREADY, files_id_pool ?cl)"
      using pool_release_unused [OF pool_forD(1) [OF pf], of f] pool_forD(2) [OF pf] 3
      by (simp add: file_ids_def)
    then have "client_mngr_file_free (Ptr m) c f = (Err EALREADY, Ptr ?m1)"
      using 3 entry_fits [OF assms(4), of f] nc
      by (simp add: client_mngr_file_free_def on_mngr_def get_entry [OF inv c] not_le Let_def
          read_client [OF inv c] set_client_def set_file_def)
    moreover have "files_of ?m1 d = files_of m d" if "d < max_clients m" for d
      using files_of_set_file [OF inv assms(2) c that, of f] 3 entry_fits [OF assms(4), of f] by auto
    ultimately show ?thesis using 3 mngr_inv_set_file [OF inv] by (simp add: dom_files_of)
  next
    case 4
    with file_free_Ok [OF assms(1-4), of f] show ?thesis by (simp add: dom_files_of)
  qed
qed

text \<open>Adding a file keeps the limits and the area.\<close>

lemma file_allocate_frame:
  assumes "client_mngr_file_allocate (Ptr m) c sz = (r, Ptr m')"
  shows "max_clients m' = max_clients m" "max_files m' = max_files m"
    "length (file_area m') = length (file_area m)"
  using assms
  by (auto simp: client_mngr_file_allocate_def on_mngr_def and_then_def
      split: if_splits prod.splits res.splits)

lemma frame_area:
  assumes "max_clients m' = max_clients m" "max_files m' = max_files m"
    "length (file_area m') = length (file_area m)"
  shows "area_fits m' c \<longleftrightarrow> area_fits m c" "entries_apart m' \<longleftrightarrow> entries_apart m"
  using assms by (simp_all add: area_fits_def entries_apart_def)

theorem client_mngr_file_free_result_witness:
  "\<exists>f m1 m2. client_mngr_file_allocate (Ptr sample_mngr) 0 42 = (Ok f, Ptr m1) \<and>
     files_of m1 0 = [f \<mapsto> (42, None)] \<and>
     client_mngr_file_free (Ptr m1) 0 f = (Ok (), Ptr m2) \<and> files_of m2 0 = Map.empty"
proof -
  have c: "0 < max_clients sample_mngr" by (simp add: sample_mngr_facts)
  have e: "files_of sample_mngr 0 = Map.empty" by (simp add: fun_eq_iff files_of_def sample_mngr_facts)
  have "(0 :: u32) \<in> {f. f < max_files sample_mngr}" by (simp add: sample_mngr_facts)
  then have r: "file_ids sample_mngr 0 \<noteq> {f. f < max_files sample_mngr}"
    unfolding sample_mngr_facts(5) by blast
  obtain f m1 where m1: "client_mngr_file_allocate (Ptr sample_mngr) 0 42 = (Ok f, Ptr m1)" "mngr_inv m1"
    "f < max_files sample_mngr" and files: "files_of m1 0 = [f \<mapsto> (42, None)]"
    using file_allocate_Ok [OF sample_mngr_facts(1) sample_mngr_area(2) c sample_mngr_area(1) r, of 42]
      c e by auto
  note fr = file_allocate_frame [OF m1(1)]
  note ar = frame_area [OF fr]
  have noctx: "file_ctx (file_area m1 ! entry m1 0 f) = None"
    using files by (auto simp: fun_eq_iff files_of_def split: if_splits)
  have c1: "0 < max_clients m1" "area_fits m1 0" "entries_apart m1"
    using c ar sample_mngr_area fr by simp_all
  from client_mngr_file_free_result [OF m1(2) c1(3,1,2), of f] noctx m1(3) fr files c1(1)
  have "\<exists>m2. client_mngr_file_free (Ptr m1) 0 f = (Ok (), Ptr m2) \<and> files_of m2 0 = Map.empty"
    by auto
  with m1(1) files show ?thesis by blast
qed

text \<open>The context operations and the size on a file in range.\<close>

lemma ctx_operations:
  assumes "mngr_inv m" "c < max_clients m" "area_fits m c" "f < max_files m"
  defines "e \<equiv> entry m c f"
  shows "client_mngr_file_set_ctx (Ptr m) c f y =
           (Ok (), Ptr (set_file e ((file_area m ! e)\<lparr>file_ctx := y\<rparr>) m))"
    and "client_mngr_file_get_ctx (Ptr m) c f =
           (if file_ctx (file_area m ! e) = None then Err EINVAL else Ok (file_ctx (file_area m ! e)))"
    and "client_mngr_file_get_size (Ptr m) c f = Ok (file_size (file_area m ! e))"
    and "file_ctx (file_area m ! e) \<noteq> None \<Longrightarrow> client_mngr_file_free (Ptr m) c f = (Err EPERM, Ptr m)"
proof -
  have n: "\<not> max_clients m \<le> c" "\<not> max_files m \<le> f" using assms(2,4) by simp_all
  have g: "get_file_data m c f = Ok e"
    using get_entry [OF assms(1,2), of f] entry_fits [OF assms(3,4)] by (simp add: e_def)
  show "client_mngr_file_set_ctx (Ptr m) c f y =
           (Ok (), Ptr (set_file e ((file_area m ! e)\<lparr>file_ctx := y\<rparr>) m))"
    "client_mngr_file_get_ctx (Ptr m) c f =
           (if file_ctx (file_area m ! e) = None then Err EINVAL else Ok (file_ctx (file_area m ! e)))"
    "client_mngr_file_get_size (Ptr m) c f = Ok (file_size (file_area m ! e))"
    "file_ctx (file_area m ! e) \<noteq> None \<Longrightarrow> client_mngr_file_free (Ptr m) c f = (Err EPERM, Ptr m)"
    using n g
    by (simp_all add: client_mngr_file_set_ctx_def client_mngr_file_get_ctx_def
        client_mngr_file_get_size_def client_mngr_file_free_def on_mngr_def)
qed

text \<open>
  C37 (roundtrip). The life of a file of a client whose entries lie in the area (on a manager that
  was just created this is client 0 only), on a manager whose number of clients times number of
  files is below \<open>2 ^ 32\<close>. A file that was just added has the size it was added with and no
  context. A context that is set is read back, leaves the size alone and blocks the removal of the
  file; once it is cleared the file can be removed, and the client has the files it had before.
\<close>

theorem client_mngr_ctx_roundtrip:
  assumes "mngr_inv m" "entries_apart m" "c < max_clients m" "area_fits m c"
    and "client_mngr_file_allocate (Ptr m) c sz = (Ok f, Ptr m1)"
  shows "client_mngr_file_get_size (Ptr m1) c f = Ok sz \<and>
         client_mngr_file_get_ctx (Ptr m1) c f = Err EINVAL \<and>
         (\<exists>m2. client_mngr_file_set_ctx (Ptr m1) c f (Some x) = (Ok (), Ptr m2) \<and>
            client_mngr_file_get_ctx (Ptr m2) c f = Ok (Some x) \<and>
            client_mngr_file_get_size (Ptr m2) c f = Ok sz \<and>
            client_mngr_file_free (Ptr m2) c f = (Err EPERM, Ptr m2) \<and>
            (\<exists>m3. client_mngr_file_set_ctx (Ptr m2) c f None = (Ok (), Ptr m3) \<and>
               client_mngr_file_get_size (Ptr m3) c f = Ok sz \<and>
               (\<exists>m4. client_mngr_file_free (Ptr m3) c f = (Ok (), Ptr m4) \<and>
                     files_of m4 c = files_of m c)))"
proof -
  have "file_ids m c \<noteq> {f. f < max_files m}"
  proof
    assume "file_ids m c = {f. f < max_files m}"
    then have "client_mngr_file_allocate (Ptr m) c sz = (Err ENOENT, Ptr m)"
      by (rule file_allocate_full [OF assms(1,3)])
    with assms(5) show False by simp
  qed
  from file_allocate_Ok [OF assms(1-4) this, of sz] assms(3,5)
  have m1: "mngr_inv m1" "f < max_files m" "f \<notin> file_ids m c"
    "files_of m1 c = (files_of m c)(f \<mapsto> (sz, None))" by auto
  note fr = file_allocate_frame [OF assms(5)]
  let ?e = "entry m1 c f"
  have own: "f \<in> file_ids m1 c" and fd: "file_area m1 ! ?e = \<lparr>file_size = sz, file_ctx = None\<rparr>"
    using fun_cong [OF m1(4), of f] by (auto simp: files_of_def split: if_splits)
  have c1: "c < max_clients m1" "area_fits m1 c" "f < max_files m1" "entries_apart m1"
    using assms(2-4) m1(2) fr frame_area [OF fr] by simp_all
  have e: "?e < length (file_area m1)" by (rule entry_fits [OF c1(2,3)])
  note op1 = ctx_operations [OF m1(1) c1(1-3)]
  define m2 where "m2 = set_file ?e \<lparr>file_size = sz, file_ctx = Some x\<rparr> m1"
  have m2: "mngr_inv m2" "c < max_clients m2" "area_fits m2 c" "f < max_files m2" "entries_apart m2"
    "entry m2 c f = ?e" "file_area m2 ! ?e = \<lparr>file_size = sz, file_ctx = Some x\<rparr>"
    using mngr_inv_set_file [OF m1(1)] c1 e fd by (simp_all add: m2_def area_fits_def entries_apart_def)
  note op2 = ctx_operations [OF m2(1-4), unfolded m2(6,7)]
  define m3 where "m3 = set_file ?e \<lparr>file_size = sz, file_ctx = None\<rparr> m2"
  have m3: "mngr_inv m3" "c < max_clients m3" "area_fits m3 c" "f < max_files m3" "entries_apart m3"
    "entry m3 c f = ?e" "file_area m3 ! ?e = \<lparr>file_size = sz, file_ctx = None\<rparr>" "f \<in> file_ids m3 c"
    using mngr_inv_set_file [OF m2(1)] m2 e own
    by (simp_all add: m3_def m2_def area_fits_def entries_apart_def)
  note op3 = ctx_operations [OF m3(1-4), unfolded m3(6,7)]
  obtain m4 where m4: "client_mngr_file_free (Ptr m3) c f = (Ok (), Ptr m4)"
    "files_of m4 c = (files_of m3 c)(f := None)"
    using file_free_Ok [OF m3(1,5,2,3,8)] m3(2,6,7) by auto
  have unchanged: "(file_area m1)[?e := \<lparr>file_size = sz, file_ctx = None\<rparr>] = file_area m1"
    by (metis fd list_update_id)
  have "m3 = m1\<lparr>file_area := (file_area m1)[?e := \<lparr>file_size = sz, file_ctx = None\<rparr>]\<rparr>"
    using fd e by (simp add: m3_def m2_def set_file_def)
  then have "m3 = m1" unfolding unchanged by simp
  then have "files_of m4 c = (files_of m c)(f := None)" using m4(2) m1(4) by simp
  also have "\<dots> = files_of m c" using m1(3) by (simp add: fun_eq_iff files_of_def)
  finally have restored: "files_of m4 c = files_of m c" .
  have "client_mngr_file_set_ctx (Ptr m1) c f (Some x) = (Ok (), Ptr m2)"
    using op1(1) [of "Some x"] fd by (simp add: m2_def)
  moreover have "client_mngr_file_set_ctx (Ptr m2) c f None = (Ok (), Ptr m3)"
    using op2(1) [of None] by (simp add: m3_def)
  moreover have "client_mngr_file_get_size (Ptr m1) c f = Ok sz"
    "client_mngr_file_get_ctx (Ptr m1) c f = Err EINVAL" using op1(2,3) fd by simp_all
  moreover have "client_mngr_file_get_ctx (Ptr m2) c f = Ok (Some x)"
    "client_mngr_file_get_size (Ptr m2) c f = Ok sz"
    "client_mngr_file_free (Ptr m2) c f = (Err EPERM, Ptr m2)" using op2(2-4) by simp_all
  moreover have "client_mngr_file_get_size (Ptr m3) c f = Ok sz" using op3(3) by simp
  ultimately show ?thesis using m4(1) restored by blast
qed

theorem client_mngr_ctx_roundtrip_witness:
  "\<exists>f m1 m2. client_mngr_file_allocate (Ptr sample_mngr) 0 42 = (Ok f, Ptr m1) \<and>
     client_mngr_file_set_ctx (Ptr m1) 0 f (Some 7) = (Ok (), Ptr m2) \<and>
     client_mngr_file_get_ctx (Ptr m2) 0 f = Ok (Some 7) \<and>
     client_mngr_file_get_size (Ptr m2) 0 f = Ok 42"
proof -
  have c: "0 < max_clients sample_mngr" by (simp add: sample_mngr_facts)
  have "(0 :: u32) \<in> {f. f < max_files sample_mngr}" by (simp add: sample_mngr_facts)
  then have r: "file_ids sample_mngr 0 \<noteq> {f. f < max_files sample_mngr}"
    unfolding sample_mngr_facts(5) by blast
  obtain f m1 where m1: "client_mngr_file_allocate (Ptr sample_mngr) 0 42 = (Ok f, Ptr m1)"
    using file_allocate_Ok [OF sample_mngr_facts(1) sample_mngr_area(2) c sample_mngr_area(1) r, of 42]
    by blast
  from client_mngr_ctx_roundtrip [OF sample_mngr_facts(1) sample_mngr_area(2) c sample_mngr_area(1) m1]
    m1 show ?thesis by blast
qed

end
