(* ===== verification/Buddy_Arith.thy ===== *)
theory Buddy_Arith
  imports C_Prelude
begin

unbundle bit_operations_syntax

text \<open>
  The arithmetic helpers of \<open>BUDDY_ALLOCATOR/src/buddy_allocator.c\<close> on 32-bit words: buddy
  offset, block size, number of levels, rounding up to a power of two, number of tree nodes and
  the slot formula. A shift by 32 or more and a division by zero are \<open>UB\<close>.
\<close>

section \<open>Definitions\<close>

definition get_buddy_offset :: "u32 \<Rightarrow> u32 \<Rightarrow> u32" where
  "get_buddy_offset block_offset block_size = block_offset XOR block_size"

definition shl32 :: "u32 \<Rightarrow> u32 \<Rightarrow> u32 res" where
  "shl32 x n = (if unat n < 32 then Ok (push_bit (unat n) x) else UB)"

definition get_block_size :: "u32 \<Rightarrow> u32 \<Rightarrow> u32 \<Rightarrow> u32 res" where
  "get_block_size block_level min_block_size num_of_levels =
     shl32 min_block_size (num_of_levels - 1 - block_level)"

lemma unat_drop_bit: "unat (drop_bit n x) = unat x div 2 ^ n" for x :: u32
  by (rule trans [OF unat_drop_bit_eq drop_bit_eq_div])

lemma drop_bit_1_less: "0 < x \<Longrightarrow> unat (drop_bit 1 x) < unat x" for x :: u32
  by (simp only: unat_drop_bit word_less_nat_alt) simp

text \<open>\<open>for (t = ...; t > 0; t >>= 1) levels++\<close>\<close>

function count_levels :: "u32 \<Rightarrow> u32 \<Rightarrow> u32" where
  "count_levels t levels = (if t > 0 then count_levels (drop_bit 1 t) (levels + 1) else levels)"
  by pat_completeness auto
termination
  by (relation "measure (\<lambda>(t, levels). unat t)") (simp_all only: in_measure wf_measure prod.case drop_bit_1_less)

declare count_levels.simps [simp del]

definition calc_num_of_levels :: "u32 \<Rightarrow> u32 \<Rightarrow> u32 res" where
  "calc_num_of_levels block_size min_block_size =
     (if min_block_size = 0 then Err EINVAL
      else Ok (count_levels (block_size div min_block_size) 0))"

definition next_pow2 :: "u32 \<Rightarrow> u32" where
  "next_pow2 v =
     (if v = 0 then 0
      else
        let v0 = v - 1;
            v1 = v0 OR drop_bit 1 v0;
            v2 = v1 OR drop_bit 2 v1;
            v3 = v2 OR drop_bit 4 v2;
            v4 = v3 OR drop_bit 8 v3;
            v5 = v4 OR drop_bit 16 v4
        in v5 + 1)"

definition MAX_LEVELS :: u32 where
  "MAX_LEVELS = 64"

text \<open>
  \<open>1 << i\<close> shifts a signed \<open>int\<close>: it is undefined from \<open>i = 31\<close> on.
\<close>

fun max_nodes_loop :: "nat \<Rightarrow> nat \<Rightarrow> u32 \<Rightarrow> u32 res" where
  "max_nodes_loop 0 i max_nodes = Ok max_nodes"
| "max_nodes_loop (Suc left) i max_nodes =
     (if i < 31 then max_nodes_loop left (Suc i) (max_nodes + push_bit i 1) else UB)"

definition calc_max_nodes :: "u32 \<Rightarrow> u32 res" where
  "calc_max_nodes num_of_levels =
     (if num_of_levels > MAX_LEVELS \<or> num_of_levels = 0 then Err EINVAL
      else max_nodes_loop (unat num_of_levels) 0 0)"

text \<open>\<open>while (size > minb) { size >>= 1; shift_count++; }\<close>\<close>

function level_shift :: "u32 \<Rightarrow> u32 \<Rightarrow> u32 \<Rightarrow> u32" where
  "level_shift sz minb shift_count =
     (if sz > minb then level_shift (drop_bit 1 sz) minb (shift_count + 1) else shift_count)"
  by pat_completeness auto
termination
  by (relation "measure (\<lambda>(sz, minb, c). unat sz)")
    (simp_all only: in_measure wf_measure prod.case drop_bit_1_less order_le_less_trans [OF word_zero_le])

declare level_shift.simps [simp del]

definition calc_buddy_allocator_slot :: "u32 \<Rightarrow> u32 \<Rightarrow> u32 \<Rightarrow> u32 res" where
  "calc_buddy_allocator_slot offset block_level block_size =
     res_bind (shl32 1 block_level) (\<lambda>first.
       if block_size = 0 then UB else Ok ((first - 1) + offset div block_size))"

section \<open>Powers of two in 32 bits\<close>

definition pow2 :: "nat \<Rightarrow> u32" where
  "pow2 n = push_bit n 1"

lemma pow2_of_nat: "pow2 n = of_nat (2 ^ n)"
  by (simp add: pow2_def push_bit_eq_mult)

lemma unat_pow2 [simp]:
  assumes "n < 32"
  shows "unat (pow2 n) = 2 ^ n"
proof -
  have "(2 :: nat) ^ n < 2 ^ 32" using assms by (rule power_strict_increasing) simp
  then show ?thesis unfolding pow2_of_nat by (intro unat_of_nat_lt) simp
qed

lemma bit_unat_iff: "bit v i \<longleftrightarrow> odd (unat v div 2 ^ i)" for v :: u32
  by (metis bit_iff_odd bit_unsigned_iff bit_imp_possible_bit possible_bit_nat)

lemma bit_top:
  fixes v :: u32
  assumes "2 ^ m \<le> unat v" "unat v < 2 * 2 ^ m"
  shows "bit v m"
proof -
  have "unat v div 2 ^ m = 1" using assms by (simp add: div_nat_eqI)
  then show ?thesis by (simp add: bit_unat_iff)
qed

lemma ex_top_bit:
  fixes n :: nat
  assumes "0 < n"
  obtains m :: nat where "2 ^ m \<le> n" "n < 2 * 2 ^ m"
proof -
  have "\<exists>m. 2 ^ m \<le> n \<and> n < 2 * 2 ^ m" using assms
  proof (induction n rule: less_induct)
    case (less n)
    show ?case
    proof (cases "n = 1")
      case True
      then show ?thesis by (intro exI [of _ 0]) simp
    next
      case False
      with less.prems have "0 < n div 2" "n div 2 < n" by auto
      with less.IH obtain m where "2 ^ m \<le> n div 2" "n div 2 < 2 * 2 ^ m" by blast
      then have "2 ^ Suc m \<le> n \<and> n < 2 * 2 ^ Suc m" by auto
      then show ?thesis by blast
    qed
  qed
  then show ?thesis using that by blast
qed

section \<open>Rounding up to a power of two\<close>

text \<open>
  \<open>smeared w v x\<close>: each bit of \<open>x\<close> is the disjunction of the \<open>w\<close> bits of \<open>v\<close> from that position
  upwards. Each line of \<open>next_pow2\<close> doubles the window.
\<close>

definition smeared :: "nat \<Rightarrow> u32 \<Rightarrow> u32 \<Rightarrow> bool" where
  "smeared w v x \<longleftrightarrow> (\<forall>i. bit x i \<longleftrightarrow> (\<exists>j<w. bit v (i + j)))"

lemma smeared_refl: "smeared 1 v v"
  by (simp add: smeared_def)

lemma smeared_double:
  assumes "smeared w v x"
  shows "smeared (2 * w) v (x OR drop_bit w x)"
  unfolding smeared_def
proof
  fix i
  have "bit (x OR drop_bit w x) i \<longleftrightarrow> (\<exists>j<w. bit v (i + j)) \<or> (\<exists>j<w. bit v (i + w + j))"
    using assms by (simp add: smeared_def bit_or_iff bit_drop_bit_eq add.commute)
  also have "\<dots> \<longleftrightarrow> (\<exists>j<2 * w. bit v (i + j))"
  proof
    assume "(\<exists>j<w. bit v (i + j)) \<or> (\<exists>j<w. bit v (i + w + j))"
    then show "\<exists>j<2 * w. bit v (i + j)"
    proof
      assume "\<exists>j<w. bit v (i + w + j)"
      then obtain j where "j < w" "bit v (i + (w + j))" by (auto simp: add.assoc)
      then show ?thesis by (intro exI [of _ "w + j"]) simp
    next
      assume "\<exists>j<w. bit v (i + j)"
      then obtain j where "j < w" "bit v (i + j)" by blast
      then show ?thesis by (intro exI [of _ j]) simp
    qed
  next
    assume "\<exists>j<2 * w. bit v (i + j)"
    then obtain j where j: "j < 2 * w" "bit v (i + j)" by blast
    show "(\<exists>j<w. bit v (i + j)) \<or> (\<exists>j<w. bit v (i + w + j))"
    proof (cases "j < w")
      case False
      with j have "j - w < w" "bit v (i + w + (j - w))" by simp_all
      then show ?thesis by blast
    qed (use j in blast)
  qed
  finally show "bit (x OR drop_bit w x) i \<longleftrightarrow> (\<exists>j<2 * w. bit v (i + j))" .
qed

lemma smeared_full:
  assumes s: "smeared 32 v x" and lo: "2 ^ m \<le> unat v" and hi: "unat v < 2 * 2 ^ m"
  shows "x = mask (Suc m)"
proof (rule bit_word_eqI)
  fix i assume "i < LENGTH(32)"
  have m: "bit v m" using lo hi by (rule bit_top)
  have above: "\<not> bit v k" if "m < k" for k
  proof -
    have "(2::nat) ^ Suc m \<le> 2 ^ k" using that by (intro power_increasing) simp_all
    with hi have "unat v div 2 ^ k = 0" by simp
    then show ?thesis by (simp add: bit_unat_iff)
  qed
  have m32: "m < 32"
    using m bit_imp_le_length [of v m] by simp
  have "bit x i \<longleftrightarrow> (\<exists>j<32. bit v (i + j))"
    using s by (simp add: smeared_def)
  also have "\<dots> \<longleftrightarrow> i \<le> m"
  proof
    assume "\<exists>j<32. bit v (i + j)"
    then obtain j where "bit v (i + j)" by blast
    with above [of "i + j"] show "i \<le> m" by (metis leI le_add1 le_trans)
  next
    assume "i \<le> m"
    with m m32 show "\<exists>j<32. bit v (i + j)" by (intro exI [of _ "m - i"]) simp
  qed
  finally show "bit x i \<longleftrightarrow> bit (mask (Suc m) :: u32) i"
    using \<open>i < LENGTH(32)\<close> by (simp add: bit_mask_iff less_Suc_eq_le)
qed

lemma next_pow2_exact:
  assumes "v \<noteq> 0" "2 ^ m < unat v" "unat v \<le> 2 * 2 ^ m"
  shows "next_pow2 v = (if m < 31 then pow2 (Suc m) else 0)"
proof -
  define v0 where "v0 = v - 1"
  define v1 where "v1 = v0 OR drop_bit 1 v0"
  define v2 where "v2 = v1 OR drop_bit 2 v1"
  define v3 where "v3 = v2 OR drop_bit 4 v2"
  define v4 where "v4 = v3 OR drop_bit 8 v3"
  define v5 where "v5 = v4 OR drop_bit 16 v4"
  have "smeared 1 v0 v0" by (rule smeared_refl)
  then have "smeared 2 v0 v1" unfolding v1_def by (rule smeared_double [where w = 1, simplified mult_1_right])
  then have "smeared 4 v0 v2" unfolding v2_def using smeared_double [of 2] by simp
  then have "smeared 8 v0 v3" unfolding v3_def using smeared_double [of 4] by simp
  then have "smeared 16 v0 v4" unfolding v4_def using smeared_double [of 8] by simp
  then have "smeared 32 v0 v5" unfolding v5_def using smeared_double [of 16] by simp
  moreover have "unat v0 = unat v - 1"
    using assms(1) by (simp add: v0_def unat_dec)
  ultimately have "v5 = mask (Suc m)"
    using assms by (intro smeared_full) auto
  moreover have "next_pow2 v = v5 + 1"
    using assms(1) by (simp only: next_pow2_def Let_def v5_def v4_def v3_def v2_def v1_def v0_def if_False)
  ultimately have n: "next_pow2 v = push_bit (Suc m) 1"
    by (simp add: mask_eq_exp_minus_1 push_bit_eq_mult)
  show ?thesis
  proof (cases "m < 31")
    case True
    with n show ?thesis by (simp add: pow2_def)
  next
    case False
    then have "push_bit (Suc m) 1 = (0 :: u32)" by (intro push_bit_word_beyond) simp
    with n False show ?thesis by simp
  qed
qed

lemma next_pow2_1: "next_pow2 1 = pow2 0"
  by (simp add: next_pow2_def pow2_def)

text \<open>The least power of two that is not below the argument, while it fits in 32 bits.\<close>

lemma next_pow2_fits:
  assumes "v \<noteq> 0" "unat v \<le> 2 ^ 31"
  obtains k where "next_pow2 v = pow2 k" "k < 32" "unat v \<le> 2 ^ k"
    "\<And>j. unat v \<le> 2 ^ j \<Longrightarrow> k \<le> j"
proof (cases "unat v = 1")
  case True
  then have "v = 1" by (metis unat_1 unat_eq_iff)
  with that [of 0] next_pow2_1 show ?thesis by simp
next
  case False
  with assms(1) have "0 < unat v - 1" using unat_gt_0 [of v] by simp
  then obtain m where m: "2 ^ m \<le> unat v - 1" "unat v - 1 < 2 * 2 ^ m"
    by (rule ex_top_bit)
  with False have m': "2 ^ m < unat v" "unat v \<le> 2 * 2 ^ m" by auto
  have "(2::nat) ^ m < 2 ^ 31" using m' assms(2) by linarith
  then have m31: "m < 31" by (rule power_less_imp_less_exp [rotated]) simp
  show ?thesis
  proof (rule that [of "Suc m"])
    show "next_pow2 v = pow2 (Suc m)" using next_pow2_exact [OF assms(1) m'] m31 by simp
    show "Suc m < 32" using m31 by simp
    show "unat v \<le> 2 ^ Suc m" using m' by simp
    fix j assume "unat v \<le> 2 ^ j"
    with m' have "(2::nat) ^ m < 2 ^ j" by linarith
    then have "m < j" by (rule power_less_imp_less_exp [rotated]) simp
    then show "Suc m \<le> j" by simp
  qed
qed

lemma next_pow2_overflow:
  assumes "2 ^ 31 < unat v"
  shows "next_pow2 v = 0"
proof -
  have "v \<noteq> 0" using assms by auto
  moreover have "unat v \<le> 2 * 2 ^ 31" using unat_less_32 [of v] by simp
  ultimately show ?thesis using next_pow2_exact [of v 31] assms by simp
qed

section \<open>Powers of two as the code tests them\<close>

lemma and_pred_pow2: "n < 32 \<Longrightarrow> pow2 n AND (pow2 n - 1) = 0"
  by (rule bit_word_eqI)
    (auto simp: pow2_def bit_and_iff mask_eq_exp_minus_1 [symmetric] push_bit_eq_mult
      bit_exp_iff bit_mask_iff)

text \<open>\<open>v & (v - 1) == 0\<close> holds for powers of two only.\<close>

lemma pow2_if_and_pred:
  assumes "v \<noteq> 0" "v AND (v - 1) = 0"
  obtains k where "k < 32" "v = pow2 k"
proof -
  have "0 < unat v" using assms(1) by (simp add: unat_gt_0)
  then obtain m where m: "2 ^ m \<le> unat v" "unat v < 2 * 2 ^ m" by (rule ex_top_bit)
  have "(2::nat) ^ m < 2 ^ 32" using m(1) unat_less_32 [of v] by simp
  then have m32: "m < 32" by (rule power_less_imp_less_exp [rotated]) simp
  have b: "bit v m" using m by (rule bit_top)
  have "unat v = 2 ^ m"
  proof (rule ccontr)
    assume "unat v \<noteq> 2 ^ m"
    with m have "2 ^ m \<le> unat (v - 1)" "unat (v - 1) < 2 * 2 ^ m"
      using assms(1) by (simp_all add: unat_dec)
    then have "bit (v - 1) m" by (rule bit_top)
    with b have "bit (v AND (v - 1)) m" by (simp add: bit_and_iff)
    with assms(2) show False by simp
  qed
  then have "v = pow2 m" using m32 by (metis unat_pow2 unat_eq_iff)
  with m32 that show ?thesis by blast
qed

section \<open>Levels, sizes and slots at powers of two\<close>

lemma pow2_eq_0_iff [simp]: "n < 32 \<Longrightarrow> pow2 n \<noteq> 0"
  using unat_pow2 [of n] by (metis unat_0 power_not_zero zero_neq_numeral)

lemma pow2_inj: "m < 32 \<Longrightarrow> n < 32 \<Longrightarrow> pow2 m = pow2 n \<longleftrightarrow> m = n"
  by (metis unat_pow2 power_inject_exp one_less_numeral_iff semiring_norm(76))

lemma drop_bit_pow2: "Suc n < 32 \<Longrightarrow> drop_bit (Suc 0) (pow2 (Suc n)) = pow2 n"
  unfolding unat_eq_iff [symmetric] unat_drop_bit by simp

lemma push_bit_pow2: "push_bit m (pow2 n) = pow2 (m + n)"
  by (simp only: pow2_def push_bit_push_bit)

lemma pow2_div: "m \<le> n \<Longrightarrow> n < 32 \<Longrightarrow> pow2 n div pow2 m = pow2 (n - m)"
  unfolding unat_eq_iff [symmetric] unat_div by (simp add: power_diff)

lemma pow2_less_iff: "m < 32 \<Longrightarrow> n < 32 \<Longrightarrow> pow2 m < pow2 n \<longleftrightarrow> m < n"
  by (simp add: word_less_nat_alt)

lemma count_levels_pow2: "n < 32 \<Longrightarrow> count_levels (pow2 n) c = c + of_nat (Suc n)"
proof (induction n arbitrary: c)
  case 0
  have "drop_bit (Suc 0) (pow2 0) = 0" by (simp add: pow2_def)
  moreover have "count_levels 0 x = x" for x by (subst count_levels.simps) simp
  moreover have "0 < pow2 0" by (simp add: word_less_nat_alt)
  ultimately show ?case by (subst count_levels.simps) simp
next
  case (Suc n)
  have "0 < pow2 (Suc n)" using Suc.prems by (simp add: word_less_nat_alt)
  with Suc show ?case by (subst count_levels.simps) (simp add: drop_bit_pow2)
qed

lemma calc_num_of_levels_pow2:
  assumes "m \<le> n" "n < 32"
  shows "calc_num_of_levels (pow2 n) (pow2 m) = Ok (of_nat (Suc (n - m)))"
  using assms by (simp add: calc_num_of_levels_def pow2_div count_levels_pow2)

lemma max_nodes_loop_Ok:
  "i + left \<le> 31 \<Longrightarrow> max_nodes_loop left i acc = Ok (acc + pow2 (i + left) - pow2 i)"
proof (induction left arbitrary: i acc)
  case 0
  then show ?case by simp
next
  case (Suc left)
  then have "max_nodes_loop (Suc left) i acc =
               Ok (acc + push_bit i 1 + pow2 (Suc i + left) - pow2 (Suc i))"
    by simp
  moreover have "pow2 (Suc i) = 2 * pow2 i" by (simp add: pow2_of_nat)
  ultimately show ?case by (simp add: pow2_def)
qed

lemma max_nodes_loop_UB:
  "31 < i + left \<Longrightarrow> i \<le> 31 \<Longrightarrow> max_nodes_loop left i acc = UB"
proof (induction left arbitrary: i acc)
  case 0
  then show ?case by simp
next
  case (Suc left)
  then show ?case by auto
qed

lemma calc_max_nodes_Ok:
  assumes "0 < n" "n \<le> 31"
  shows "calc_max_nodes (of_nat n) = Ok (pow2 n - 1)"
proof -
  have u: "unat (of_nat n :: u32) = n" using assms by (intro unat_of_nat_lt) simp
  have "of_nat n \<noteq> (0 :: u32)" using u assms by (metis unat_0 less_irrefl)
  moreover have "\<not> MAX_LEVELS < of_nat n"
    using u assms by (simp add: MAX_LEVELS_def word_less_nat_alt)
  ultimately show ?thesis
    using assms u by (simp add: calc_max_nodes_def max_nodes_loop_Ok) (simp add: pow2_def)
qed

lemma calc_max_nodes_32: "calc_max_nodes 32 = UB"
  by (simp add: calc_max_nodes_def MAX_LEVELS_def max_nodes_loop_UB)

lemma level_shift_pow2:
  "m + n < 32 \<Longrightarrow> level_shift (pow2 (m + n)) (pow2 m) c = c + of_nat n"
proof (induction n arbitrary: c)
  case 0
  then show ?case by (subst level_shift.simps) simp
next
  case (Suc n)
  then have "pow2 m < pow2 (m + Suc n)" by (simp add: pow2_less_iff)
  with Suc drop_bit_pow2 [of "m + n"] show ?case by (subst level_shift.simps) simp
qed

lemma of_nat_diff_1: "l < n \<Longrightarrow> of_nat n - 1 - of_nat l = (of_nat (n - 1 - l) :: u32)"
  by (simp add: of_nat_diff)

lemma get_block_size_pow2:
  assumes "l < n" "n \<le> 32"
  shows "get_block_size (of_nat l) (pow2 m) (of_nat n) = Ok (pow2 (n - 1 - l + m))"
proof -
  have "unat (of_nat (n - 1 - l) :: u32) = n - 1 - l"
    using assms by (intro unat_of_nat_lt) simp
  with assms show ?thesis
    by (simp add: get_block_size_def of_nat_diff_1 shl32_def push_bit_pow2 del: of_nat_diff)
qed

lemma slot_pow2:
  assumes "l < 32" "s < 32" "i * 2 ^ s < 2 ^ 32"
  shows "calc_buddy_allocator_slot (of_nat (i * 2 ^ s)) (of_nat l) (pow2 s) =
           Ok (of_nat (2 ^ l - 1 + i))"
proof -
  have l: "unat (of_nat l :: u32) = l" using assms by (intro unat_of_nat_lt) simp
  have o: "unat (of_nat (i * 2 ^ s) :: u32) = i * 2 ^ s"
    using assms(3) by (intro unat_of_nat_lt) simp
  have i: "i < 2 ^ 32"
  proof -
    have "i \<le> i * 2 ^ s" by simp
    with assms(3) show ?thesis by linarith
  qed
  have "unat (of_nat (i * 2 ^ s) div pow2 s) = i"
    unfolding unat_div o using assms(2) by simp
  then have d: "of_nat (i * 2 ^ s) div pow2 s = of_nat i"
    using i by (simp add: unat_eq_iff [symmetric] unat_of_nat_lt)
  have "(of_nat (2 ^ l - 1) :: u32) = pow2 l - 1"
    by (simp add: pow2_of_nat of_nat_diff)
  then have "of_nat (2 ^ l - 1 + i) = (pow2 l - 1) + of_nat i"
    by (simp only: of_nat_add)
  with assms l d show ?thesis
    by (simp add: calc_buddy_allocator_slot_def shl32_def pow2_of_nat del: of_nat_mult)
qed

definition sibling :: "nat \<Rightarrow> nat" where
  "sibling n = (if even n then n + 1 else n - 1)"

lemma buddy_offset_pow2:
  "get_buddy_offset (of_nat (i * 2 ^ s)) (pow2 s) = of_nat (sibling i * 2 ^ s)"
proof -
  have p: "of_nat (j * 2 ^ s) = push_bit s (of_nat j :: u32)" for j
    by (simp add: push_bit_eq_mult)
  have "i XOR 1 = sibling i"
    by (simp add: sibling_def xor_Suc_0_eq)
  then have "(of_nat i :: u32) XOR 1 = of_nat (sibling i)"
    by (metis of_nat_1 of_nat_xor_eq)
  then show ?thesis
    unfolding get_buddy_offset_def p pow2_def push_bit_xor [symmetric] by simp
qed

end
