(* ===== verification/Buddy_Alloc.thy ===== *)
theory Buddy_Alloc
  imports Buddy_Arith
begin

unbundle bit_operations_syntax

text \<open>
  The operations of \<open>BUDDY_ALLOCATOR/src/buddy_allocator.c\<close>, function by function. Block structs
  live in the array of the memory pool; a \<open>struct buddy_alloc_block *\<close> is the index of the
  element it points to (\<open>None\<close> for \<open>NULL\<close>), and \<open>next\<close> and \<open>prev\<close> are such indices, so the
  free lists are linked inside the array exactly as in the code. The static functions receive
  \<open>b_alloc\<close> and the addresses of locals; the public ones receive pointers that may be \<open>NULL\<close> or
  freed. The results of \<open>calloc\<close> (did it return memory?) are arguments.
\<close>

section \<open>Data\<close>

type_synonym blk_ptr = "nat option"

record buddy_alloc_block =
  blk_next :: blk_ptr
  blk_prev :: blk_ptr
  blk_offset :: u32
  blk_level :: "6 word"
  is_active :: bool
  is_allocated :: bool

record mem_pool =
  elements_array :: "buddy_alloc_block list"
  num_of_elements :: u32
  size_of_element :: u32

record mem_pool_cfg =
  element_size :: u32
  num_elements :: u32

record buddy_alloc =
  min_block_size :: u32
  num_of_levels :: u32
  mem_pool_ptr :: "mem_pool cptr"
  free_list :: "blk_ptr list"

record buddy_alloc_cfg =
  total_mem_pool_size :: u32
  cfg_min_block_size :: u32

text \<open>\<open>sizeof(struct buddy_alloc_block)\<close> under LP64: two pointers and two 32-bit words.\<close>

definition sizeof_block :: u32 where
  "sizeof_block = 24"

definition zero_block :: buddy_alloc_block where
  "zero_block = \<lparr>blk_next = None, blk_prev = None, blk_offset = 0, blk_level = 0,
                 is_active = False, is_allocated = False\<rparr>"

section \<open>Access to the block array and the list heads\<close>

definition blocks :: "buddy_alloc \<Rightarrow> buddy_alloc_block list" where
  "blocks b = (case mem_pool_ptr b of Ptr p \<Rightarrow> elements_array p | _ \<Rightarrow> [])"

definition set_blocks :: "buddy_alloc_block list \<Rightarrow> buddy_alloc \<Rightarrow> buddy_alloc" where
  "set_blocks xs b =
     (case mem_pool_ptr b of
        Ptr p \<Rightarrow> b\<lparr>mem_pool_ptr := Ptr (p\<lparr>elements_array := xs\<rparr>)\<rparr>
      | _ \<Rightarrow> b)"

definition get_blk :: "buddy_alloc \<Rightarrow> nat \<Rightarrow> buddy_alloc_block res" where
  "get_blk b p = array_read (blocks b) p"

definition upd_blk ::
  "nat \<Rightarrow> (buddy_alloc_block \<Rightarrow> buddy_alloc_block) \<Rightarrow> buddy_alloc \<Rightarrow> unit res \<times> buddy_alloc" where
  "upd_blk p f b =
     (if p < length (blocks b) then (Ok (), set_blocks ((blocks b)[p := f (blocks b ! p)]) b)
      else (UB, b))"

definition get_head :: "buddy_alloc \<Rightarrow> u32 \<Rightarrow> blk_ptr res" where
  "get_head b level = array_read (free_list b) (unat level)"

definition set_head :: "u32 \<Rightarrow> blk_ptr \<Rightarrow> buddy_alloc \<Rightarrow> unit res \<times> buddy_alloc" where
  "set_head level h b =
     (if unat level < length (free_list b)
      then (Ok (), b\<lparr>free_list := (free_list b)[unat level := h]\<rparr>)
      else (UB, b))"

section \<open>The memory pool\<close>

text \<open>
  When the second \<open>calloc\<close> fails the pool is freed, but \<open>*pool\<close> keeps its address.
\<close>

definition mem_pool_create ::
  "bool \<Rightarrow> bool \<Rightarrow> out_arg \<Rightarrow> mem_pool_cfg cptr \<Rightarrow> mem_pool cptr \<Rightarrow> unit res \<times> mem_pool cptr" where
  "mem_pool_create calloc_pool calloc_elems pool cfg old =
     (if pool = OutNull \<or> cfg = NULL then (Err EINVAL, old)
      else and_then (load cfg, old) (\<lambda>c old.
        if num_elements c = 0 \<or> element_size c = 0 then (Err EINVAL, old)
        else if \<not> calloc_pool then (Err ENOMEM, NULL)
        else if \<not> calloc_elems then (Err ENOMEM, Freed)
        else (Ok (), Ptr \<lparr>elements_array = replicate (unat (num_elements c)) zero_block,
                          num_of_elements = num_elements c,
                          size_of_element = element_size c\<rparr>)))"

definition mem_pool_destroy :: "mem_pool cptr \<Rightarrow> unit res \<times> mem_pool cptr" where
  "mem_pool_destroy pool = (if pool = NULL then (Err EINVAL, pool) else c_free pool)"

text \<open>
  \<open>slot_index * pool->size_of_element\<close> is a 32-bit product. The pointer it yields is an element
  of the array only if the byte offset is a multiple of the element size.
\<close>

definition mem_pool_get_block :: "mem_pool cptr \<Rightarrow> out_arg \<Rightarrow> u32 \<Rightarrow> nat res" where
  "mem_pool_get_block pool ptr slot_index =
     (if pool = NULL \<or> ptr = OutNull then Err EINVAL
      else res_bind (load pool) (\<lambda>p.
        if slot_index \<ge> num_of_elements p then Err EINVAL
        else
          let bytes = unat (slot_index * size_of_element p); sz = unat (size_of_element p)
          in if sz \<noteq> 0 \<and> bytes mod sz = 0 then Ok (bytes div sz) else UB))"

section \<open>The linked lists\<close>

definition create_new_block ::
  "buddy_alloc \<Rightarrow> u32 \<Rightarrow> u32 \<Rightarrow> u32 \<Rightarrow> out_arg \<Rightarrow> nat res \<times> buddy_alloc" where
  "create_new_block b level offset block_size out_block =
     (if out_block = OutNull then (Err EINVAL, b)
      else and_then (calc_buddy_allocator_slot offset level block_size, b) (\<lambda>slot_index b.
        and_then (mem_pool_get_block (mem_pool_ptr b) OutAddr slot_index, b) (\<lambda>free_block b.
        and_then (get_blk b free_block, b) (\<lambda>blk b.
          if is_active blk then (Err EINVAL, b)
          else and_then
            (upd_blk free_block (\<lambda>x. x\<lparr>blk_level := ucast level, blk_next := None, blk_prev := None,
               blk_offset := offset, is_active := True, is_allocated := False\<rparr>) b) (\<lambda>_ b.
            (Ok free_block, b))))))"

definition linked_list_add_block :: "buddy_alloc \<Rightarrow> blk_ptr \<Rightarrow> unit res \<times> buddy_alloc" where
  "linked_list_add_block b input_block =
     (case input_block of
        None \<Rightarrow> (Err EINVAL, b)
      | Some p \<Rightarrow>
          and_then (get_blk b p, b) (\<lambda>blk b.
          let level = ucast (blk_level blk)
          in and_then (get_head b level, b) (\<lambda>head b.
             and_then (case head of
                         None \<Rightarrow> (Ok (), b)
                       | Some h \<Rightarrow> upd_blk h (\<lambda>x. x\<lparr>blk_prev := Some p\<rparr>) b) (\<lambda>_ b.
             and_then (upd_blk p (\<lambda>x. x\<lparr>blk_next := head, blk_prev := None\<rparr>) b) (\<lambda>_ b.
             set_head level (Some p) b)))))"

definition linked_list_extract_block :: "buddy_alloc \<Rightarrow> nat \<Rightarrow> u32 \<Rightarrow> unit res \<times> buddy_alloc" where
  "linked_list_extract_block b target_block level =
     and_then (get_blk b target_block, b) (\<lambda>blk b.
       let next_block = blk_next blk; prev_block = blk_prev blk
       in and_then (case next_block of
                      None \<Rightarrow> (Ok (), b)
                    | Some n \<Rightarrow> upd_blk n (\<lambda>x. x\<lparr>blk_prev := prev_block\<rparr>) b) (\<lambda>_ b.
          case prev_block of
            Some p \<Rightarrow> upd_blk p (\<lambda>x. x\<lparr>blk_next := next_block\<rparr>) b
          | None \<Rightarrow> set_head level next_block b))"

section \<open>Internal allocator functions\<close>

definition get_block_level :: "buddy_alloc \<Rightarrow> u32 \<Rightarrow> out_arg \<Rightarrow> u32 res" where
  "get_block_level b block_size level_out =
     (if level_out = OutNull then Err EINVAL
      else
        let minb = min_block_size b
        in if block_size < minb \<or> block_size AND (block_size - 1) \<noteq> 0 then Err EINVAL
           else
             let shift_count = level_shift block_size minb 0;
                 max_lvl = num_of_levels b - 1
             in if shift_count > max_lvl then Err EINVAL else Ok (max_lvl - shift_count))"

text \<open>The results are \<open>*buddy_offset\<close> and \<open>*found_buddy\<close>.\<close>

definition remove_buddy_block ::
  "buddy_alloc \<Rightarrow> u32 \<Rightarrow> int \<Rightarrow> u32 \<Rightarrow> (u32 \<times> bool) res \<times> buddy_alloc" where
  "remove_buddy_block b offset level block_size =
     (let buddy_offset = get_buddy_offset offset block_size
      in and_then (calc_buddy_allocator_slot buddy_offset (word_of_int level) block_size, b)
           (\<lambda>buddy_slot b.
         and_then (mem_pool_get_block (mem_pool_ptr b) OutAddr buddy_slot, b) (\<lambda>buddy_block b.
         and_then (get_blk b buddy_block, b) (\<lambda>blk b.
           if \<not> is_active blk \<or> is_allocated blk then (Ok (buddy_offset, False), b)
           else and_then (linked_list_extract_block b buddy_block (word_of_int level)) (\<lambda>_ b.
                and_then (upd_blk buddy_block (\<lambda>x. x\<lparr>is_active := False\<rparr>) b) (\<lambda>_ b.
                (Ok (buddy_offset, True), b)))))))"

text \<open>The result is \<open>*block_out\<close> when \<open>*found_block\<close> is set, else \<open>None\<close>.\<close>

definition allocate_at_level :: "buddy_alloc \<Rightarrow> u32 \<Rightarrow> out_arg \<Rightarrow> blk_ptr res \<times> buddy_alloc" where
  "allocate_at_level b level block_out =
     (if block_out = OutNull then (Err EINVAL, b)
      else and_then (get_head b level, b) (\<lambda>head b.
        case head of
          None \<Rightarrow> (Ok None, b)
        | Some target_block \<Rightarrow>
            and_then (linked_list_extract_block b target_block level) (\<lambda>_ b.
            and_then (upd_blk target_block (\<lambda>x. x\<lparr>is_allocated := True\<rparr>) b) (\<lambda>_ b.
            (Ok (Some target_block), b)))))"

lemma word_pred_less: "0 < (x :: u32) \<Longrightarrow> unat (x - 1) < unat x"
  by (metis measure_unat word_gt_0)

function find_level_loop :: "buddy_alloc \<Rightarrow> u32 \<Rightarrow> u32 res" where
  "find_level_loop b level =
     (if level > 0
      then res_bind (get_head b level) (\<lambda>head.
             if head = None then find_level_loop b (level - 1) else Ok level)
      else Ok level)"
  by pat_completeness auto
termination
  by (relation "measure (\<lambda>(b, level). unat level)") (simp_all add: word_pred_less)

declare find_level_loop.simps [simp del]

definition find_non_empty_level :: "buddy_alloc \<Rightarrow> u32 \<Rightarrow> u32 res" where
  "find_non_empty_level b start_level =
     res_bind (find_level_loop b start_level) (\<lambda>level.
     res_bind (get_head b level) (\<lambda>head.
     if head = None then Err ENFILE else Ok level))"

text \<open>
  \<open>for (lev = src_level + 1; lev <= target_level; ++lev)\<close>. The level is counted without wrap
  around, which the guard \<open>target_level < num_of_levels\<close> of the caller justifies. The result is
  the block size after the last halving.
\<close>

function split_loop ::
  "buddy_alloc \<Rightarrow> nat \<Rightarrow> nat \<Rightarrow> u32 \<Rightarrow> u32 \<Rightarrow> u32 res \<times> buddy_alloc" where
  "split_loop b lev target_level blk_off b_size =
     (if lev \<le> target_level
      then
        let b_size = drop_bit 1 b_size;
            buddy_offset = get_buddy_offset blk_off b_size
        in and_then (create_new_block b (of_nat lev) buddy_offset b_size OutAddr) (\<lambda>buddy b.
           and_then (linked_list_add_block b (Some buddy)) (\<lambda>_ b.
           split_loop b (Suc lev) target_level blk_off b_size))
      else (Ok b_size, b))"
  by pat_completeness auto
termination
  by (relation "measure (\<lambda>(b, lev, target, off, size). Suc target - lev)") auto

declare split_loop.simps [simp del]

definition split_block_down ::
  "buddy_alloc \<Rightarrow> u32 \<Rightarrow> u32 \<Rightarrow> out_arg \<Rightarrow> nat res \<times> buddy_alloc" where
  "split_block_down b src_level target_level target_blk =
     (if target_blk = OutNull then (Err EINVAL, b)
      else if src_level \<ge> num_of_levels b \<or> target_level \<ge> num_of_levels b
              \<or> target_level \<le> src_level then (Err EINVAL, b)
      else and_then (get_head b src_level, b) (\<lambda>head b.
        case head of
          None \<Rightarrow> (Err ENOMEM, b)
        | Some start_block \<Rightarrow>
            and_then (linked_list_extract_block b start_block src_level) (\<lambda>_ b.
            and_then (upd_blk start_block (\<lambda>x. x\<lparr>is_active := False\<rparr>) b) (\<lambda>_ b.
            and_then (get_blk b start_block, b) (\<lambda>blk b.
            let blk_off = blk_offset blk
            in and_then (get_block_size src_level (min_block_size b) (num_of_levels b), b)
                 (\<lambda>b_size b.
               and_then (split_loop b (unat src_level + 1) (unat target_level) blk_off b_size)
                 (\<lambda>b_size b.
               create_new_block b target_level blk_off b_size OutAddr)))))))"

section \<open>Public functions\<close>

text \<open>
  A call through a \<open>buddy_alloc_t *\<close> that is known not to be \<open>NULL\<close>; a freed allocator is
  undefined.
\<close>

definition on_alloc ::
  "buddy_alloc cptr \<Rightarrow> (buddy_alloc \<Rightarrow> 'a res \<times> buddy_alloc) \<Rightarrow> 'a res \<times> buddy_alloc cptr" where
  "on_alloc p f = deref p (\<lambda>b. case f b of (r, b') \<Rightarrow> (r, Ptr b'))"

text \<open>The label \<open>fail\<close> of \<open>buddy_alloc_create\<close>, reached with an allocator.\<close>

definition create_fail :: "errno \<Rightarrow> buddy_alloc \<Rightarrow> 'a res" where
  "create_fail rc b =
     (if mem_pool_ptr b \<noteq> NULL
      then (case mem_pool_destroy (mem_pool_ptr b) of (UB, _) \<Rightarrow> UB | _ \<Rightarrow> Err rc)
      else Err rc)"

text \<open>
  The three booleans: did the \<open>calloc\<close> of the allocator, of the pool and of the block array
  return memory. The result is \<open>*b_alloc\<close>, which is \<open>NULL\<close> after a failure.
\<close>

definition buddy_alloc_create ::
  "bool \<Rightarrow> bool \<Rightarrow> bool \<Rightarrow> buddy_alloc_cfg cptr \<Rightarrow> out_arg \<Rightarrow> buddy_alloc cptr res" where
  "buddy_alloc_create calloc_alloc calloc_pool calloc_elems b_cfg b_alloc =
     (if b_alloc = OutNull \<or> b_cfg = NULL then Err EINVAL
      else res_bind (load b_cfg) (\<lambda>cfg.
        let total = total_mem_pool_size cfg; minb = cfg_min_block_size cfg
        in if minb = 0 \<or> total = 0 \<or> total AND (total - 1) \<noteq> 0 \<or> minb AND (minb - 1) \<noteq> 0
           then Err EINVAL
           else if minb > total then Err EINVAL
           else res_bind (calc_num_of_levels total minb) (\<lambda>levels.
             if levels > MAX_LEVELS then Err EINVAL
             else res_bind (calc_max_nodes levels) (\<lambda>max_nodes.
               if \<not> calloc_alloc then Err ENOMEM
               else
                 let b0 = \<lparr>min_block_size = 0, num_of_levels = 0, mem_pool_ptr = NULL,
                           free_list = replicate (unat levels) None\<rparr>
                 in case mem_pool_create calloc_pool calloc_elems OutAddr
                           (Ptr \<lparr>element_size = sizeof_block, num_elements = max_nodes\<rparr>) NULL of
                      (Err e, pool) \<Rightarrow> create_fail e (b0\<lparr>mem_pool_ptr := pool\<rparr>)
                    | (UB, _) \<Rightarrow> UB
                    | (Ok _, pool) \<Rightarrow>
                        let b1 = b0\<lparr>mem_pool_ptr := pool, min_block_size := minb,
                                    num_of_levels := levels\<rparr>
                        in case create_new_block b1 0 0 total OutAddr of
                             (Err e, b2) \<Rightarrow> create_fail e b2
                           | (UB, _) \<Rightarrow> UB
                           | (Ok blk, b2) \<Rightarrow>
                               (case linked_list_add_block b2 (Some blk) of
                                  (Err e, b3) \<Rightarrow> create_fail e b3
                                | (UB, _) \<Rightarrow> UB
                                | (Ok _, b3) \<Rightarrow> Ok (Ptr b3))))))"

text \<open>Both branches of the code free the allocator itself.\<close>

definition buddy_alloc_destroy :: "buddy_alloc cptr \<Rightarrow> unit res \<times> buddy_alloc cptr" where
  "buddy_alloc_destroy b_alloc =
     (if b_alloc = NULL then (Err EINVAL, b_alloc)
      else deref b_alloc (\<lambda>b. (fst (mem_pool_destroy (mem_pool_ptr b)), Freed)))"

definition allocate_body :: "buddy_alloc \<Rightarrow> u32 \<Rightarrow> nat res \<times> buddy_alloc" where
  "allocate_body b block_size =
     (if block_size = 0 then (Err EINVAL, b)
      else
        let split_size = next_pow2 block_size
        in and_then (get_block_level b split_size OutAddr, b) (\<lambda>original_level b.
           and_then (allocate_at_level b original_level OutAddr) (\<lambda>found b.
             case found of
               Some req_block \<Rightarrow> (Ok req_block, b)
             | None \<Rightarrow>
                 and_then (find_non_empty_level b original_level, b) (\<lambda>level b.
                 and_then (split_block_down b level original_level OutAddr) (\<lambda>req_block b.
                 and_then (upd_blk req_block (\<lambda>x. x\<lparr>is_allocated := True\<rparr>) b) (\<lambda>_ b.
                 (Ok req_block, b)))))))"

definition buddy_alloc_allocate ::
  "buddy_alloc cptr \<Rightarrow> u32 \<Rightarrow> out_arg \<Rightarrow> nat res \<times> buddy_alloc cptr" where
  "buddy_alloc_allocate b_alloc block_size block_out =
     (if b_alloc = NULL \<or> block_out = OutNull then (Err EINVAL, b_alloc)
      else on_alloc b_alloc (\<lambda>b. allocate_body b block_size))"

text \<open>
  The merge loop of \<open>buddy_alloc_free\<close>; the result is level, offset and size of the merged
  block.
\<close>

function merge_loop ::
  "buddy_alloc \<Rightarrow> int \<Rightarrow> u32 \<Rightarrow> u32 \<Rightarrow> (int \<times> u32 \<times> u32) res \<times> buddy_alloc" where
  "merge_loop b level block_offset block_size =
     (if level > 0
      then and_then (remove_buddy_block b block_offset level block_size) (\<lambda>(buddy_offset, found) b.
             if \<not> found then (Ok (level, block_offset, block_size), b)
             else merge_loop b (level - 1)
                    (if block_offset < buddy_offset then block_offset else buddy_offset)
                    (push_bit 1 block_size))
      else (Ok (level, block_offset, block_size), b))"
  by pat_completeness auto
termination
  by (relation "measure (\<lambda>(b, level, off, size). nat level)") auto

declare merge_loop.simps [simp del]

definition free_body :: "buddy_alloc \<Rightarrow> nat \<Rightarrow> unit res \<times> buddy_alloc" where
  "free_body b block =
     and_then (get_blk b block, b) (\<lambda>blk b.
       if ucast (blk_level blk) \<ge> num_of_levels b then (Err EINVAL, b)
       else
         let level = uint (blk_level blk); off = blk_offset blk
         in and_then (get_block_size (ucast (blk_level blk)) (min_block_size b) (num_of_levels b), b)
              (\<lambda>size b.
            and_then (upd_blk block (\<lambda>x. x\<lparr>is_active := False\<rparr>) b) (\<lambda>_ b.
            and_then (merge_loop b level off size) (\<lambda>(level, off, size) b.
            and_then (create_new_block b (word_of_int level) off size OutAddr) (\<lambda>current_block b.
            linked_list_add_block b (Some current_block))))))"

definition buddy_alloc_free ::
  "buddy_alloc cptr \<Rightarrow> blk_ptr \<Rightarrow> unit res \<times> buddy_alloc cptr" where
  "buddy_alloc_free b_alloc block =
     (if b_alloc = NULL then (Err EINVAL, b_alloc)
      else case block of
             None \<Rightarrow> (Err EINVAL, b_alloc)
           | Some p \<Rightarrow> on_alloc b_alloc (\<lambda>b. free_body b p))"

definition buddy_alloc_get_num_of_levels :: "buddy_alloc cptr \<Rightarrow> out_arg \<Rightarrow> u32 res" where
  "buddy_alloc_get_num_of_levels b_alloc num_out =
     (if b_alloc = NULL \<or> num_out = OutNull then Err EINVAL
      else res_bind (load b_alloc) (\<lambda>b. Ok (num_of_levels b)))"

text \<open>
  The list walk of \<open>buddy_alloc_count_free_blocks\<close>. The counter is an \<open>int\<close>, whose overflow is
  undefined. The level is not checked against the number of levels.
\<close>

definition INT_MAX :: int where
  "INT_MAX = 2147483647"

function count_loop :: "buddy_alloc_block list \<Rightarrow> blk_ptr \<Rightarrow> int \<Rightarrow> int res" where
  "count_loop blks cur count =
     (case cur of
        None \<Rightarrow> Ok count
      | Some p \<Rightarrow>
          if count \<ge> INT_MAX then UB
          else if p < length blks then count_loop blks (blk_next (blks ! p)) (count + 1)
          else UB)"
  by pat_completeness auto
termination
  by (relation "measure (\<lambda>(blks, cur, count). nat (INT_MAX - count))") auto

declare count_loop.simps [simp del]

definition buddy_alloc_count_free_blocks :: "buddy_alloc cptr \<Rightarrow> u32 \<Rightarrow> out_arg \<Rightarrow> u32 res" where
  "buddy_alloc_count_free_blocks b_alloc level free_blocks_num =
     (if b_alloc = NULL \<or> free_blocks_num = OutNull then Err EINVAL
      else res_bind (load b_alloc) (\<lambda>b.
        res_bind (get_head b level) (\<lambda>head.
        res_bind (count_loop (blocks b) head 0) (\<lambda>count. Ok (word_of_int count)))))"

definition buddy_alloc_get_block_level :: "buddy_alloc \<Rightarrow> blk_ptr \<Rightarrow> out_arg \<Rightarrow> u32 res" where
  "buddy_alloc_get_block_level b blk level_out =
     (case blk of
        None \<Rightarrow> Err EINVAL
      | Some p \<Rightarrow>
          if level_out = OutNull then Err EINVAL
          else res_bind (get_blk b p) (\<lambda>x. Ok (ucast (blk_level x))))"

definition buddy_alloc_get_block_offset :: "buddy_alloc \<Rightarrow> blk_ptr \<Rightarrow> out_arg \<Rightarrow> u32 res" where
  "buddy_alloc_get_block_offset b blk offset_out =
     (case blk of
        None \<Rightarrow> Err EINVAL
      | Some p \<Rightarrow>
          if offset_out = OutNull then Err EINVAL
          else res_bind (get_blk b p) (\<lambda>x. Ok (blk_offset x)))"

end
