(* ===== verification/Buddy_Tree.thy ===== *)
theory Buddy_Tree
  imports Buddy_Arith "HOL-Library.Disjoint_Sets"
begin

text \<open>
  The abstract view of the buddy allocator: a complete binary tree with \<open>L\<close> levels whose nodes
  are numbered \<open>1 ..< 2 ^ L\<close> in heap order (children \<open>2n\<close> and \<open>2n + 1\<close>, so the buddy of \<open>n\<close> is
  \<open>sibling n\<close>). Slot \<open>p\<close> of the block array is node \<open>p + 1\<close>. The blocks that exist at any moment
  tile the pool: the leaves below them are disjoint and cover every leaf. Splitting a block
  and merging two buddies are the two steps that change a tiling.
\<close>

section \<open>Levels of nodes\<close>

fun depth :: "nat \<Rightarrow> nat" where
  "depth n = (if n < 2 then 0 else Suc (depth (n div 2)))"

declare depth.simps [simp del]

lemma depth_1 [simp]: "depth (Suc 0) = 0"
  by (subst depth.simps) simp

lemma depth_child:
  "0 < n \<Longrightarrow> depth (2 * n) = Suc (depth n)"
  "0 < n \<Longrightarrow> depth (Suc (2 * n)) = Suc (depth n)"
  by (simp_all add: depth.simps [of "2 * n"] depth.simps [of "Suc (2 * n)"])

lemma depth_bounds: "0 < n \<Longrightarrow> 2 ^ depth n \<le> n \<and> n < 2 * 2 ^ depth n"
proof (induction n rule: depth.induct)
  case (1 n)
  show ?case
  proof (cases "n < 2")
    case True
    with 1 show ?thesis by (simp add: depth.simps [of n])
  next
    case False
    with 1 have "2 ^ depth (n div 2) \<le> n div 2 \<and> n div 2 < 2 * 2 ^ depth (n div 2)" by simp
    then have "2 * 2 ^ depth (n div 2) \<le> n" "n < 2 * (2 * 2 ^ depth (n div 2))" by auto
    with False show ?thesis by (simp add: depth.simps [of n])
  qed
qed

lemma depth_eqI:
  assumes "2 ^ d \<le> n" "n < 2 * 2 ^ d"
  shows "depth n = d"
proof -
  have "0 < n" using assms(1) by (metis gr0I not_less_eq_eq power_not_zero le_0_eq zero_neq_numeral)
  then have "2 ^ depth n \<le> n" "n < 2 * 2 ^ depth n" using depth_bounds by blast+
  with assms have "(2::nat) ^ d < 2 ^ Suc (depth n)" "(2::nat) ^ depth n < 2 ^ Suc d"
    by simp_all
  then have "d < Suc (depth n)" "depth n < Suc d"
    by (metis power_less_imp_less_exp one_less_numeral_iff semiring_norm(76))+
  then show ?thesis by simp
qed

lemma depth_less: "0 < n \<Longrightarrow> n < 2 ^ L \<Longrightarrow> depth n < L"
proof -
  assume "0 < n" "n < 2 ^ L"
  then have "(2::nat) ^ depth n < 2 ^ L" using depth_bounds [of n] by linarith
  then show ?thesis by (rule power_less_imp_less_exp [rotated]) simp
qed

lemma depth_mono_node: "0 < n \<Longrightarrow> depth n < L \<Longrightarrow> n < 2 ^ L"
proof -
  assume "0 < n" "depth n < L"
  then have "(2::nat) ^ Suc (depth n) \<le> 2 ^ L" by (intro power_increasing) simp_all
  with depth_bounds [of n] \<open>0 < n\<close> show ?thesis by simp
qed

text \<open>The index of a node within its level.\<close>

definition index :: "nat \<Rightarrow> nat" where
  "index n = n - 2 ^ depth n"

lemma node_eq: "0 < n \<Longrightarrow> n = 2 ^ depth n + index n"
  using depth_bounds [of n] by (simp add: index_def)

lemma index_less: "0 < n \<Longrightarrow> index n < 2 ^ depth n"
  using depth_bounds [of n] unfolding index_def by linarith

lemma depth_node: "i < 2 ^ d \<Longrightarrow> depth (2 ^ d + i) = d"
  by (rule depth_eqI) simp_all

lemma index_node: "i < 2 ^ d \<Longrightarrow> index (2 ^ d + i) = i"
  by (simp add: index_def depth_node)

section \<open>Siblings\<close>

lemma sibling_sibling [simp]: "sibling (sibling n) = n"
  by (auto simp: sibling_def)

lemma sibling_neq [simp]: "sibling n \<noteq> n"
  by (auto simp: sibling_def elim: oddE)

lemma sibling_child: "sibling (2 * n) = 2 * n + 1" "sibling (2 * n + 1) = 2 * n"
  by (simp_all add: sibling_def)

lemma sibling_div_2 [simp]: "sibling n div 2 = n div 2"
  by (auto simp: sibling_def elim: evenE oddE)

lemma sibling_div_power: "0 < j \<Longrightarrow> sibling n div 2 ^ j = n div 2 ^ j"
  by (cases j) (simp_all only: power_Suc div_mult2_eq sibling_div_2 less_irrefl)

lemma sibling_less_pow2: "i < 2 ^ d \<Longrightarrow> 0 < d \<Longrightarrow> sibling i < 2 ^ d"
proof -
  assume i: "i < 2 ^ d" and d: "0 < d"
  show "sibling i < 2 ^ d"
  proof (cases "even i")
    case True
    then have "i + 1 \<noteq> 2 ^ d" using d by (metis even_power even_add odd_one even_numeral)
    with i True show ?thesis by (simp add: sibling_def)
  qed (use i in \<open>simp add: sibling_def\<close>)
qed

lemma sibling_node:
  assumes "0 < d"
  shows "sibling (2 ^ d + i) = 2 ^ d + sibling i"
  using assms by (auto simp: sibling_def elim: oddE)

lemma sibling_facts:
  assumes "2 \<le> n"
  shows depth_sibling: "depth (sibling n) = depth n"
    and index_sibling: "index (sibling n) = sibling (index n)"
    and sibling_ge_2: "2 \<le> sibling n"
proof -
  have d: "0 < depth n" using assms by (simp add: depth.simps [of n])
  have s: "sibling n = 2 ^ depth n + sibling (index n)"
    using node_eq [of n] assms sibling_node [OF d, of "index n"] by simp
  have l: "sibling (index n) < 2 ^ depth n"
    using assms d by (intro sibling_less_pow2 index_less) simp_all
  show "depth (sibling n) = depth n" unfolding s by (rule depth_node [OF l])
  show "index (sibling n) = sibling (index n)" unfolding s by (rule index_node [OF l])
  have "(2::nat) ^ 1 \<le> 2 ^ depth n" using d by (intro power_increasing) simp_all
  with s show "2 \<le> sibling n" by simp
qed

lemma node_cases_children:
  obtains "n = 2 * (n div 2)" "sibling n = 2 * (n div 2) + 1"
  | "n = 2 * (n div 2) + 1" "sibling n = 2 * (n div 2)"
  by (cases "even n") (auto simp: sibling_def elim!: evenE oddE)

lemma depth_parent: "2 \<le> n \<Longrightarrow> depth n = Suc (depth (n div 2))"
  by (simp add: depth.simps [of n])

lemma index_parent: "2 \<le> n \<Longrightarrow> index (n div 2) = index n div 2"
proof -
  assume n: "2 \<le> n"
  have e: "n = 2 * 2 ^ depth (n div 2) + index n"
    using node_eq [of n] n by (simp add: depth_parent)
  then have "n div 2 = 2 ^ depth (n div 2) + index n div 2"
    by (metis add.commute div_mult_self4 zero_neq_numeral)
  then show ?thesis by (metis add_diff_cancel_left' index_def)
qed

section \<open>Leaves below a node\<close>

definition under :: "nat \<Rightarrow> nat \<Rightarrow> nat set" where
  "under L n = {n * 2 ^ (L - 1 - depth n) ..< Suc n * 2 ^ (L - 1 - depth n)}"

lemma mem_under: "q \<in> under L n \<longleftrightarrow> q div 2 ^ (L - 1 - depth n) = n"
proof -
  have "q div 2 ^ e = n \<longleftrightarrow> n * 2 ^ e \<le> q \<and> q < Suc n * 2 ^ e" for e
    by (metis div_nat_eqI dividend_less_times_div mult.commute mult_Suc_right
        times_div_less_eq_dividend zero_less_numeral zero_less_power add.commute)
  then show ?thesis by (simp add: under_def)
qed

lemma under_nonempty: "under L n \<noteq> {}"
  by (simp add: under_def)

lemma under_children:
  assumes "0 < n" "Suc (depth n) < L"
  shows "under L n = under L (2 * n) \<union> under L (2 * n + 1)"
    and "disjnt (under L (2 * n)) (under L (2 * n + 1))"
proof -
  obtain e where e: "L - 1 - depth n = Suc e" using assms(2)
    by (metis Suc_diff_Suc Suc_lessD diff_Suc_1 diff_commute less_diff_conv plus_1_eq_Suc)
  then have e': "L - 1 - Suc (depth n) = e" by simp
  have "q div 2 ^ Suc e = n \<longleftrightarrow> q div 2 ^ e = 2 * n \<or> q div 2 ^ e = 2 * n + 1" for q
  proof -
    have "q div 2 ^ Suc e = q div 2 ^ e div 2" by (simp add: div_mult2_eq [symmetric] mult.commute)
    then show ?thesis by auto
  qed
  then show "under L n = under L (2 * n) \<union> under L (2 * n + 1)"
    using assms(1) e e' by (auto simp: mem_under depth_child simp del: power_Suc)
  show "disjnt (under L (2 * n)) (under L (2 * n + 1))"
    using assms(1) by (auto simp: disjnt_iff mem_under depth_child)
qed

text \<open>Two nodes whose leaves meet are nested, the shallower one being the ancestor.\<close>

lemma under_nested:
  assumes "q \<in> under L m" "q \<in> under L n" "depth m \<le> depth n" "depth n < L"
  shows "n div 2 ^ (depth n - depth m) = m"
proof -
  have "L - 1 - depth m = (L - 1 - depth n) + (depth n - depth m)" using assms(3,4) by simp
  then have "q div 2 ^ (L - 1 - depth m) = q div 2 ^ (L - 1 - depth n) div 2 ^ (depth n - depth m)"
    by (simp add: power_add div_mult2_eq)
  with assms(1,2) show ?thesis by (simp add: mem_under)
qed

lemma under_ancestor:
  assumes "n div 2 ^ (depth n - depth m) = m" "depth m \<le> depth n" "depth n < L"
  shows "under L n \<subseteq> under L m"
proof
  fix q assume q: "q \<in> under L n"
  have "L - 1 - depth m = (L - 1 - depth n) + (depth n - depth m)" using assms(2,3) by simp
  then have "q div 2 ^ (L - 1 - depth m) = q div 2 ^ (L - 1 - depth n) div 2 ^ (depth n - depth m)"
    by (simp add: power_add div_mult2_eq)
  with assms(1) q show "q \<in> under L m" by (simp add: mem_under)
qed

lemma under_root:
  assumes "0 < n" "depth n < L"
  shows "under L n \<subseteq> under L 1"
proof (rule under_ancestor)
  have "n div 2 ^ depth n = 1"
    using depth_bounds [OF assms(1)] by (simp add: div_nat_eqI)
  then show "n div 2 ^ (depth n - depth 1) = 1" by simp
qed (use assms in simp_all)

section \<open>Tilings\<close>

definition tiling :: "nat \<Rightarrow> nat set \<Rightarrow> bool" where
  "tiling L A \<longleftrightarrow>
     (\<forall>n\<in>A. 0 < n \<and> depth n < L) \<and>
     pairwise (\<lambda>m n. disjnt (under L m) (under L n)) A \<and>
     (\<Union>n\<in>A. under L n) = under L 1"

lemma tilingD:
  assumes "tiling L A"
  shows "n \<in> A \<Longrightarrow> 0 < n" "n \<in> A \<Longrightarrow> depth n < L"
    and "m \<in> A \<Longrightarrow> n \<in> A \<Longrightarrow> m \<noteq> n \<Longrightarrow> disjnt (under L m) (under L n)"
    and "(\<Union>n\<in>A. under L n) = under L 1"
  using assms by (auto simp: tiling_def pairwise_def)

lemma tiling_root: "0 < L \<Longrightarrow> tiling L {1}"
  by (simp add: tiling_def)

lemma tiling_subset: "tiling L A \<Longrightarrow> A \<subseteq> {1..<2 ^ L}"
  using depth_mono_node by (auto simp: tiling_def)

lemma tiling_finite: "tiling L A \<Longrightarrow> finite A"
  using tiling_subset finite_subset by blast

text \<open>Nodes of a tiling are not ancestors of one another.\<close>

lemma tiling_no_nesting:
  assumes "tiling L A" "m \<in> A" "n \<in> A" "under L n \<subseteq> under L m"
  shows "m = n"
proof (rule ccontr)
  assume "m \<noteq> n"
  with tilingD(3) [OF assms(1,2,3)] have "disjnt (under L m) (under L n)" by blast
  with assms(4) under_nonempty [of L n] show False by (auto simp: disjnt_def)
qed

lemma under_child_subset:
  assumes "0 < n" "Suc (depth n) < L"
  shows "under L (2 * n) \<subseteq> under L n" "under L (2 * n + 1) \<subseteq> under L n"
  using under_children(1) [OF assms] by auto

text \<open>
  One step of splitting or merging: a block \<open>c\<close> and its two halves cover the same leaves.
  \<open>c\<close> and the halves stand outside \<open>A\<close>, the other blocks.
\<close>

lemma tiling_split:
  assumes t: "tiling L (insert c A)" and c: "c \<notin> A" and d: "Suc (depth c) < L"
  shows "tiling L (insert (2 * c) (insert (2 * c + 1) A))"
    and "2 * c \<notin> A" and "2 * c + 1 \<notin> A"
proof -
  have c0: "0 < c" using tilingD(1) [OF t] by blast
  note ch = under_children [OF c0 d]
  have out: "n \<noteq> 2 * c" "n \<noteq> 2 * c + 1" if "n \<in> A" for n
  proof -
    have "n \<noteq> c" using that c by blast
    then have "\<not> under L n \<subseteq> under L c"
      using tiling_no_nesting [OF t, of c n] that by blast
    with under_child_subset [OF c0 d] show "n \<noteq> 2 * c" "n \<noteq> 2 * c + 1" by auto
  qed
  then show "2 * c \<notin> A" "2 * c + 1 \<notin> A" by blast+
  have cA: "disjnt (under L c) (under L n)" "disjnt (under L n) (under L c)" if "n \<in> A" for n
  proof -
    have "c \<noteq> n" using that c by blast
    with tilingD(3) [OF t, of c n] that
    show "disjnt (under L c) (under L n)" "disjnt (under L n) (under L c)"
      by (simp_all add: disjnt_sym)
  qed
  have halves: "disjnt (under L (2 * c)) (under L n)" "disjnt (under L (2 * c + 1)) (under L n)"
    "disjnt (under L n) (under L (2 * c))" "disjnt (under L n) (under L (2 * c + 1))"
    if "n \<in> A" for n
    using cA [OF that] ch(1) by (auto simp: disjnt_iff)
  have "pairwise (\<lambda>m n. disjnt (under L m) (under L n)) (insert (2 * c) (insert (2 * c + 1) A))"
    using t halves ch(2) unfolding tiling_def pairwise_insert
    by (auto simp: disjnt_sym)
  moreover have "(\<Union>n\<in>insert (2 * c) (insert (2 * c + 1) A). under L n) = under L 1"
    using tilingD(4) [OF t] ch(1) by auto
  ultimately show "tiling L (insert (2 * c) (insert (2 * c + 1) A))"
    using t d c0 by (auto simp: tiling_def depth_child)
qed

lemma tiling_merge:
  assumes t: "tiling L (insert (2 * c) (insert (2 * c + 1) A))" and c: "0 < c"
    and A: "2 * c \<notin> A" "2 * c + 1 \<notin> A"
  shows "tiling L (insert c A)" and "c \<notin> A"
proof -
  have d: "Suc (depth c) < L" using tilingD(2) [OF t, of "2 * c"] c by (simp add: depth_child)
  note ch = under_children [OF c d]
  have cA: "disjnt (under L c) (under L n)" if "n \<in> A" for n
  proof -
    have "disjnt (under L (2 * c)) (under L n)" "disjnt (under L (2 * c + 1)) (under L n)"
      using tilingD(3) [OF t, of "2 * c" n] tilingD(3) [OF t, of "2 * c + 1" n] that A by auto
    with ch(1) show ?thesis by (auto simp: disjnt_iff)
  qed
  show "c \<notin> A"
    using cA [of c] under_nonempty [of L c] by (auto simp: disjnt_def)
  have "pairwise (\<lambda>m n. disjnt (under L m) (under L n)) (insert c A)"
    using t cA unfolding tiling_def pairwise_insert by (auto simp: disjnt_sym)
  moreover have "(\<Union>n\<in>insert c A. under L n) = under L 1"
    using tilingD(4) [OF t] ch(1) by auto
  ultimately show "tiling L (insert c A)"
    using t c d by (auto simp: tiling_def)
qed

text \<open>The same step seen from one of two buddies, as the code sees it.\<close>

lemma tiling_merge_sibling:
  assumes t: "tiling L (insert n (insert (sibling n) A))" and n: "2 \<le> n"
    and A: "n \<notin> A" "sibling n \<notin> A"
  shows "tiling L (insert (n div 2) A)" and "n div 2 \<notin> A"
proof -
  have c: "0 < n div 2" using n by simp
  have e: "insert n (insert (sibling n) A) =
             insert (2 * (n div 2)) (insert (2 * (n div 2) + 1) A)"
    by (cases rule: node_cases_children [of n]) auto
  have A': "2 * (n div 2) \<notin> A" "2 * (n div 2) + 1 \<notin> A"
    using A by (cases rule: node_cases_children [of n]; simp)+
  show "tiling L (insert (n div 2) A)" "n div 2 \<notin> A"
    using tiling_merge [OF t [unfolded e] c A'] by blast+
qed

text \<open>
  If the blocks \<open>R\<close> (the free ones) contain no pair of buddies, a region all of whose blocks
  are in \<open>R\<close> lies inside a single one of them: the deepest blocks of the region could not be
  paired otherwise.
\<close>

lemma region_in_one_block:
  assumes t: "tiling L A" and RA: "R \<subseteq> A"
    and nob: "\<And>n. n \<in> R \<Longrightarrow> 2 \<le> n \<Longrightarrow> sibling n \<notin> R"
    and m: "0 < m" "depth m < L"
    and reg: "\<And>x. x \<in> A \<Longrightarrow> under L x \<inter> under L m \<noteq> {} \<Longrightarrow> x \<in> R"
  shows "\<exists>r\<in>R. under L m \<subseteq> under L r"
proof -
  let ?X = "{x \<in> A. under L x \<inter> under L m \<noteq> {}}"
  have cover: "\<exists>x\<in>A. q \<in> under L x" if "q \<in> under L m" for q
    using that under_root [OF m] tilingD(4) [OF t] by auto
  then have "?X \<noteq> {}" using under_nonempty [of L m] by blast
  moreover have "finite ?X" using tiling_finite [OF t] by simp
  ultimately have "Max (depth ` ?X) \<in> depth ` ?X" by (intro Max_in) simp_all
  then obtain n where nX: "Max (depth ` ?X) = depth n" "n \<in> ?X" by (rule imageE)
  then have n: "n \<in> A" "under L n \<inter> under L m \<noteq> {}" "depth n = Max (depth ` ?X)" by simp_all
  have max: "depth x \<le> depth n" if "x \<in> A" "under L x \<inter> under L m \<noteq> {}" for x
    unfolding n(3) using that \<open>finite ?X\<close> by (intro Max_ge) simp_all
  have nR: "n \<in> R" using reg n by blast
  have dn: "depth n < L" using tilingD(2) [OF t n(1)] .
  have "depth n \<le> depth m"
  proof (rule ccontr)
    assume "\<not> depth n \<le> depth m"
    then have dm: "depth m < depth n" by simp
    then have "n \<noteq> Suc 0" by (intro notI) simp
    with tilingD(1) [OF t n(1)] have n2: "2 \<le> n" by simp
    note sd = depth_sibling [OF n2]
    obtain q0 where "q0 \<in> under L n" "q0 \<in> under L m" using n(2) by blast
    then have anc: "n div 2 ^ (depth n - depth m) = m"
      using under_nested dm dn by simp
    then have sanc: "sibling n div 2 ^ (depth (sibling n) - depth m) = m"
      using sibling_div_power [of "depth n - depth m" n] sd dm by simp
    have sm: "under L (sibling n) \<subseteq> under L m"
      using under_ancestor [OF sanc] sd dm dn by simp
    obtain q where q: "q \<in> under L (sibling n)" using under_nonempty by blast
    with sm cover obtain x where x: "x \<in> A" "q \<in> under L x" by blast
    have xm: "under L x \<inter> under L m \<noteq> {}" using x q sm by blast
    then have xR: "x \<in> R" and dx: "depth x \<le> depth (sibling n)"
      using reg x(1) max sd by auto
    have xanc: "sibling n div 2 ^ (depth n - depth x) = x"
      using under_nested [OF x(2) q dx] sd dn by simp
    show False
    proof (cases "depth x = depth n")
      case True
      with xanc xR nob [OF nR n2] show False by simp
    next
      case False
      with dx sd have lt: "depth x < depth n" by simp
      then have "n div 2 ^ (depth n - depth x) = x" using sibling_div_power [of "depth n - depth x" n] xanc by simp
      then have "under L n \<subseteq> under L x" using under_ancestor lt dn by (metis less_imp_le)
      with tiling_no_nesting [OF t x(1) n(1)] lt show False by simp
    qed
  qed
  moreover obtain q0 where "q0 \<in> under L n" "q0 \<in> under L m" using n(2) by blast
  ultimately have "m div 2 ^ (depth m - depth n) = n"
    using under_nested m(2) by simp
  then have "under L m \<subseteq> under L n"
    using under_ancestor \<open>depth n \<le> depth m\<close> m(2) by blast
  with nR show ?thesis by blast
qed

lemma root_alone:
  assumes "tiling L A" "1 \<in> A"
  shows "A = {1}"
proof -
  have "m = 1" if "m \<in> A" for m
  proof -
    have "under L m \<subseteq> under L 1" using tilingD(4) [OF assms(1)] that by blast
    then show ?thesis using tiling_no_nesting [OF assms(1) assms(2) that] by simp
  qed
  with assms(2) show ?thesis by blast
qed

lemma under_root_only:
  assumes "under L 1 \<subseteq> under L n" "0 < n" "depth n < L"
  shows "n = 1"
proof -
  obtain q where q: "q \<in> under L 1" using under_nonempty by blast
  have "depth n = 0"
  proof (rule ccontr)
    assume d: "depth n \<noteq> 0"
    have "card (under L 1) \<le> card (under L n)"
      using assms(1) by (rule card_mono [rotated]) (simp add: under_def)
    then have "(2::nat) ^ (L - 1) \<le> 2 ^ (L - 1 - depth n)" by (simp add: under_def)
    then have "L - 1 \<le> L - 1 - depth n"
      by (metis one_less_numeral_iff power_increasing_iff semiring_norm(76))
    with d assms(3) show False by simp
  qed
  with assms(2) depth_bounds [OF assms(2)] show ?thesis by simp
qed

text \<open>In particular a pool with no pair of buddies among all its blocks is one block.\<close>

lemma tiling_without_buddies:
  assumes t: "tiling L A" and nob: "\<And>n. n \<in> A \<Longrightarrow> 2 \<le> n \<Longrightarrow> sibling n \<notin> A" and L: "0 < L"
  shows "A = {1}"
proof -
  obtain r where r: "r \<in> A" "under L 1 \<subseteq> under L r"
    using region_in_one_block [OF t subset_refl nob, of 1] L by auto
  with under_root_only [OF r(2)] tilingD(1,2) [OF t r(1)] have "1 \<in> A" by simp
  with t show ?thesis by (rule root_alone)
qed

section \<open>Address ranges\<close>

text \<open>The bytes of a node in a pool of \<open>2 ^ S\<close> bytes.\<close>

definition bytes_of :: "nat \<Rightarrow> nat \<Rightarrow> nat set" where
  "bytes_of S n = {index n * 2 ^ (S - depth n) ..< Suc (index n) * 2 ^ (S - depth n)}"

lemma mem_bytes_of: "b \<in> bytes_of S n \<longleftrightarrow> b div 2 ^ (S - depth n) = index n"
proof -
  have "b div 2 ^ e = i \<longleftrightarrow> i * 2 ^ e \<le> b \<and> b < Suc i * 2 ^ e" for e i
    by (metis div_nat_eqI dividend_less_times_div mult.commute mult_Suc_right
        times_div_less_eq_dividend zero_less_numeral zero_less_power add.commute)
  then show ?thesis by (simp add: bytes_of_def)
qed

lemma bytes_of_leaf:
  assumes "0 < n" "depth n < L" "S = k + (L - 1)"
  shows "b \<in> bytes_of S n \<longleftrightarrow> 2 ^ (L - 1) + b div 2 ^ k \<in> under L n"
proof -
  let ?d = "depth n" and ?D = "L - 1"
  have D: "?D = (?D - ?d) + ?d" "S - ?d = k + (?D - ?d)" using assms by simp_all
  have "(2 ^ ?D + b div 2 ^ k) div 2 ^ (?D - ?d) = 2 ^ ?d + b div 2 ^ k div 2 ^ (?D - ?d)"
    by (subst (1) D(1)) (simp add: power_add)
  also have "b div 2 ^ k div 2 ^ (?D - ?d) = b div 2 ^ (S - ?d)"
    by (simp add: D(2) power_add div_mult2_eq)
  finally have "2 ^ ?D + b div 2 ^ k \<in> under L n \<longleftrightarrow> 2 ^ ?d + b div 2 ^ (S - ?d) = n"
    by (simp add: mem_under)
  also have "\<dots> \<longleftrightarrow> b div 2 ^ (S - ?d) = index n"
    using node_eq [OF assms(1)] by linarith
  finally show ?thesis by (simp add: mem_bytes_of)
qed

text \<open>The blocks of a tiling occupy disjoint byte ranges that together are the pool.\<close>

lemma tiling_bytes:
  assumes t: "tiling L A" and S: "S = k + (L - 1)" and L: "0 < L"
  shows "m \<in> A \<Longrightarrow> n \<in> A \<Longrightarrow> m \<noteq> n \<Longrightarrow> bytes_of S m \<inter> bytes_of S n = {}"
    and "(\<Union>n\<in>A. bytes_of S n) = {..<2 ^ S}"
proof -
  have leaf: "b \<in> bytes_of S n \<longleftrightarrow> 2 ^ (L - 1) + b div 2 ^ k \<in> under L n" if "n \<in> A" for b n
    using bytes_of_leaf [OF _ _ S] tilingD(1,2) [OF t that] by blast
  show "bytes_of S m \<inter> bytes_of S n = {}" if "m \<in> A" "n \<in> A" "m \<noteq> n"
    using tilingD(3) [OF t that] leaf [OF that(1)] leaf [OF that(2)]
    by (auto simp: disjnt_iff)
  have r: "bytes_of S 1 = {..<2 ^ S}" by (auto simp: bytes_of_def index_def)
  show "(\<Union>n\<in>A. bytes_of S n) = {..<2 ^ S}"
  proof (rule set_eqI)
    fix b
    have "b \<in> (\<Union>n\<in>A. bytes_of S n) \<longleftrightarrow> 2 ^ (L - 1) + b div 2 ^ k \<in> (\<Union>n\<in>A. under L n)"
      using leaf by auto
    also have "\<dots> \<longleftrightarrow> b \<in> bytes_of S 1"
      unfolding tilingD(4) [OF t] using bytes_of_leaf [OF _ _ S, of 1 b] L by simp
    finally show "b \<in> (\<Union>n\<in>A. bytes_of S n) \<longleftrightarrow> b \<in> {..<2 ^ S}" unfolding r .
  qed
qed

end
