(* ===== verification/Buddy_State.thy ===== *)
theory Buddy_State
  imports Buddy_Alloc Buddy_Tree
begin

text \<open>
  What the allocator's memory means: the doubly linked free lists inside the block array, the
  abstraction of a state to three sets of tree nodes (\<open>A\<close>: active blocks, \<open>R\<close>: blocks in the
  free lists, \<open>T\<close>: blocks whose \<open>is_allocated\<close> flag is set), and the effect of each list and
  block primitive of the code on these sets.
\<close>

section \<open>Doubly linked segments\<close>

text \<open>
  \<open>dlseg nx pv pr h ps la e\<close>: following \<open>nx\<close> from \<open>h\<close> visits \<open>ps\<close> and ends at \<open>e\<close>; the
  \<open>pv\<close> pointers run backwards, the first one being \<open>pr\<close>; \<open>la\<close> is the last cell (or \<open>pr\<close>).
\<close>

primrec dlseg ::
  "(nat \<Rightarrow> blk_ptr) \<Rightarrow> (nat \<Rightarrow> blk_ptr) \<Rightarrow> blk_ptr \<Rightarrow> blk_ptr \<Rightarrow> nat list \<Rightarrow> blk_ptr \<Rightarrow> blk_ptr \<Rightarrow> bool"
where
  "dlseg nx pv pr h [] la e \<longleftrightarrow> h = e \<and> la = pr"
| "dlseg nx pv pr h (p # ps) la e \<longleftrightarrow> h = Some p \<and> pv p = pr \<and> dlseg nx pv (Some p) (nx p) ps la e"

definition dlist :: "(nat \<Rightarrow> blk_ptr) \<Rightarrow> (nat \<Rightarrow> blk_ptr) \<Rightarrow> blk_ptr \<Rightarrow> nat list \<Rightarrow> bool" where
  "dlist nx pv h ps \<longleftrightarrow> (\<exists>la. dlseg nx pv None h ps la None)"

lemma dlseg_append:
  "dlseg nx pv pr h (ps @ qs) la e \<longleftrightarrow>
     (\<exists>m n. dlseg nx pv pr h ps m n \<and> dlseg nx pv m n qs la e)"
  by (induction ps arbitrary: pr h) auto

lemma dlseg_frame:
  assumes "\<And>p. p \<in> set ps \<Longrightarrow> nx' p = nx p" "\<And>p. p \<in> set ps \<Longrightarrow> pv' p = pv p"
  shows "dlseg nx' pv' pr h ps la e \<longleftrightarrow> dlseg nx pv pr h ps la e"
  using assms by (induction ps arbitrary: pr h) auto

lemma dlist_frame:
  assumes "\<And>p. p \<in> set ps \<Longrightarrow> nx' p = nx p" "\<And>p. p \<in> set ps \<Longrightarrow> pv' p = pv p"
  shows "dlist nx' pv' h ps \<longleftrightarrow> dlist nx pv h ps"
  unfolding dlist_def by (intro arg_cong [where f = Ex] ext dlseg_frame assms)

text \<open>Redirecting the link out of, or the back link into, a segment.\<close>

lemma dlseg_new_end:
  assumes "dlseg nx pv pr h ps la e" "distinct ps" "ps \<noteq> []"
  shows "la = Some (last ps) \<and> dlseg (nx(last ps := e')) pv pr h ps la e'"
  using assms
proof (induction ps arbitrary: pr h)
  case Nil
  then show ?case by simp
next
  case (Cons p ps)
  show ?case
  proof (cases "ps = []")
    case True
    with Cons.prems show ?thesis by simp
  next
    case False
    with Cons.prems have "p \<noteq> last ps" by auto
    with Cons False show ?thesis by auto
  qed
qed

lemma dlseg_new_start:
  assumes "dlseg nx pv pr h ps la e" "distinct ps" "ps \<noteq> []"
  shows "\<exists>la'. h = Some (hd ps) \<and> dlseg nx (pv(hd ps := pr')) pr' h ps la' e"
proof (cases ps)
  case (Cons p qs)
  with assms have "dlseg nx pv (Some p) (nx p) qs la e" "p \<notin> set qs" "h = Some p" by auto
  moreover have "dlseg nx (pv(p := pr')) (Some p) (nx p) qs la e \<longleftrightarrow>
                   dlseg nx pv (Some p) (nx p) qs la e"
    using \<open>p \<notin> set qs\<close> by (intro dlseg_frame) auto
  ultimately show ?thesis using Cons by auto
qed (use assms in simp)

text \<open>Pushing a new cell.\<close>

lemma dlist_push:
  assumes "dlist nx pv h ps" "p \<notin> set ps" "distinct ps"
  shows "dlist (nx(p := h)) ((case h of None \<Rightarrow> pv | Some q \<Rightarrow> pv(q := Some p))(p := None))
           (Some p) (p # ps)"
proof (cases ps)
  case Nil
  with assms show ?thesis by (auto simp: dlist_def)
next
  case (Cons q qs)
  from assms(1) obtain la where s: "dlseg nx pv None h ps la None" by (auto simp: dlist_def)
  with Cons have h: "h = Some q" by simp
  obtain la' where "dlseg nx (pv(q := Some p)) (Some p) h ps la' None"
    using dlseg_new_start [OF s assms(3), of "Some p"] Cons by auto
  then have "dlseg (nx(p := h)) ((pv(q := Some p))(p := None)) (Some p) h ps la' None"
    using assms(2) by (subst dlseg_frame [where nx = nx and pv = "pv(q := Some p)"]) auto
  with h show ?thesis by (auto simp: dlist_def)
qed

text \<open>Unlinking a cell, wherever it is.\<close>

definition unlink_next :: "(nat \<Rightarrow> blk_ptr) \<Rightarrow> blk_ptr \<Rightarrow> blk_ptr \<Rightarrow> nat \<Rightarrow> blk_ptr" where
  "unlink_next nx m n = (case m of None \<Rightarrow> nx | Some a \<Rightarrow> nx(a := n))"

lemma dlist_unlink:
  assumes d: "dlist nx pv h (ps @ p # qs)" and dist: "distinct (ps @ p # qs)"
  shows "dlist (unlink_next nx (pv p) (nx p)) (unlink_next pv (nx p) (pv p))
           (if pv p = None then nx p else h) (ps @ qs)"
    and "pv p = None \<longleftrightarrow> ps = []"
    and "\<And>a. pv p = Some a \<Longrightarrow> a \<in> set ps" and "\<And>c. nx p = Some c \<Longrightarrow> c \<in> set qs"
proof -
  from d obtain la m where
    s1: "dlseg nx pv None h ps m (Some p)" and m: "pv p = m" and
    s2: "dlseg nx pv (Some p) (nx p) qs la None"
    by (auto simp: dlist_def dlseg_append)
  have dps: "distinct ps" "distinct qs" "set ps \<inter> set qs = {}" "p \<notin> set ps" "p \<notin> set qs"
    using dist by auto
  have mps: "m = (if ps = [] then None else Some (last ps))"
    using s1 dlseg_new_end [OF s1 dps(1)] by auto
  have nqs: "nx p = (if qs = [] then None else Some (hd qs))"
    using s2 by (cases qs) auto
  show "pv p = None \<longleftrightarrow> ps = []" using m mps by simp
  show "\<And>a. pv p = Some a \<Longrightarrow> a \<in> set ps" "\<And>c. nx p = Some c \<Longrightarrow> c \<in> set qs"
    using m mps nqs by (auto split: if_splits)
  let ?nx = "unlink_next nx (pv p) (nx p)" and ?pv = "unlink_next pv (nx p) (pv p)"
  let ?h = "if pv p = None then nx p else h"
  have t1: "dlseg ?nx ?pv None ?h ps m (nx p)"
  proof (cases "ps = []")
    case True
    with m mps show ?thesis by simp
  next
    case False
    have "dlseg (nx(last ps := nx p)) pv None h ps m (nx p)"
      using dlseg_new_end [OF s1 dps(1) False] by blast
    then have "dlseg ?nx ?pv None h ps m (nx p)"
      using False m mps nqs dps(3)
      by (subst dlseg_frame [where nx = "nx(last ps := nx p)" and pv = pv])
         (auto simp: unlink_next_def split: option.splits)
    with False m mps show ?thesis by simp
  qed
  have t2: "\<exists>la'. dlseg ?nx ?pv m (nx p) qs la' None"
  proof (cases "qs = []")
    case True
    with nqs show ?thesis by simp
  next
    case False
    obtain la' where l: "dlseg nx (pv(hd qs := m)) m (nx p) qs la' None"
      using dlseg_new_start [OF s2 dps(2) False, of m] by blast
    have "last ps \<notin> set qs" if "ps \<noteq> []"
      using last_in_set [OF that] dps(3) by blast
    with l have "dlseg ?nx ?pv m (nx p) qs la' None"
      using False m mps nqs
      by (subst dlseg_frame [where nx = nx and pv = "pv(hd qs := m)"])
         (auto simp: unlink_next_def split: option.splits)
    then show ?thesis by blast
  qed
  show "dlist ?nx ?pv ?h (ps @ qs)"
    unfolding dlist_def dlseg_append using t1 t2 by blast
qed

section \<open>Views of the block array\<close>

definition nxt :: "buddy_alloc \<Rightarrow> nat \<Rightarrow> blk_ptr" where
  "nxt b p = blk_next (blocks b ! p)"

definition prv :: "buddy_alloc \<Rightarrow> nat \<Rightarrow> blk_ptr" where
  "prv b p = blk_prev (blocks b ! p)"

text \<open>
  A pool of \<open>2 ^ k\<close>-byte minimal blocks with \<open>L\<close> levels. Up to 27 levels the 32-bit product of
  \<open>mem_pool_get_block\<close> does not wrap around.
\<close>

definition shape :: "nat \<Rightarrow> nat \<Rightarrow> buddy_alloc \<Rightarrow> bool" where
  "shape k L b \<longleftrightarrow>
     0 < L \<and> L \<le> 27 \<and> k + (L - 1) < 32 \<and>
     min_block_size b = pow2 k \<and> num_of_levels b = of_nat L \<and>
     length (free_list b) = L \<and>
     (\<exists>p. mem_pool_ptr b = Ptr p \<and> length (elements_array p) = 2 ^ L - 1 \<and>
          num_of_elements p = of_nat (2 ^ L - 1) \<and> size_of_element p = sizeof_block)"

text \<open>Size exponent and byte offset of a node.\<close>

definition size_exp :: "nat \<Rightarrow> nat \<Rightarrow> nat \<Rightarrow> nat" where
  "size_exp k L n = k + (L - 1) - depth n"

definition node_offset :: "nat \<Rightarrow> nat \<Rightarrow> nat \<Rightarrow> u32" where
  "node_offset k L n = of_nat (index n * 2 ^ size_exp k L n)"

definition node_block :: "buddy_alloc \<Rightarrow> nat \<Rightarrow> buddy_alloc_block" where
  "node_block b n = blocks b ! (n - 1)"

definition lists_ok :: "nat \<Rightarrow> buddy_alloc \<Rightarrow> nat set \<Rightarrow> (nat \<Rightarrow> nat list) \<Rightarrow> bool" where
  "lists_ok L b R F \<longleftrightarrow>
     (\<forall>l<L. dlist (nxt b) (prv b) (free_list b ! l) (F l) \<and> distinct (F l) \<and>
            set (F l) = {p. Suc p \<in> R \<and> depth (Suc p) = l})"

text \<open>
  The abstraction. \<open>A\<close>: the nodes whose slot is active; \<open>R\<close>: those in the free lists;
  \<open>T\<close>: those marked as allocated.
\<close>

definition wf :: "nat \<Rightarrow> nat \<Rightarrow> buddy_alloc \<Rightarrow> nat set \<Rightarrow> nat set \<Rightarrow> nat set \<Rightarrow> bool" where
  "wf k L b A R T \<longleftrightarrow>
     shape k L b \<and> A \<subseteq> {1..<2 ^ L} \<and> R \<subseteq> A \<and> T \<subseteq> A \<and>
     (\<forall>n\<in>{1..<2 ^ L}. is_active (node_block b n) \<longleftrightarrow> n \<in> A) \<and>
     (\<forall>n\<in>A. blk_level (node_block b n) = of_nat (depth n) \<and>
            blk_offset (node_block b n) = node_offset k L n \<and>
            (is_allocated (node_block b n) \<longleftrightarrow> n \<in> T)) \<and>
     (\<exists>F. lists_ok L b R F)"

section \<open>Facts about the shape\<close>

lemma shapeD:
  assumes "shape k L b"
  shows "0 < L" "L \<le> 27" "k + (L - 1) < 32" "min_block_size b = pow2 k"
    "num_of_levels b = of_nat L" "length (free_list b) = L" "length (blocks b) = 2 ^ L - 1"
  using assms by (auto simp: shape_def blocks_def)

lemma shape_pool:
  assumes "shape k L b"
  obtains p where "mem_pool_ptr b = Ptr p" "elements_array p = blocks b"
    "num_of_elements p = of_nat (2 ^ L - 1)" "size_of_element p = sizeof_block"
  using assms by (auto simp: shape_def blocks_def)

lemma slots_fit:
  assumes "L \<le> 27"
  shows "(2::nat) ^ L \<le> 134217728"
proof -
  have "(2::nat) ^ L \<le> 2 ^ 27" using assms by (intro power_increasing) simp_all
  then show ?thesis by simp
qed

lemma get_block_slot:
  assumes s: "shape k L b" and q: "q < 2 ^ L - 1"
  shows "mem_pool_get_block (mem_pool_ptr b) OutAddr (of_nat q) = Ok q"
proof -
  obtain p where p: "mem_pool_ptr b = Ptr p" "num_of_elements p = of_nat (2 ^ L - 1)"
    "size_of_element p = 24"
    using shape_pool [OF s] unfolding sizeof_block_def by metis
  define N :: nat where "N = 2 ^ L - 1"
  have fit: "N < 134217728" unfolding N_def using slots_fit [OF shapeD(2) [OF s]] by simp
  have qN: "q < N" using q by (simp add: N_def)
  have u: "unat (of_nat q :: u32) = q" "unat (of_nat N :: u32) = N"
    using qN fit by (simp_all add: unat_of_nat_lt)
  have "unat (of_nat q * 24 :: u32) = q * 24"
    using qN fit u(1) by (subst unat_mult_lem [THEN iffD1]) simp_all
  moreover have "\<not> of_nat N \<le> (of_nat q :: u32)"
    unfolding word_le_nat_alt u using qN by simp
  ultimately show ?thesis
    using p(1,3) unfolding p(2) [folded N_def]
    by (simp add: mem_pool_get_block_def Let_def p(2) [folded N_def])
qed

lemma blocks_set_blocks:
  "shape k L b \<Longrightarrow> blocks (set_blocks xs b) = xs"
  by (auto simp: shape_def blocks_def set_blocks_def)

lemma shape_set_blocks:
  "shape k L b \<Longrightarrow> length xs = length (blocks b) \<Longrightarrow> shape k L (set_blocks xs b)"
  by (auto simp: shape_def blocks_def set_blocks_def)

lemma set_blocks_simps [simp]:
  "free_list (set_blocks xs b) = free_list b"
  "num_of_levels (set_blocks xs b) = num_of_levels b"
  "min_block_size (set_blocks xs b) = min_block_size b"
  by (auto simp: set_blocks_def split: cptr.splits)

lemma blocks_free_list [simp]: "blocks (b\<lparr>free_list := h\<rparr>) = blocks b"
  by (simp add: blocks_def)

lemma shape_free_list: "shape k L b \<Longrightarrow> length h = L \<Longrightarrow> shape k L (b\<lparr>free_list := h\<rparr>)"
  by (auto simp: shape_def)

lemma nxt_prv_free_list [simp]: "nxt (b\<lparr>free_list := h\<rparr>) = nxt b" "prv (b\<lparr>free_list := h\<rparr>) = prv b"
  by (simp_all add: fun_eq_iff nxt_def prv_def)

section \<open>Updating one block\<close>

definition updb :: "nat \<Rightarrow> (buddy_alloc_block \<Rightarrow> buddy_alloc_block) \<Rightarrow> buddy_alloc \<Rightarrow> buddy_alloc" where
  "updb p f b = set_blocks ((blocks b)[p := f (blocks b ! p)]) b"

lemma upd_blk_Ok:
  "shape k L b \<Longrightarrow> p < 2 ^ L - 1 \<Longrightarrow> upd_blk p f b = (Ok (), updb p f b)"
  by (simp add: upd_blk_def updb_def shapeD)

lemma get_blk_Ok: "shape k L b \<Longrightarrow> p < 2 ^ L - 1 \<Longrightarrow> get_blk b p = Ok (blocks b ! p)"
  by (simp add: get_blk_def shapeD)

lemma blocks_updb: "shape k L b \<Longrightarrow> blocks (updb p f b) = (blocks b)[p := f (blocks b ! p)]"
  by (simp add: updb_def blocks_set_blocks)

lemma shape_updb: "shape k L b \<Longrightarrow> shape k L (updb p f b)"
  by (simp add: updb_def shape_set_blocks)

lemma updb_simps [simp]:
  "free_list (updb p f b) = free_list b"
  "num_of_levels (updb p f b) = num_of_levels b"
  "min_block_size (updb p f b) = min_block_size b"
  by (simp_all add: updb_def)

lemma nxt_updb:
  "shape k L b \<Longrightarrow> p < 2 ^ L - 1 \<Longrightarrow> nxt (updb p f b) = (nxt b)(p := blk_next (f (blocks b ! p)))"
  by (auto simp: fun_eq_iff nxt_def blocks_updb nth_list_update shapeD)

lemma prv_updb:
  "shape k L b \<Longrightarrow> p < 2 ^ L - 1 \<Longrightarrow> prv (updb p f b) = (prv b)(p := blk_prev (f (blocks b ! p)))"
  by (auto simp: fun_eq_iff prv_def blocks_updb nth_list_update shapeD)

lemma node_block_updb:
  assumes "shape k L b" "n \<in> {1..<2 ^ L}" "m \<in> {1..<2 ^ L}"
  shows "node_block (updb (n - 1) f b) m =
           (if m = n then f (node_block b n) else node_block b m)"
  using assms by (auto simp: node_block_def blocks_updb nth_list_update shapeD)

lemma node_block_free_list [simp]: "node_block (b\<lparr>free_list := h\<rparr>) n = node_block b n"
  by (simp add: node_block_def)

lemma slot_in_range: "n \<in> {1..<2 ^ L} \<Longrightarrow> n - 1 < 2 ^ L - (1 :: nat)"
  by auto

section \<open>Facts about well-formed states\<close>

lemma wfD:
  assumes "wf k L b A R T"
  shows "shape k L b" "A \<subseteq> {1..<2 ^ L}" "R \<subseteq> A" "T \<subseteq> A"
    and "n \<in> {1..<2 ^ L} \<Longrightarrow> is_active (node_block b n) \<longleftrightarrow> n \<in> A"
    and "n \<in> A \<Longrightarrow> blk_level (node_block b n) = of_nat (depth n)"
    and "n \<in> A \<Longrightarrow> blk_offset (node_block b n) = node_offset k L n"
    and "n \<in> A \<Longrightarrow> is_allocated (node_block b n) \<longleftrightarrow> n \<in> T"
  using assms by (simp_all add: wf_def)

lemma wf_lists: "wf k L b A R T \<Longrightarrow> \<exists>F. lists_ok L b R F"
  by (simp add: wf_def)

lemma lists_okD:
  assumes "lists_ok L b R F" "l < L"
  shows "dlist (nxt b) (prv b) (free_list b ! l) (F l)" "distinct (F l)"
    "set (F l) = {p. Suc p \<in> R \<and> depth (Suc p) = l}"
  using assms by (simp_all add: lists_ok_def)

lemma wf_get_blk:
  assumes "wf k L b A R T" "n \<in> {1..<2 ^ L}"
  shows "get_blk b (n - 1) = Ok (node_block b n)"
  using get_blk_Ok [OF wfD(1) [OF assms(1)] slot_in_range [OF assms(2)]]
  by (simp add: node_block_def)

lemma depth_less_levels: "n \<in> {1..<2 ^ L} \<Longrightarrow> depth n < L"
  by (simp add: depth_less)

lemma level_word:
  assumes "d < 64"
  shows "(ucast (of_nat d :: 6 word) :: u32) = of_nat d" "uint (of_nat d :: 6 word) = int d"
proof -
  have u: "unat (of_nat d :: 6 word) = d" using assms by (intro unat_of_nat_lt) simp
  have u32: "unat (of_nat d :: u32) = d" using assms by (intro unat_of_nat_lt) simp
  show "uint (of_nat d :: 6 word) = int d" using u by (simp add: uint_nat)
  have "unat (ucast (of_nat d :: 6 word) :: u32) = d"
    using assms by (simp add: unsigned_ucast_eq u take_bit_nat_eq_self)
  with u32 show "(ucast (of_nat d :: 6 word) :: u32) = of_nat d" by (simp add: unat_eq_iff [symmetric])
qed

lemma level_word_32: "d < 64 \<Longrightarrow> ucast (of_nat d :: u32) = (of_nat d :: 6 word)"
  by (simp add: unsigned_of_nat take_bit_nat_eq_self)

lemma unat_level: "d < 64 \<Longrightarrow> unat (of_nat d :: u32) = d"
  by (rule unat_of_nat_lt) simp

lemma node_offset_fits:
  assumes "shape k L b" "n \<in> {1..<2 ^ L}"
  shows "index n * 2 ^ size_exp k L n < 2 ^ 32" "size_exp k L n < 32"
proof -
  have d: "depth n < L" using depth_less_levels assms(2) .
  have s: "k + (L - 1) < 32" using shapeD [OF assms(1)] by simp
  show "size_exp k L n < 32" using s by (simp add: size_exp_def)
  have "index n * 2 ^ size_exp k L n < 2 ^ depth n * 2 ^ size_exp k L n"
    using index_less [of n] assms(2) by simp
  also have "\<dots> = 2 ^ (k + (L - 1))"
    using d by (simp add: power_add [symmetric] size_exp_def)
  also have "\<dots> \<le> (2 :: nat) ^ 32" using s by (intro power_increasing) simp_all
  finally show "index n * 2 ^ size_exp k L n < 2 ^ 32" .
qed

lemma node_slot:
  assumes "shape k L b" "n \<in> {1..<2 ^ L}"
  shows "calc_buddy_allocator_slot (node_offset k L n) (of_nat (depth n)) (pow2 (size_exp k L n)) =
           Ok (of_nat (n - 1))"
proof -
  have "depth n < 32" using depth_less_levels [OF assms(2)] shapeD(2) [OF assms(1)] by simp
  moreover have "2 ^ depth n - 1 + index n = n - 1"
    using node_eq [of n] assms(2) by simp
  ultimately show ?thesis
    unfolding node_offset_def using slot_pow2 node_offset_fits [OF assms] by metis
qed

section \<open>The primitives on the abstraction\<close>

text \<open>Changing the links of cells outside the free lists.\<close>

lemma lists_ok_frame:
  assumes "lists_ok L b R F" "free_list b' = free_list b"
    and "\<And>p. Suc p \<in> R \<Longrightarrow> nxt b' p = nxt b p" "\<And>p. Suc p \<in> R \<Longrightarrow> prv b' p = prv b p"
  shows "lists_ok L b' R F"
  unfolding lists_ok_def
proof (intro allI impI conjI)
  fix l assume l: "l < L"
  note d = lists_okD [OF assms(1) l]
  have "dlist (nxt b') (prv b') (free_list b ! l) (F l) \<longleftrightarrow> dlist (nxt b) (prv b) (free_list b ! l) (F l)"
    using d(3) assms(3,4) by (intro dlist_frame) auto
  with d show "dlist (nxt b') (prv b') (free_list b' ! l) (F l)" "distinct (F l)"
    "set (F l) = {p. Suc p \<in> R \<and> depth (Suc p) = l}"
    using assms(2) by simp_all
qed

text \<open>An update of the block of one node, given by what it makes of the block's fields.\<close>

lemma wf_updb:
  assumes w: "wf k L b A R T" and n: "n \<in> {1..<2 ^ L}"
    and links: "n \<notin> R \<or> blk_next (f (node_block b n)) = blk_next (node_block b n)
                       \<and> blk_prev (f (node_block b n)) = blk_prev (node_block b n)"
    and act: "is_active (f (node_block b n)) \<longleftrightarrow> n \<in> A'"
    and others: "A' - {n} = A - {n}" "T' - {n} = T - {n}" "R \<subseteq> A'" "T' \<subseteq> A'"
    and fields: "n \<in> A' \<Longrightarrow> blk_level (f (node_block b n)) = of_nat (depth n) \<and>
                   blk_offset (f (node_block b n)) = node_offset k L n \<and>
                   (is_allocated (f (node_block b n)) \<longleftrightarrow> n \<in> T')"
  shows "wf k L (updb (n - 1) f b) A' R T'"
proof -
  note s = wfD(1) [OF w]
  note nb = node_block_updb [OF s n]
  have same: "m \<in> A' \<longleftrightarrow> m \<in> A" "m \<in> T' \<longleftrightarrow> m \<in> T" if "m \<noteq> n" for m
    using others that by blast+
  have A': "A' \<subseteq> {1..<2 ^ L}" using others(1) wfD(2) [OF w] n by auto
  obtain F where F: "lists_ok L b R F" using wf_lists [OF w] by blast
  obtain q where q: "n = Suc q" using n by (cases n) auto
  then have q1: "n - 1 = q" "q < 2 ^ L - 1" using n by auto
  have "lists_ok L (updb (n - 1) f b) R F"
    unfolding q1(1)
  proof (rule lists_ok_frame [OF F])
    fix p assume p: "Suc p \<in> R"
    have e: "nxt b q = blk_next (node_block b n)" "prv b q = blk_prev (node_block b n)"
      "node_block b n = blocks b ! q"
      by (simp_all add: nxt_def prv_def node_block_def q)
    show "nxt (updb q f b) p = nxt b p" "prv (updb q f b) p = prv b p"
      using links p q e by (auto simp: nxt_updb [OF s q1(2)] prv_updb [OF s q1(2)])
  qed simp
  moreover have "\<forall>m\<in>{1..<2 ^ L}. is_active (node_block (updb (n - 1) f b) m) \<longleftrightarrow> m \<in> A'"
  proof
    fix m :: nat assume m: "m \<in> {1..<2 ^ L}"
    show "is_active (node_block (updb (n - 1) f b) m) \<longleftrightarrow> m \<in> A'"
      unfolding nb [OF m] using act same(1) [of m] wfD(5) [OF w m] by (cases "m = n") simp_all
  qed
  moreover have "\<forall>m\<in>A'. blk_level (node_block (updb (n - 1) f b) m) = of_nat (depth m) \<and>
            blk_offset (node_block (updb (n - 1) f b) m) = node_offset k L m \<and>
            (is_allocated (node_block (updb (n - 1) f b) m) \<longleftrightarrow> m \<in> T')"
  proof
    fix m assume m: "m \<in> A'"
    with A' have mr: "m \<in> {1..<2 ^ L}" by blast
    show "blk_level (node_block (updb (n - 1) f b) m) = of_nat (depth m) \<and>
            blk_offset (node_block (updb (n - 1) f b) m) = node_offset k L m \<and>
            (is_allocated (node_block (updb (n - 1) f b) m) \<longleftrightarrow> m \<in> T')"
      unfolding nb [OF mr] using m fields same [of m] wfD(6,7,8) [OF w, of m]
      by (cases "m = n") simp_all
  qed
  ultimately show ?thesis
    unfolding wf_def using shape_updb [OF s] A' others by blast
qed

lemma wf_create:
  assumes w: "wf k L b A R T" and n: "n \<in> {1..<2 ^ L}" "n \<notin> A"
  obtains b' where
    "create_new_block b (of_nat (depth n)) (node_offset k L n) (pow2 (size_exp k L n)) OutAddr =
       (Ok (n - 1), b')"
    "wf k L b' (insert n A) R T"
proof -
  note s = wfD(1) [OF w]
  have d: "depth n < 64" using depth_less_levels [OF n(1)] shapeD(2) [OF s] by simp
  obtain q where q: "n - 1 = q" "q < 2 ^ L - 1" using slot_in_range [OF n(1)] by blast
  let ?f = "\<lambda>x. x\<lparr>blk_level := ucast (of_nat (depth n) :: u32), blk_next := None, blk_prev := None,
               blk_offset := node_offset k L n, is_active := True, is_allocated := False\<rparr>"
  show ?thesis
  proof (rule that)
    show "create_new_block b (of_nat (depth n)) (node_offset k L n) (pow2 (size_exp k L n)) OutAddr =
       (Ok (n - 1), updb (n - 1) ?f b)"
      using wfD(5) [OF w n(1)] n(2) q(2)
      by (simp add: create_new_block_def node_slot [OF s n(1), unfolded q]
          get_block_slot [OF s q(2)] wf_get_blk [OF w n(1), unfolded q]
          upd_blk_Ok [OF s q(2)] q(1) [simplified])
    show "wf k L (updb (n - 1) ?f b) (insert n A) R T"
      using n wfD(3,4) [OF w] d
      by (intro wf_updb [OF w n(1)]) (auto simp: level_word_32)
  qed
qed

lemma wf_deactivate:
  assumes w: "wf k L b A R T" and n: "n \<in> A" "n \<notin> R"
  shows "upd_blk (n - 1) (\<lambda>x. x\<lparr>is_active := False\<rparr>) b =
           (Ok (), updb (n - 1) (\<lambda>x. x\<lparr>is_active := False\<rparr>) b)"
    and "wf k L (updb (n - 1) (\<lambda>x. x\<lparr>is_active := False\<rparr>) b) (A - {n}) R (T - {n})"
proof -
  have nr: "n \<in> {1..<2 ^ L}" using n wfD(2) [OF w] by blast
  show "upd_blk (n - 1) (\<lambda>x. x\<lparr>is_active := False\<rparr>) b =
           (Ok (), updb (n - 1) (\<lambda>x. x\<lparr>is_active := False\<rparr>) b)"
    by (rule upd_blk_Ok [OF wfD(1) [OF w] slot_in_range [OF nr]])
  show "wf k L (updb (n - 1) (\<lambda>x. x\<lparr>is_active := False\<rparr>) b) (A - {n}) R (T - {n})"
    using n wfD(3,4) [OF w] by (intro wf_updb [OF w nr]) auto
qed

lemma wf_mark:
  assumes w: "wf k L b A R T" and n: "n \<in> A"
  shows "upd_blk (n - 1) (\<lambda>x. x\<lparr>is_allocated := True\<rparr>) b =
           (Ok (), updb (n - 1) (\<lambda>x. x\<lparr>is_allocated := True\<rparr>) b)"
    and "wf k L (updb (n - 1) (\<lambda>x. x\<lparr>is_allocated := True\<rparr>) b) A R (insert n T)"
proof -
  have nr: "n \<in> {1..<2 ^ L}" using n wfD(2) [OF w] by blast
  show "upd_blk (n - 1) (\<lambda>x. x\<lparr>is_allocated := True\<rparr>) b =
           (Ok (), updb (n - 1) (\<lambda>x. x\<lparr>is_allocated := True\<rparr>) b)"
    by (rule upd_blk_Ok [OF wfD(1) [OF w] slot_in_range [OF nr]])
  show "wf k L (updb (n - 1) (\<lambda>x. x\<lparr>is_allocated := True\<rparr>) b) A R (insert n T)"
    using n wfD(3,4,5,6,7) [OF w] nr by (intro wf_updb [OF w nr]) auto
qed

text \<open>Relinking: the list functions change \<open>next\<close>, \<open>prev\<close> and the heads only.\<close>

definition core :: "buddy_alloc_block \<Rightarrow> bool \<times> 6 word \<times> u32 \<times> bool" where
  "core x = (is_active x, blk_level x, blk_offset x, is_allocated x)"

lemma core_links [simp]:
  "core (x\<lparr>blk_next := u\<rparr>) = core x" "core (x\<lparr>blk_prev := v\<rparr>) = core x"
  by (simp_all add: core_def)

lemma core_updb:
  assumes "shape k L b" "\<And>x. core (f x) = core x"
  shows "core (blocks (updb q f b) ! p) = core (blocks b ! p)"
proof (cases "q < length (blocks b)")
  case True
  then show ?thesis
    using assms by (cases "p = q") (simp_all add: blocks_updb)
next
  case False
  then show ?thesis by (simp add: blocks_updb [OF assms(1)] list_update_beyond)
qed

lemma wf_relink:
  assumes w: "wf k L b A R T" and s: "shape k L b'"
    and c: "\<And>p. core (blocks b' ! p) = core (blocks b ! p)"
    and "R' \<subseteq> A" "lists_ok L b' R' F"
  shows "wf k L b' A R' T"
proof -
  have "is_active (node_block b' n) = is_active (node_block b n)"
    "blk_level (node_block b' n) = blk_level (node_block b n)"
    "blk_offset (node_block b' n) = blk_offset (node_block b n)"
    "is_allocated (node_block b' n) = is_allocated (node_block b n)" for n
    using c [of "n - 1"] by (simp_all add: core_def node_block_def)
  with assms show ?thesis unfolding wf_def by auto
qed

lemma get_head_Ok: "shape k L b \<Longrightarrow> d < L \<Longrightarrow> get_head b (of_nat d) = Ok (free_list b ! d)"
  using shapeD(2,6) [of k L b] by (simp add: get_head_def unat_level)

lemma set_head_Ok:
  "shape k L b \<Longrightarrow> d < L \<Longrightarrow>
     set_head (of_nat d) h b = (Ok (), b\<lparr>free_list := (free_list b)[d := h]\<rparr>)"
  using shapeD(2,6) [of k L b] by (simp add: set_head_def unat_level)

lemma wf_head_None:
  assumes "wf k L b A R T" "d < L"
  shows "free_list b ! d = None \<longleftrightarrow> (\<forall>n\<in>R. depth n \<noteq> d)"
proof -
  obtain F where F: "lists_ok L b R F" using wf_lists [OF assms(1)] by blast
  note l = lists_okD [OF F assms(2)]
  have "0 \<notin> R" using wfD(2,3) [OF assms(1)] by auto
  then have "set (F d) = {} \<longleftrightarrow> (\<forall>n\<in>R. depth n \<noteq> d)"
    unfolding l(3) by (auto, metis not0_implies_Suc)
  moreover have "free_list b ! d = None \<longleftrightarrow> F d = []"
    using l(1) by (cases "F d") (auto simp: dlist_def)
  ultimately show ?thesis by simp
qed

lemma wf_head_Some:
  assumes "wf k L b A R T" "d < L" "free_list b ! d = Some p"
  shows "Suc p \<in> R \<and> depth (Suc p) = d"
proof -
  obtain F where F: "lists_ok L b R F" using wf_lists [OF assms(1)] by blast
  note l = lists_okD [OF F assms(2)]
  have "p \<in> set (F d)" using l(1) assms(3) by (cases "F d") (auto simp: dlist_def)
  then show ?thesis unfolding l(3) by simp
qed

lemma wf_add:
  assumes w: "wf k L b A R T" and n: "Suc p \<in> A" "Suc p \<notin> R"
  obtains b' where "linked_list_add_block b (Some p) = (Ok (), b')"
    and "wf k L b' A (insert (Suc p) R) T"
proof -
  note s = wfD(1) [OF w]
  define d where "d = depth (Suc p)"
  have nr: "Suc p \<in> {1..<2 ^ L}" using n wfD(2) [OF w] by blast
  then have p: "p < 2 ^ L - 1" by auto
  have d: "d < L" using depth_less_levels [OF nr] by (simp add: d_def)
  then have d64: "d < 64" using shapeD(2) [OF s] by simp
  obtain F where F: "lists_ok L b R F" using wf_lists [OF w] by blast
  note l = lists_okD [OF F]
  define h where "h = free_list b ! d"
  define b1 where "b1 = (case h of None \<Rightarrow> b | Some q \<Rightarrow> updb q (\<lambda>x. x\<lparr>blk_prev := Some p\<rparr>) b)"
  define b2 where "b2 = updb p (\<lambda>x. x\<lparr>blk_next := h, blk_prev := None\<rparr>) b1"
  define b3 where "b3 = b2\<lparr>free_list := (free_list b)[d := Some p]\<rparr>"
  have hq: "q < 2 ^ L - 1" "q \<in> set (F d)" if "h = Some q" for q
  proof -
    have "Suc q \<in> R \<and> depth (Suc q) = d" using wf_head_Some [OF w d] that by (simp add: h_def)
    then show "q \<in> set (F d)" "q < 2 ^ L - 1" using l(3) [OF d] wfD(2,3) [OF w] by auto
  qed
  have s1: "shape k L b1" using s by (auto simp: b1_def shape_updb split: option.split)
  have s2: "shape k L b2" using s1 by (simp add: b2_def shape_updb)
  have fl: "free_list b1 = free_list b" "free_list b2 = free_list b"
    by (auto simp: b1_def b2_def split: option.split)
  have s3: "shape k L b3" using s2 shapeD(6) [OF s] by (simp add: b3_def shape_free_list)
  have b1u: "(case h of None \<Rightarrow> (Ok (), b) | Some q \<Rightarrow> upd_blk q (\<lambda>x. x\<lparr>blk_prev := Some p\<rparr>) b) =
               (Ok (), b1)"
    using hq upd_blk_Ok [OF s] by (auto simp: b1_def split: option.split)
  have lev: "ucast (blk_level (blocks b ! p)) = (of_nat d :: u32)"
    using wfD(6) [OF w n(1)] level_word(1) [OF d64] by (simp add: node_block_def d_def)
  have run: "linked_list_add_block b (Some p) = (Ok (), b3)"
    by (simp add: linked_list_add_block_def get_blk_Ok [OF s p] lev get_head_Ok [OF s d]
        h_def [symmetric] b1u upd_blk_Ok [OF s1 p] b2_def [symmetric] set_head_Ok [OF s2 d] fl b3_def)
  have "nxt b1 = nxt b"
    using hq by (auto simp: b1_def nxt_updb [OF s] fun_eq_iff nxt_def [symmetric] split: option.split)
  moreover have "nxt b2 = (nxt b1)(p := h)" by (simp add: b2_def nxt_updb [OF s1 p])
  ultimately have nx: "nxt b3 = (nxt b)(p := h)" by (simp add: b3_def)
  have "prv b1 = (case h of None \<Rightarrow> prv b | Some q \<Rightarrow> (prv b)(q := Some p))"
    using hq by (auto simp: b1_def prv_updb [OF s] split: option.split)
  moreover have "prv b2 = (prv b1)(p := None)" by (simp add: b2_def prv_updb [OF s1 p])
  ultimately have pv: "prv b3 = (case h of None \<Rightarrow> prv b | Some q \<Rightarrow> (prv b)(q := Some p))(p := None)"
    by (simp add: b3_def)
  have pF: "p \<notin> set (F l')" if "l' < L" for l' using l(3) [OF that] n(2) by simp
  have lists: "lists_ok L b3 (insert (Suc p) R) (F(d := p # F d))"
    unfolding lists_ok_def
  proof (intro allI impI)
    fix l' assume l': "l' < L"
    show "dlist (nxt b3) (prv b3) (free_list b3 ! l') ((F(d := p # F d)) l') \<and>
          distinct ((F(d := p # F d)) l') \<and>
          set ((F(d := p # F d)) l') = {q. Suc q \<in> insert (Suc p) R \<and> depth (Suc q) = l'}"
    proof (cases "l' = d")
      case True
      have "dlist (nxt b3) (prv b3) (Some p) (p # F d)"
        unfolding nx pv using dlist_push [OF l(1) [OF d, folded h_def] pF [OF d] l(2) [OF d]] .
      moreover have "set (p # F d) = {q. Suc q \<in> insert (Suc p) R \<and> depth (Suc q) = d}"
        using l(3) [OF d] by (auto simp: d_def)
      ultimately show ?thesis
        using True d l(2) [OF d] pF [OF d] shapeD(6) [OF s] by (simp add: b3_def)
    next
      case False
      have q: "h \<noteq> Some q" if "q \<in> set (F l')" for q
        using hq(2) that l(3) [OF d] l(3) [OF l'] False by auto
      have "dlist (nxt b3) (prv b3) (free_list b ! l') (F l') \<longleftrightarrow>
              dlist (nxt b) (prv b) (free_list b ! l') (F l')"
        using pF [OF l'] q by (intro dlist_frame) (auto simp: nx pv split: option.split)
      with l [OF l'] False show ?thesis by (auto simp: b3_def d_def)
    qed
  qed
  have cu: "core (blocks (updb q (\<lambda>x. x\<lparr>blk_prev := v\<rparr>) b) ! i) = core (blocks b ! i)" for q v i
    by (rule core_updb [OF s]) (simp add: core_def)
  have "core (blocks b3 ! i) = core (blocks b ! i)" for i
  proof -
    have "core (blocks b2 ! i) = core (blocks b1 ! i)"
      unfolding b2_def by (rule core_updb [OF s1]) (simp add: core_def)
    then show ?thesis using cu by (simp add: b3_def b1_def split: option.split)
  qed
  then have "wf k L b3 A (insert (Suc p) R) T"
    using wfD(3) [OF w] n(1) by (intro wf_relink [OF w s3 _ _ lists]) auto
  with run that show ?thesis by blast
qed

lemma wf_extract:
  assumes w: "wf k L b A R T" and n: "Suc p \<in> R"
  obtains b' where "linked_list_extract_block b p (of_nat (depth (Suc p))) = (Ok (), b')"
    and "wf k L b' A (R - {Suc p}) T"
proof -
  note s = wfD(1) [OF w]
  define d where "d = depth (Suc p)"
  have nr: "Suc p \<in> {1..<2 ^ L}" using n wfD(2,3) [OF w] by blast
  then have p: "p < 2 ^ L - 1" by auto
  have d: "d < L" using depth_less_levels [OF nr] by (simp add: d_def)
  obtain F where F: "lists_ok L b R F" using wf_lists [OF w] by blast
  note l = lists_okD [OF F]
  have "p \<in> set (F d)" unfolding l(3) [OF d] using n by (simp add: d_def)
  then obtain ps qs where pq: "F d = ps @ p # qs" by (auto simp: in_set_conv_decomp)
  define nn where "nn = nxt b p"
  define m where "m = prv b p"
  note u = dlist_unlink [OF l(1) [OF d, unfolded pq] l(2) [OF d, unfolded pq], folded nn_def m_def]
  have inF: "q < 2 ^ L - 1" if "q \<in> set (F d)" for q
    using that l(3) [OF d] wfD(2,3) [OF w] by auto
  have nin: "c \<in> set (F d)" "c < 2 ^ L - 1" if "nn = Some c" for c
    using u(4) [OF that] inF pq by auto
  have min: "a \<in> set (F d)" "a < 2 ^ L - 1" if "m = Some a" for a
    using u(3) [OF that] inF pq by auto
  define b1 where "b1 = (case nn of None \<Rightarrow> b | Some c \<Rightarrow> updb c (\<lambda>x. x\<lparr>blk_prev := m\<rparr>) b)"
  define b2 where "b2 = (case m of
      Some a \<Rightarrow> updb a (\<lambda>x. x\<lparr>blk_next := nn\<rparr>) b1
    | None \<Rightarrow> b1\<lparr>free_list := (free_list b1)[d := nn]\<rparr>)"
  have s1: "shape k L b1" using s by (auto simp: b1_def shape_updb split: option.split)
  have fl: "free_list b1 = free_list b" by (simp add: b1_def split: option.split)
  have s2: "shape k L b2"
    using s1 shapeD(6) [OF s1] by (auto simp: b2_def shape_updb shape_free_list split: option.split)
  have b1u: "(case nn of None \<Rightarrow> (Ok (), b) | Some c \<Rightarrow> upd_blk c (\<lambda>x. x\<lparr>blk_prev := m\<rparr>) b) = (Ok (), b1)"
    using nin upd_blk_Ok [OF s] by (auto simp: b1_def split: option.split)
  have b2u: "(case m of Some a \<Rightarrow> upd_blk a (\<lambda>x. x\<lparr>blk_next := nn\<rparr>) b1
                      | None \<Rightarrow> set_head (of_nat d) nn b1) = (Ok (), b2)"
    using min upd_blk_Ok [OF s1] set_head_Ok [OF s1 d] by (auto simp: b2_def split: option.split)
  have run: "linked_list_extract_block b p (of_nat d) = (Ok (), b2)"
    by (simp add: linked_list_extract_block_def get_blk_Ok [OF s p] nxt_def [symmetric]
        prv_def [symmetric] nn_def [symmetric] m_def [symmetric] b1u b2u)
  have "nxt b1 = nxt b"
    using nin by (auto simp: b1_def nxt_updb [OF s] fun_eq_iff nxt_def [symmetric] split: option.split)
  then have nx: "nxt b2 = unlink_next (nxt b) m nn"
    using min by (auto simp: b2_def nxt_updb [OF s1] unlink_next_def split: option.split)
  have "prv b1 = unlink_next (prv b) nn m"
    using nin by (auto simp: b1_def prv_updb [OF s] unlink_next_def split: option.split)
  then have pv: "prv b2 = unlink_next (prv b) nn m"
    using min by (auto simp: b2_def prv_updb [OF s1] fun_eq_iff prv_def [symmetric] split: option.split)
  have hd: "free_list b2 ! l' = (if l' = d \<and> m = None then nn else free_list b ! l')" if "l' < L" for l'
    using that shapeD(6) [OF s] by (auto simp: b2_def fl nth_list_update split: option.split)
  have lists: "lists_ok L b2 (R - {Suc p}) (F(d := ps @ qs))"
    unfolding lists_ok_def
  proof (intro allI impI)
    fix l' assume l': "l' < L"
    show "dlist (nxt b2) (prv b2) (free_list b2 ! l') ((F(d := ps @ qs)) l') \<and>
          distinct ((F(d := ps @ qs)) l') \<and>
          set ((F(d := ps @ qs)) l') = {q. Suc q \<in> R - {Suc p} \<and> depth (Suc q) = l'}"
    proof (cases "l' = d")
      case True
      have "set (ps @ qs) = set (F d) - {p}" using pq l(2) [OF d] by auto
      then have "set (ps @ qs) = {q. Suc q \<in> R - {Suc p} \<and> depth (Suc q) = d}"
        using l(3) [OF d] by auto
      with True u(1) pq l(2) [OF d] hd [OF d] show ?thesis by (auto simp: nx pv)
    next
      case False
      have "a \<notin> set (F l')" if "a \<in> set (F d)" for a
        using that l(3) [OF d] l(3) [OF l'] False by auto
      then have "dlist (nxt b2) (prv b2) (free_list b ! l') (F l') \<longleftrightarrow>
              dlist (nxt b) (prv b) (free_list b ! l') (F l')"
        using nin(1) min(1)
        by (intro dlist_frame) (auto simp: nx pv unlink_next_def split: option.split)
      with l [OF l'] False hd [OF l'] show ?thesis by (auto simp: d_def)
    qed
  qed
  have cu: "core (blocks b1 ! i) = core (blocks b ! i)" for i
    by (cases nn) (simp_all add: b1_def core_updb [OF s])
  have "core (blocks b2 ! i) = core (blocks b1 ! i)" for i
    by (cases m) (simp_all add: b2_def core_updb [OF s1])
  with cu have "wf k L b2 A (R - {Suc p}) T"
    using wfD(3) [OF w] by (intro wf_relink [OF w s2 _ _ lists]) auto
  with run that show ?thesis by (simp add: d_def)
qed

end
