(* ===== verification/Buddy_Steps.thy ===== *)
theory Buddy_Steps
  imports Buddy_State
begin

text \<open>
  The internal functions of the buddy allocator on the abstraction of \<open>Buddy_State\<close>: the level
  of a request, the search for a free level, taking a block from a level, splitting down and
  merging up. Each lemma gives the exact result of the code and the change of the three sets.
\<close>

section \<open>The level of a request\<close>

lemma pow2_not_less: "j < 32 \<Longrightarrow> k < 32 \<Longrightarrow> \<not> pow2 j < pow2 k \<longleftrightarrow> k \<le> j"
  by (simp add: pow2_less_iff not_less)

lemma get_block_level_pow2:
  assumes s: "shape k L b" and j: "j < 32"
  shows "get_block_level b (pow2 j) OutAddr =
           (if k \<le> j \<and> j \<le> k + (L - 1) then Ok (of_nat (L - 1 - (j - k))) else Err EINVAL)"
proof -
  note sh = shapeD [OF s]
  have k: "k < 32" using sh by simp
  show ?thesis
  proof (cases "k \<le> j")
    case False
    then have "pow2 j < pow2 k" using j k by (simp add: pow2_less_iff)
    with False sh(4) show ?thesis by (simp add: get_block_level_def Let_def)
  next
    case True
    then obtain i where i: "j = k + i" by (metis le_iff_add)
    have nl: "\<not> pow2 j < pow2 k" using True j k by (simp add: pow2_less_iff)
    have sc: "level_shift (pow2 j) (pow2 k) 0 = of_nat i"
      using level_shift_pow2 [of k i 0] j i by simp
    have max: "num_of_levels b - 1 = of_nat (L - 1)"
      using sh(1,5) by (simp add: of_nat_diff)
    have cmp: "of_nat i > (of_nat (L - 1) :: u32) \<longleftrightarrow> L - 1 < i"
      using i j sh(2) by (simp add: word_less_nat_alt unat_of_nat_lt del: of_nat_diff)
    have sub: "(of_nat (L - 1) :: u32) - of_nat i = of_nat (L - 1 - i)" if "i \<le> L - 1"
      by (rule of_nat_diff [OF that, symmetric])
    show ?thesis
    proof (cases "i \<le> L - 1")
      case True
      with i nl sc max cmp sub sh(4) and_pred_pow2 [OF j] show ?thesis
        by (simp add: get_block_level_def Let_def del: of_nat_diff)
    next
      case False
      with i nl sc max cmp sh(4) and_pred_pow2 [OF j] show ?thesis
        by (simp add: get_block_level_def Let_def del: of_nat_diff)
    qed
  qed
qed

text \<open>
  \<open>fits k L v d\<close>: blocks at depth \<open>d\<close> are the smallest that hold \<open>v\<close> bytes, among the
  powers of two.
\<close>

definition fits :: "nat \<Rightarrow> nat \<Rightarrow> u32 \<Rightarrow> nat \<Rightarrow> bool" where
  "fits k L v d \<longleftrightarrow> d < L \<and> unat v \<le> 2 ^ (k + (L - 1) - d) \<and> 2 ^ (k + (L - 1) - d) < 2 * unat v"

text \<open>
  The requests the code accepts: more than half of the minimal block and at most the pool.
\<close>

definition acceptable :: "nat \<Rightarrow> nat \<Rightarrow> u32 \<Rightarrow> bool" where
  "acceptable k L v \<longleftrightarrow> 2 ^ k < 2 * unat v \<and> unat v \<le> 2 ^ (k + (L - 1))"

lemma power_mono_2: "m \<le> n \<Longrightarrow> (2::nat) ^ m \<le> 2 ^ n"
  by (rule power_increasing) simp_all

lemma power_less_2: "(2::nat) ^ m < 2 ^ n \<Longrightarrow> m < n"
  by (rule power_less_imp_less_exp [of 2]) simp_all

lemma request_level:
  assumes s: "shape k L b" and v: "v \<noteq> 0"
  shows "(\<exists>d. acceptable k L v \<and> fits k L v d \<and>
              get_block_level b (next_pow2 v) OutAddr = Ok (of_nat d)) \<or>
         (\<not> acceptable k L v \<and> get_block_level b (next_pow2 v) OutAddr = Err EINVAL)"
proof (cases "unat v \<le> 2 ^ 31")
  case True
  note sh = shapeD [OF s]
  obtain j where j: "next_pow2 v = pow2 j" "j < 32" "unat v \<le> 2 ^ j"
    "\<And>i. unat v \<le> 2 ^ i \<Longrightarrow> j \<le> i"
    using next_pow2_fits [OF v True] by metis
  have half: "2 ^ j < 2 * unat v"
  proof (cases j)
    case 0
    with v show ?thesis using unat_gt_0 [of v] by simp
  next
    case (Suc i)
    with j(4) [of i] have "\<not> unat v \<le> 2 ^ i" by auto
    with Suc show ?thesis by simp
  qed
  have acc: "acceptable k L v \<longleftrightarrow> k \<le> j \<and> j \<le> k + (L - 1)"
  proof
    assume a: "acceptable k L v"
    then have "(2::nat) ^ k < 2 * 2 ^ j" using j(3) by (simp add: acceptable_def)
    then have "k < Suc j" using power_less_2 [of k "Suc j"] by simp
    with a j(4) show "k \<le> j \<and> j \<le> k + (L - 1)" by (simp add: acceptable_def)
  next
    assume kj: "k \<le> j \<and> j \<le> k + (L - 1)"
    then have "(2::nat) ^ k \<le> 2 ^ j" "(2::nat) ^ j \<le> 2 ^ (k + (L - 1))"
      by (intro power_mono_2; simp)+
    with half j(3) show "acceptable k L v" unfolding acceptable_def by linarith
  qed
  show ?thesis
  proof (cases "k \<le> j \<and> j \<le> k + (L - 1)")
    case True
    let ?d = "L - 1 - (j - k)"
    have "k + (L - 1) - ?d = j" "?d < L" using True sh(1) by auto
    then have "fits k L v ?d" using j(3) half by (simp add: fits_def)
    with True acc get_block_level_pow2 [OF s j(2)] j(1) show ?thesis by auto
  next
    case False
    then have "\<not> acceptable k L v" "get_block_level b (next_pow2 v) OutAddr = Err EINVAL"
      using acc get_block_level_pow2 [OF s j(2)] unfolding j(1) by auto
    then show ?thesis by blast
  qed
next
  case False
  have "next_pow2 v = 0" using False next_pow2_overflow by simp
  moreover have "(0 :: u32) < min_block_size b"
    using shapeD(3,4) [OF s] by (simp add: word_less_nat_alt)
  ultimately have "get_block_level b (next_pow2 v) OutAddr = Err EINVAL"
    by (simp add: get_block_level_def Let_def)
  moreover have "\<not> acceptable k L v"
  proof -
    have "(2::nat) ^ (k + (L - 1)) \<le> 2 ^ 31" using shapeD(3) [OF s] by (intro power_mono_2) simp
    with False show ?thesis unfolding acceptable_def by linarith
  qed
  ultimately show ?thesis by blast
qed

section \<open>Searching and taking a free block\<close>

lemma find_level_cases:
  assumes w: "wf k L b A R T" and l: "l < L"
  shows "(find_non_empty_level b (of_nat l) = Err ENFILE \<and> (\<forall>n\<in>R. l < depth n)) \<or>
         (\<exists>d\<le>l. find_non_empty_level b (of_nat l) = Ok (of_nat d) \<and> (\<exists>n\<in>R. depth n = d)
               \<and> (\<forall>n\<in>R. \<not> (d < depth n \<and> depth n \<le> l)))"
  using l
proof (induction l)
  case 0
  note s = wfD(1) [OF w]
  have h: "get_head b 0 = Ok (free_list b ! 0)" using get_head_Ok [OF s 0] by simp
  have "find_non_empty_level b 0 = (if free_list b ! 0 = None then Err ENFILE else Ok 0)"
    by (simp add: find_non_empty_level_def find_level_loop.simps h)
  with wf_head_None [OF w 0] show ?case by auto
next
  case (Suc l)
  note s = wfD(1) [OF w]
  have h: "get_head b (of_nat (Suc l)) = Ok (free_list b ! Suc l)" using get_head_Ok [OF s Suc.prems] .
  have pos: "(of_nat (Suc l) :: u32) > 0"
    using Suc.prems shapeD(2) [OF s] by (simp add: word_less_nat_alt unat_of_nat_lt del: of_nat_Suc)
  have pred: "of_nat (Suc l) - 1 = (of_nat l :: u32)" by simp
  have step: "find_level_loop b (of_nat (Suc l)) =
          (if free_list b ! Suc l = None then find_level_loop b (of_nat l) else Ok (of_nat (Suc l)))"
    using pos by (subst find_level_loop.simps) (simp add: h pred del: of_nat_Suc)
  show ?case
  proof (cases "free_list b ! Suc l = None")
    case True
    then have "find_non_empty_level b (of_nat (Suc l)) = find_non_empty_level b (of_nat l)"
      unfolding find_non_empty_level_def step by simp
    moreover have "depth n \<noteq> Suc l" if "n \<in> R" for n
      using wf_head_None [OF w Suc.prems] True that by blast
    ultimately show ?thesis
      using Suc by (auto simp: le_Suc_eq less_Suc_eq dest: le_neq_implies_less Suc_leI)
        (metis Suc_leI le_neq_implies_less)+
  next
    case False
    then obtain p where "free_list b ! Suc l = Some p" by blast
    then have "find_non_empty_level b (of_nat (Suc l)) = Ok (of_nat (Suc l))"
      unfolding find_non_empty_level_def step by (simp add: h del: of_nat_Suc)
    moreover have "\<exists>n\<in>R. depth n = Suc l" using wf_head_None [OF w Suc.prems] False by blast
    ultimately show ?thesis by auto
  qed
qed

lemma allocate_at_level_cases:
  assumes w: "wf k L b A R T" and l: "l < L"
  shows "(allocate_at_level b (of_nat l) OutAddr = (Ok None, b) \<and> (\<forall>n\<in>R. depth n \<noteq> l)) \<or>
         (\<exists>p b'. allocate_at_level b (of_nat l) OutAddr = (Ok (Some p), b') \<and>
            Suc p \<in> R \<and> depth (Suc p) = l \<and> wf k L b' A (R - {Suc p}) (insert (Suc p) T))"
proof (cases "free_list b ! l")
  case None
  with wf_head_None [OF w l] get_head_Ok [OF wfD(1) [OF w] l] show ?thesis
    by (simp add: allocate_at_level_def)
next
  case (Some p)
  with wf_head_Some [OF w l] have p: "Suc p \<in> R" "depth (Suc p) = l" by auto
  obtain b1 where b1: "linked_list_extract_block b p (of_nat l) = (Ok (), b1)"
    "wf k L b1 A (R - {Suc p}) T"
    using wf_extract [OF w p(1)] p(2) by metis
  have "Suc p \<in> A" using p(1) wfD(3) [OF w] by blast
  note m = wf_mark [OF b1(2) this]
  have "allocate_at_level b (of_nat l) OutAddr =
          (Ok (Some p), updb p (\<lambda>x. x\<lparr>is_allocated := True\<rparr>) b1)"
    using Some m(1) by (simp add: allocate_at_level_def get_head_Ok [OF wfD(1) [OF w] l] b1(1))
  with m(2) p show ?thesis by auto
qed

section \<open>Offsets and sizes of children, siblings and parents\<close>

lemma size_exp_child:
  assumes "0 < c" "Suc (depth c) < L"
  shows "size_exp k L c = Suc (size_exp k L (2 * c))" "size_exp k L (Suc (2 * c)) = size_exp k L (2 * c)"
  using assms by (simp_all add: size_exp_def depth_child)

lemma index_child:
  assumes "0 < c"
  shows "index (2 * c) = 2 * index c" "index (Suc (2 * c)) = Suc (2 * index c)"
  using depth_bounds [OF assms] unfolding index_def depth_child [OF assms] power_Suc by arith+

lemma node_offset_left: "0 < c \<Longrightarrow> Suc (depth c) < L \<Longrightarrow> node_offset k L (2 * c) = node_offset k L c"
  by (simp add: node_offset_def index_child size_exp_child)

lemma node_offset_sibling:
  assumes "2 \<le> n"
  shows "get_buddy_offset (node_offset k L n) (pow2 (size_exp k L n)) = node_offset k L (sibling n)"
    and "size_exp k L (sibling n) = size_exp k L n"
proof -
  show "size_exp k L (sibling n) = size_exp k L n"
    using depth_sibling [OF assms] by (simp add: size_exp_def)
  then show "get_buddy_offset (node_offset k L n) (pow2 (size_exp k L n)) = node_offset k L (sibling n)"
    unfolding node_offset_def buddy_offset_pow2 index_sibling [OF assms] by simp
qed

lemma sibling_in_range:
  assumes "2 \<le> n" "n < 2 ^ L"
  shows "sibling n \<in> {1..<2 ^ L}"
proof -
  have "depth (sibling n) < L" using depth_sibling assms depth_less [of n L] by simp
  then show ?thesis using depth_mono_node [of "sibling n" L] sibling_ge_2 [OF assms(1)] by simp
qed

lemma unat_of_nat_32: "x < 2 ^ 32 \<Longrightarrow> unat (of_nat x :: u32) = x"
  by (rule unat_of_nat_lt) simp

text \<open>\<open>MIN(block_offset, buddy_offset)\<close> is the offset of the parent.\<close>

lemma parent_offset:
  assumes s: "shape k L b" and n: "2 \<le> n" "n < 2 ^ L"
  shows "(if node_offset k L n < node_offset k L (sibling n) then node_offset k L n
          else node_offset k L (sibling n)) = node_offset k L (n div 2)"
    and "push_bit 1 (pow2 (size_exp k L n)) = pow2 (size_exp k L (n div 2))"
proof -
  have d: "depth n < L" using n by (intro depth_less) simp_all
  then have e: "size_exp k L (n div 2) = Suc (size_exp k L n)"
    using depth_parent [OF n(1)] by (simp add: size_exp_def)
  show "push_bit 1 (pow2 (size_exp k L n)) = pow2 (size_exp k L (n div 2))"
    by (simp only: push_bit_pow2 e plus_1_eq_Suc)
  let ?s = "2 ^ size_exp k L n :: nat"
  have f: "index n * ?s < 2 ^ 32" "sibling (index n) * ?s < 2 ^ 32"
    using node_offset_fits(1) [OF s, of n] node_offset_fits(1) [OF s sibling_in_range [OF n]]
      n node_offset_sibling(2) [OF n(1), of k L] index_sibling [OF n(1)] by simp_all
  have u: "unat (node_offset k L n) = index n * ?s"
    unfolding node_offset_def by (rule unat_of_nat_32 [OF f(1)])
  have v: "unat (node_offset k L (sibling n)) = sibling (index n) * ?s"
    unfolding node_offset_def node_offset_sibling(2) [OF n(1)] index_sibling [OF n(1)]
    by (rule unat_of_nat_32 [OF f(2)])
  have p: "node_offset k L (n div 2) = of_nat (2 * (index n div 2) * ?s)"
    unfolding node_offset_def e index_parent [OF n(1)] by (simp add: mult.assoc)
  show "(if node_offset k L n < node_offset k L (sibling n) then node_offset k L n
          else node_offset k L (sibling n)) = node_offset k L (n div 2)"
  proof (cases "even (index n)")
    case True
    then have "node_offset k L n < node_offset k L (sibling n)"
      unfolding word_less_nat_alt u v by (simp add: sibling_def)
    with True show ?thesis unfolding p by (simp add: node_offset_def)
  next
    case False
    then have "\<not> node_offset k L n < node_offset k L (sibling n)"
      unfolding word_less_nat_alt u v by (simp add: sibling_def)
    moreover have "sibling (index n) = 2 * (index n div 2)"
      using False by (auto simp: sibling_def elim: oddE)
    ultimately show ?thesis
      unfolding p by (simp add: node_offset_def node_offset_sibling(2) [OF n(1)] index_sibling [OF n(1)])
  qed
qed

section \<open>Splitting down\<close>

lemma split_loop_wf:
  assumes "wf k L b A R T" "tiling L (insert c A)" "c \<notin> A" "depth c = d" "d \<le> t" "t < L"
  shows "\<exists>b' D c'. split_loop b (Suc d) t (node_offset k L c) (pow2 (size_exp k L c)) =
                     (Ok (pow2 (size_exp k L c')), b') \<and>
           wf k L b' (A \<union> D) (R \<union> D) T \<and> A \<inter> D = {} \<and>
           c' \<notin> A \<union> D \<and> tiling L (insert c' (A \<union> D)) \<and> depth c' = t \<and>
           node_offset k L c' = node_offset k L c \<and> under L c' \<subseteq> under L c \<and>
           (\<forall>x\<in>D. 2 \<le> x \<and> under L c' \<subseteq> under L (sibling x))"
  using assms
proof (induction "t - d" arbitrary: b A R c d)
  case 0
  then have "\<not> Suc d \<le> t" by simp
  then have "split_loop b (Suc d) t (node_offset k L c) (pow2 (size_exp k L c)) =
               (Ok (pow2 (size_exp k L c)), b)"
    by (subst split_loop.simps) simp
  with 0 show ?case by (intro exI [of _ b] exI [of _ "{}"] exI [of _ c]) auto
next
  case (Suc i)
  note w = Suc.prems(1) and t = Suc.prems(2)
  note s = wfD(1) [OF w]
  have dt: "Suc d \<le> t" using Suc.hyps(2) by simp
  have c0: "0 < c" using tilingD(1) [OF t] by blast
  have dc: "Suc (depth c) < L" using dt Suc.prems(4,6) by simp
  note sp = tiling_split [OF t Suc.prems(3) dc]
  let ?r = "Suc (2 * c)" and ?A1 = "insert (Suc (2 * c)) A" and ?R1 = "insert (Suc (2 * c)) R"
  have rA: "?r \<notin> A" "2 * c \<notin> A" using sp(2,3) by simp_all
  have t1: "tiling L (insert (2 * c) ?A1)" using sp(1) by simp
  have rr: "?r \<in> {1..<2 ^ L}"
    using depth_mono_node [of ?r L] dc c0 by (simp add: depth_child)
  have size: "drop_bit 1 (pow2 (size_exp k L c)) = pow2 (size_exp k L ?r)"
  proof -
    have "Suc (size_exp k L (2 * c)) < 32"
      using node_offset_fits(2) [OF s, of c] size_exp_child(1) [OF c0 dc, of k]
        depth_mono_node [of c L] c0 dc by simp
    then show ?thesis using size_exp_child [OF c0 dc, of k] drop_bit_pow2 by simp
  qed
  have boff: "get_buddy_offset (node_offset k L c) (pow2 (size_exp k L ?r)) = node_offset k L ?r"
    using node_offset_sibling(1) [of "2 * c" k L] c0 sibling_child(1) [of c]
      node_offset_left [OF c0 dc] size_exp_child [OF c0 dc, of k] by simp
  have dr: "depth ?r = Suc d" using c0 Suc.prems(4) by (simp add: depth_child)
  obtain b1 where b1: "create_new_block b (of_nat (Suc d)) (node_offset k L ?r)
      (pow2 (size_exp k L ?r)) OutAddr = (Ok (2 * c), b1)" "wf k L b1 ?A1 R T"
    using wf_create [OF w rr rA(1)] dr by (metis diff_Suc_1)
  have rR: "?r \<notin> R" using rA wfD(3) [OF w] by blast
  obtain b2 where b2: "linked_list_add_block b1 (Some (2 * c)) = (Ok (), b2)" "wf k L b2 ?A1 ?R1 T"
    using wf_add [OF b1(2) _ rR] by blast
  have step: "split_loop b (Suc d) t (node_offset k L c) (pow2 (size_exp k L c)) =
                split_loop b2 (Suc (Suc d)) t (node_offset k L c) (pow2 (size_exp k L ?r))"
    using dt by (subst split_loop.simps) (simp only: if_True Let_def size boff b1(1) b2(1) and_then_simps)
  have "i = t - Suc d" using Suc.hyps(2) by simp
  from Suc.hyps(1) [OF this b2(2) t1 _ _ dt Suc.prems(6)] obtain b' D c' where
    run: "split_loop b2 (Suc (Suc d)) t (node_offset k L (2 * c)) (pow2 (size_exp k L (2 * c))) =
            (Ok (pow2 (size_exp k L c')), b')"
    and w': "wf k L b' (?A1 \<union> D) (?R1 \<union> D) T" "?A1 \<inter> D = {}" "c' \<notin> ?A1 \<union> D"
      "tiling L (insert c' (?A1 \<union> D))" "depth c' = t"
      "node_offset k L c' = node_offset k L (2 * c)" "under L c' \<subseteq> under L (2 * c)"
    and D: "\<forall>x\<in>D. 2 \<le> x \<and> under L c' \<subseteq> under L (sibling x)"
    using rA c0 Suc.prems(4) by (auto simp: depth_child)
  note off = node_offset_left [OF c0 dc, of k]
  have "split_loop b (Suc d) t (node_offset k L c) (pow2 (size_exp k L c)) =
          (Ok (pow2 (size_exp k L c')), b')"
    using run step off size_exp_child(2) [OF c0 dc, of k] by simp
  moreover have "under L c' \<subseteq> under L c"
    using w'(7) under_child_subset(1) [OF c0 dc] by blast
  moreover have "\<forall>x\<in>insert ?r D. 2 \<le> x \<and> under L c' \<subseteq> under L (sibling x)"
    using D w'(7) c0 sibling_child(2) [of c] by simp
  ultimately show ?case
    using w' off rA by (intro exI [of _ b'] exI [of _ "insert ?r D"] exI [of _ c']) auto
qed

lemma get_block_size_node:
  assumes "shape k L b" "depth n < L"
  shows "get_block_size (of_nat (depth n)) (min_block_size b) (num_of_levels b) =
           Ok (pow2 (size_exp k L n))"
proof -
  have "L - 1 - depth n + k = size_exp k L n" using assms(2) by (simp add: size_exp_def)
  with get_block_size_pow2 [of "depth n" L k] assms shapeD [OF assms(1)] show ?thesis by simp
qed

lemma split_block_down_wf:
  assumes w: "wf k L b A R T" and t: "tiling L A" and RT: "R \<inter> T = {}"
    and n: "n \<in> R" and d: "depth n < l" "l < L"
  shows "\<exists>p b' r D. split_block_down b (of_nat (depth n)) (of_nat l) OutAddr = (Ok p, b') \<and>
           r \<in> R \<and> depth r = depth n \<and>
           wf k L b' (insert (Suc p) (A - {r} \<union> D)) (R - {r} \<union> D) T \<and>
           tiling L (insert (Suc p) (A - {r} \<union> D)) \<and> depth (Suc p) = l \<and>
           Suc p \<notin> A - {r} \<union> D \<and> (A - {r}) \<inter> D = {} \<and> under L (Suc p) \<subseteq> under L r \<and>
           (\<forall>x\<in>D. 2 \<le> x \<and> under L (Suc p) \<subseteq> under L (sibling x))"
proof -
  note s = wfD(1) [OF w]
  have dn: "depth n < L" using d by simp
  have L64: "L < 64" using shapeD(2) [OF s] by simp
  obtain q where q: "free_list b ! depth n = Some q"
    using wf_head_None [OF w dn] n by (metis not_None_eq)
  note r = wf_head_Some [OF w dn q]
  have rA: "Suc q \<in> A" using r wfD(3) [OF w] by blast
  have rr: "Suc q \<in> {1..<2 ^ L}" using rA wfD(2) [OF w] by blast
  obtain b1 where b1: "linked_list_extract_block b q (of_nat (depth n)) = (Ok (), b1)"
    "wf k L b1 A (R - {Suc q}) T"
    using wf_extract [OF w, of q] r by metis
  define b2 where "b2 = updb q (\<lambda>x. x\<lparr>is_active := False\<rparr>) b1"
  have b2: "upd_blk q (\<lambda>x. x\<lparr>is_active := False\<rparr>) b1 = (Ok (), b2)"
    "wf k L b2 (A - {Suc q}) (R - {Suc q}) (T - {Suc q})"
    using wf_deactivate [OF b1(2) rA] by (simp_all add: b2_def)
  have TT: "T - {Suc q} = T" using r RT by blast
  have g1: "blk_offset (node_block b1 (Suc q)) = node_offset k L (Suc q)"
    using wfD(7) [OF b1(2) rA] .
  have g2: "get_blk b2 q = Ok (node_block b2 (Suc q))" using wf_get_blk [OF b2(2) rr] by simp
  have g3: "blk_offset (node_block b2 (Suc q)) = node_offset k L (Suc q)"
    using node_block_updb [OF wfD(1) [OF b1(2)] rr rr, of "\<lambda>x. x\<lparr>is_active := False\<rparr>"] g1
    by (simp add: b2_def)
  have size: "get_block_size (of_nat (depth n)) (min_block_size b2) (num_of_levels b2) =
                Ok (pow2 (size_exp k L (Suc q)))"
    using get_block_size_node [OF wfD(1) [OF b2(2)], of "Suc q"] r dn by simp
  have guards: "\<not> (of_nat (depth n) \<ge> num_of_levels b \<or> (of_nat l :: u32) \<ge> num_of_levels b
              \<or> (of_nat l :: u32) \<le> of_nat (depth n))"
    using d dn L64 by (simp add: shapeD(5) [OF s] word_le_nat_alt unat_of_nat_lt)
  have ins: "insert (Suc q) (A - {Suc q}) = A" using rA by blast
  obtain b3 D c where b3: "split_loop b2 (Suc (depth n)) l (node_offset k L (Suc q))
        (pow2 (size_exp k L (Suc q))) = (Ok (pow2 (size_exp k L c)), b3)"
    and w3: "wf k L b3 (A - {Suc q} \<union> D) (R - {Suc q} \<union> D) T" and AD: "(A - {Suc q}) \<inter> D = {}"
    and c: "c \<notin> A - {Suc q} \<union> D" and t3: "tiling L (insert c (A - {Suc q} \<union> D))"
    and dc: "depth c = l" and oc: "node_offset k L c = node_offset k L (Suc q)"
    and uc: "under L c \<subseteq> under L (Suc q)"
    and D: "\<forall>x\<in>D. 2 \<le> x \<and> under L c \<subseteq> under L (sibling x)"
    using split_loop_wf [OF b2(2) [unfolded TT], of "Suc q" "depth n" l] t r d ins by auto
  have c0: "0 < c" using tilingD(1) [OF t3] by blast
  then obtain p where p: "c = Suc p" by (cases c) auto
  have cr: "c \<in> {1..<2 ^ L}" using tiling_subset [OF t3] by blast
  obtain b4 where b4: "create_new_block b3 (of_nat l) (node_offset k L (Suc q)) (pow2 (size_exp k L c))
      OutAddr = (Ok p, b4)" "wf k L b4 (insert c (A - {Suc q} \<union> D)) (R - {Suc q} \<union> D) T"
    using wf_create [OF w3 cr c] dc oc p by (metis diff_Suc_1)
  have "split_block_down b (of_nat (depth n)) (of_nat l) OutAddr = (Ok p, b4)"
    using guards d dn L64
    by (simp add: split_block_down_def get_head_Ok [OF s dn] q b1(1) b2(1) g2 g3 size unat_level
        b3 b4(1) del: of_nat_diff)
  with b4(2) t3 p dc c AD uc D r show ?thesis by blast
qed

section \<open>Merging up\<close>

lemma remove_buddy_wf:
  assumes w: "wf k L b A R T" and A: "A = R \<union> T" "R \<inter> T = {}"
    and c: "2 \<le> c" "c < 2 ^ L"
  obtains (Busy) "sibling c \<notin> R"
      "remove_buddy_block b (node_offset k L c) (int (depth c)) (pow2 (size_exp k L c)) =
         (Ok (node_offset k L (sibling c), False), b)"
  | (Free) b' where "sibling c \<in> R"
      "remove_buddy_block b (node_offset k L c) (int (depth c)) (pow2 (size_exp k L c)) =
         (Ok (node_offset k L (sibling c), True), b')"
      "wf k L b' (A - {sibling c}) (R - {sibling c}) T"
proof -
  note s = wfD(1) [OF w]
  let ?n = "sibling c"
  have nr: "?n \<in> {1..<2 ^ L}" using sibling_in_range [OF c] .
  then obtain q where q: "?n = Suc q" by (cases "?n") auto
  have ql: "q < 2 ^ L - 1" using nr q by auto
  note off = node_offset_sibling [OF c(1), of k L]
  have slot: "calc_buddy_allocator_slot (node_offset k L (Suc q)) (of_nat (depth c))
                (pow2 (size_exp k L c)) = Ok (of_nat q)"
    using node_slot [OF s nr] off(2) depth_sibling [OF c(1)] q by simp
  have blk: "get_blk b q = Ok (node_block b (Suc q))" using wf_get_blk [OF w nr] q by simp
  have start: "remove_buddy_block b (node_offset k L c) (int (depth c)) (pow2 (size_exp k L c)) =
     (if \<not> is_active (node_block b (Suc q)) \<or> is_allocated (node_block b (Suc q))
      then (Ok (node_offset k L (Suc q), False), b)
      else and_then (linked_list_extract_block b q (of_nat (depth c))) (\<lambda>_ b.
           and_then (upd_blk q (\<lambda>x. x\<lparr>is_active := False\<rparr>) b) (\<lambda>_ b.
           (Ok (node_offset k L (Suc q), True), b))))"
    using off(1) by (simp add: remove_buddy_block_def Let_def q slot get_block_slot [OF s ql] blk)
  have st: "is_active (node_block b (Suc q)) \<and> \<not> is_allocated (node_block b (Suc q)) \<longleftrightarrow> Suc q \<in> R"
    using wfD(5) [OF w nr] wfD(8) [OF w, of ?n] A q by auto
  show ?thesis
  proof (cases "Suc q \<in> R")
    case False
    with st start q show ?thesis by (intro Busy) auto
  next
    case True
    then have qA: "Suc q \<in> A" using A(1) by blast
    obtain b1 where b1: "linked_list_extract_block b q (of_nat (depth c)) = (Ok (), b1)"
      "wf k L b1 A (R - {Suc q}) T"
      using wf_extract [OF w True] depth_sibling [OF c(1)] q by metis
    note de = wf_deactivate [OF b1(2) qA, simplified]
    have "T - {Suc q} = T" using True A by blast
    with True st start q de b1(1) show ?thesis by (intro Free) auto
  qed
qed

lemma merge_loop_wf:
  assumes "wf k L b A R T" "A = R \<union> T" "R \<inter> T = {}" "tiling L (insert c A)" "c \<notin> A" "depth c = d"
  shows "\<exists>b' c' M. merge_loop b (int d) (node_offset k L c) (pow2 (size_exp k L c)) =
             (Ok (int (depth c'), node_offset k L c', pow2 (size_exp k L c')), b') \<and>
           M \<subseteq> R \<and> wf k L b' (A - M) (R - M) T \<and> c' \<notin> A - M \<and>
           tiling L (insert c' (A - M)) \<and> under L c \<subseteq> under L c' \<and>
           (2 \<le> c' \<longrightarrow> sibling c' \<notin> R - M)"
  using assms
proof (induction d arbitrary: b A R c)
  case 0
  have "0 < c" using tilingD(1) [OF 0(4)] by blast
  with 0(6) depth_bounds [of c] have "c = 1" by simp
  have "merge_loop b 0 (node_offset k L c) (pow2 (size_exp k L c)) =
          (Ok (0, node_offset k L c, pow2 (size_exp k L c)), b)"
    by (subst merge_loop.simps) simp
  with 0 \<open>c = 1\<close> show ?case by (intro exI [of _ b] exI [of _ c] exI [of _ "{}"]) auto
next
  case (Suc d)
  note w = Suc.prems(1) and A = Suc.prems(2,3) and t = Suc.prems(4) and c = Suc.prems(5,6)
  note s = wfD(1) [OF w]
  have c0: "0 < c" "c < 2 ^ L" using tiling_subset [OF t] by auto
  have c2: "2 \<le> c" using c0 c(2) by (cases "c = 1") auto
  from w A c2 c0(2) show ?case
  proof (cases rule: remove_buddy_wf)
    case Busy
    then have "merge_loop b (int (Suc d)) (node_offset k L c) (pow2 (size_exp k L c)) =
          (Ok (int (Suc d), node_offset k L c, pow2 (size_exp k L c)), b)"
      using c(2) by (subst merge_loop.simps) simp
    with Busy(1) Suc.prems show ?thesis
      by (intro exI [of _ b] exI [of _ c] exI [of _ "{}"]) auto
  next
    case (Free b1)
    let ?n = "sibling c" and ?c = "c div 2"
    let ?A = "A - {?n}" and ?R = "R - {?n}"
    have nA: "?n \<in> A" using Free(1) A(1) by blast
    have ins: "insert c (insert ?n ?A) = insert c A" using nA by blast
    have cA: "c \<notin> ?A" "?n \<notin> ?A" using c(1) by auto
    note tm = tiling_merge_sibling [OF t [folded ins] c2 cA]
    have dc: "depth ?c = d" using depth_parent [OF c2] c(2) by simp
    have A': "?A = ?R \<union> T" "?R \<inter> T = {}" using A Free(1) by blast+
    note po = parent_offset [OF s c2 c0(2)]
    have step: "merge_loop b (int (Suc d)) (node_offset k L c) (pow2 (size_exp k L c)) =
            merge_loop b1 (int d) (node_offset k L ?c) (pow2 (size_exp k L ?c))"
      using Free(2) c(2) po by (subst merge_loop.simps) simp
    obtain b' c' M where run: "merge_loop b1 (int d) (node_offset k L ?c) (pow2 (size_exp k L ?c)) =
             (Ok (int (depth c'), node_offset k L c', pow2 (size_exp k L c')), b')"
      and M: "M \<subseteq> ?R" "wf k L b' (?A - M) (?R - M) T" "c' \<notin> ?A - M"
        "tiling L (insert c' (?A - M))" "under L ?c \<subseteq> under L c'"
        "2 \<le> c' \<longrightarrow> sibling c' \<notin> ?R - M"
      using Suc.IH [OF Free(3) A' tm dc] by blast
    have "under L c \<subseteq> under L ?c"
    proof -
      have "Suc (depth ?c) < L" using dc c(2) depth_less [OF c0] by simp
      moreover have "0 < ?c" using c2 by simp
      ultimately have "under L (2 * ?c) \<subseteq> under L ?c" "under L (2 * ?c + 1) \<subseteq> under L ?c"
        by (rule under_child_subset [rotated])+
      then show ?thesis by (cases rule: node_cases_children [of c]) auto
    qed
    moreover have e: "A - insert ?n M = ?A - M" "R - insert ?n M = ?R - M" by auto
    ultimately show ?thesis
      using run step M Free(1)
      by (intro exI [of _ b'] exI [of _ c'] exI [of _ "insert ?n M"]) (auto simp: e)
  qed
qed

end
