(* ===== verification/Block_Source.thy ===== *)
theory Block_Source
  imports C_Prelude
begin

text \<open>
  The interface between a block allocator (\<open>buddy_allocator.c\<close>) and its client
  (\<open>store_mngr.c\<close>). A provider has an invariant, the handles of the blocks in use, the byte range
  of a block, the size of the pool and the two operations. The client only uses handles it was
  given.
\<close>

datatype 'h block_op = Get u32 | Put 'h

text \<open>
  A client that records the byte ranges of the blocks it holds. It gives back only handles it
  holds. The first component says that each block handed out has room for the request, lies
  in the pool and is disjoint from every block held, and that no block held was refused when
  given back.
\<close>

fun run_blocks ::
  "('s \<Rightarrow> 'h \<Rightarrow> nat set) \<Rightarrow> ('s \<Rightarrow> nat) \<Rightarrow> ('s \<Rightarrow> u32 \<Rightarrow> 'h res \<times> 's) \<Rightarrow> ('s \<Rightarrow> 'h \<Rightarrow> unit res \<times> 's)
     \<Rightarrow> 's \<Rightarrow> ('h \<rightharpoonup> nat set) \<Rightarrow> 'h block_op list \<Rightarrow> bool \<times> ('h \<rightharpoonup> nat set) \<times> 's" where
  "run_blocks rng pool alloc release s held [] = (True, held, s)"
| "run_blocks rng pool alloc release s held (Get v # ops) =
     (case alloc s v of
        (Ok h, s') \<Rightarrow>
          (case run_blocks rng pool alloc release s' (held(h \<mapsto> rng s' h)) ops of
             (good, r) \<Rightarrow> (held h = None \<and> unat v \<le> card (rng s' h) \<and> rng s' h \<subseteq> {..<pool s'}
                           \<and> (\<forall>r\<in>ran held. rng s' h \<inter> r = {}) \<and> good, r))
      | (Err e, s') \<Rightarrow> run_blocks rng pool alloc release s' held ops
      | (UB, s') \<Rightarrow> (False, held, s'))"
| "run_blocks rng pool alloc release s held (Put h # ops) =
     (if held h = None then run_blocks rng pool alloc release s held ops
      else case release s h of
             (Ok _, s') \<Rightarrow> run_blocks rng pool alloc release s' (held(h := None)) ops
           | (_, s') \<Rightarrow> (False, held, s'))"

locale block_source =
  fixes ok :: "'s \<Rightarrow> bool"
    and live :: "'s \<Rightarrow> 'h set"
    and rng :: "'s \<Rightarrow> 'h \<Rightarrow> nat set"
    and pool :: "'s \<Rightarrow> nat"
    and alloc :: "'s \<Rightarrow> u32 \<Rightarrow> 'h res \<times> 's"
    and release :: "'s \<Rightarrow> 'h \<Rightarrow> unit res \<times> 's"
  assumes live_in_pool: "ok s \<Longrightarrow> h \<in> live s \<Longrightarrow> rng s h \<subseteq> {..<pool s}"
    and live_disjoint: "ok s \<Longrightarrow> g \<in> live s \<Longrightarrow> h \<in> live s \<Longrightarrow> g \<noteq> h \<Longrightarrow> rng s g \<inter> rng s h = {}"
    and alloc_result: "ok s \<Longrightarrow>
          (\<exists>h s'. alloc s v = (Ok h, s') \<and> ok s' \<and> h \<notin> live s \<and> live s' = insert h (live s) \<and>
                  unat v \<le> card (rng s' h) \<and> pool s' = pool s \<and>
                  (\<forall>g\<in>live s. rng s' g = rng s g)) \<or>
          (\<exists>e. alloc s v = (Err e, s))"
    and release_result: "ok s \<Longrightarrow> h \<in> live s \<Longrightarrow>
          \<exists>s'. release s h = (Ok (), s') \<and> ok s' \<and> live s' = live s - {h} \<and> pool s' = pool s \<and>
               (\<forall>g\<in>live s'. rng s' g = rng s g)"
begin

lemma alloc_cases:
  assumes "ok s"
  obtains (Got) h s' where "alloc s v = (Ok h, s')" "ok s'" "h \<notin> live s" "live s' = insert h (live s)"
      "unat v \<le> card (rng s' h)" "pool s' = pool s" "\<And>g. g \<in> live s \<Longrightarrow> rng s' g = rng s g"
      "rng s' h \<subseteq> {..<pool s}" "\<And>g. g \<in> live s \<Longrightarrow> rng s' h \<inter> rng s g = {}"
  | (Refused) e where "alloc s v = (Err e, s)"
proof (cases "\<exists>e. alloc s v = (Err e, s)")
  case True
  with Refused show ?thesis by blast
next
  case False
  with alloc_result [OF assms, of v] obtain h s' where
    a: "alloc s v = (Ok h, s')" "ok s'" "h \<notin> live s" "live s' = insert h (live s)"
      "unat v \<le> card (rng s' h)" "pool s' = pool s" "\<And>g. g \<in> live s \<Longrightarrow> rng s' g = rng s g"
    by blast
  have in_pool: "rng s' h \<subseteq> {..<pool s}" using live_in_pool [OF a(2), of h] a(4,6) by simp
  have apart: "rng s' h \<inter> rng s g = {}" if "g \<in> live s" for g
    using live_disjoint [OF a(2), of h g] a(3,4,7) that by auto
  show ?thesis by (rule Got [OF a in_pool apart])
qed

lemma run_blocks_sound:
  assumes "ok s" "run_blocks rng pool alloc release s held ops = (good, held', s')"
    "dom held = live s" "\<And>h. h \<in> live s \<Longrightarrow> held h = Some (rng s h)"
  shows "good \<and> ok s' \<and> dom held' = live s' \<and> pool s' = pool s \<and>
         (\<forall>h\<in>live s'. held' h = Some (rng s' h))"
  using assms
proof (induction ops arbitrary: s held good)
  case Nil
  then show ?case by auto
next
  case (Cons x ops)
  note IH = Cons.IH and ok = Cons.prems(1) and run = Cons.prems(2)
    and dom = Cons.prems(3) and held = Cons.prems(4)
  show ?case
  proof (cases x)
    case (Get v)
    from ok show ?thesis
    proof (cases rule: alloc_cases [where v = v])
      case (Got h t)
      obtain good2 where run2: "run_blocks rng pool alloc release t (held(h \<mapsto> rng t h)) ops =
            (good2, held', s')"
        and good: "good \<longleftrightarrow> held h = None \<and> unat v \<le> card (rng t h) \<and> rng t h \<subseteq> {..<pool t}
                           \<and> (\<forall>r\<in>ran held. rng t h \<inter> r = {}) \<and> good2"
        using run Get Got(1) by (auto split: prod.splits)
      have IH2: "good2 \<and> ok s' \<and> dom held' = live s' \<and> pool s' = pool t \<and>
         (\<forall>h\<in>live s'. held' h = Some (rng s' h))"
        using Got(4,7) dom held by (intro IH [OF Got(2) run2]) auto
      have "held h = None" using Got(3) dom by auto
      moreover have "rng t h \<inter> r = {}" if "r \<in> ran held" for r
      proof -
        from that obtain g where "held g = Some r" by (auto simp: ran_def)
        moreover from this have "g \<in> live s" using dom by auto
        ultimately show ?thesis using held Got(9) by auto
      qed
      ultimately show ?thesis using good IH2 Got(5,6,8) by auto
    next
      case (Refused e)
      with run Get IH [OF ok _ dom held] show ?thesis by simp
    qed
  next
    case (Put h)
    show ?thesis
    proof (cases "held h = None")
      case True
      with run Put IH [OF ok _ dom held] show ?thesis by simp
    next
      case False
      then have hl: "h \<in> live s" using dom by auto
      obtain t where t: "release s h = (Ok (), t)" "ok t" "live t = live s - {h}" "pool t = pool s"
        "\<forall>g\<in>live t. rng t g = rng s g"
        using release_result [OF ok hl] by blast
      have run2: "run_blocks rng pool alloc release t (held(h := None)) ops = (good, held', s')"
        using run Put False t(1) by simp
      have "good \<and> ok s' \<and> dom held' = live s' \<and> pool s' = pool t \<and>
         (\<forall>h\<in>live s'. held' h = Some (rng s' h))"
      proof (rule IH [OF t(2) run2])
        show "dom (held(h := None)) = live t" using dom t(3) by simp
        show "(held(h := None)) g = Some (rng t g)" if "g \<in> live t" for g
          using that t(3,5) held by auto
      qed
      with t(4) show ?thesis by simp
    qed
  qed
qed

text \<open>The blocks in use never claim more bytes than the pool has.\<close>

lemma live_bytes:
  assumes "ok s" "finite (live s)"
  shows "(\<Sum>h\<in>live s. card (rng s h)) \<le> pool s"
proof -
  have fin: "finite (rng s h)" if "h \<in> live s" for h
    using live_in_pool [OF assms(1) that] finite_subset by blast
  have "(\<Sum>h\<in>live s. card (rng s h)) = card (\<Union>h\<in>live s. rng s h)"
    using assms fin live_disjoint by (subst card_UN_disjoint) auto
  also have "\<dots> \<le> card {..<pool s}"
    using live_in_pool [OF assms(1)] by (intro card_mono) auto
  finally show ?thesis by simp
qed

end

end
