(* ===== verification/Buddy_Correct.thy ===== *)
theory Buddy_Correct
  imports Buddy_Steps Block_Source
begin

unbundle bit_operations_syntax

text \<open>
  Correctness of the public operations of \<open>BUDDY_ALLOCATOR/src/buddy_allocator.c\<close>: the invariant
  (the free and the allocated blocks tile the pool and no two free blocks are buddies), its
  establishment by \<open>buddy_alloc_create\<close>, its preservation on every branch of allocation and
  release, and the exact conditions of success and failure.
\<close>

section \<open>The invariant\<close>

definition buddy_inv :: "nat \<Rightarrow> nat \<Rightarrow> buddy_alloc \<Rightarrow> nat set \<Rightarrow> nat set \<Rightarrow> bool" where
  "buddy_inv k L b R T \<longleftrightarrow>
     wf k L b (R \<union> T) R T \<and> R \<inter> T = {} \<and> tiling L (R \<union> T) \<and>
     (\<forall>n\<in>R. 2 \<le> n \<longrightarrow> sibling n \<notin> R)"

lemma buddy_invD:
  assumes "buddy_inv k L b R T"
  shows "wf k L b (R \<union> T) R T" "R \<inter> T = {}" "tiling L (R \<union> T)"
    "n \<in> R \<Longrightarrow> 2 \<le> n \<Longrightarrow> sibling n \<notin> R" "shape k L b"
  using assms wfD(1) by (auto simp: buddy_inv_def)

section \<open>Allocation\<close>

lemma allocate_cases:
  assumes inv: "buddy_inv k L b R T"
  obtains (Invalid) "\<not> acceptable k L v" "allocate_body b v = (Err EINVAL, b)"
  | (Full) d where "acceptable k L v" "fits k L v d" "\<forall>n\<in>R. d < depth n"
      "allocate_body b v = (Err ENFILE, b)"
  | (Done) p b' R' r where "acceptable k L v" "allocate_body b v = (Ok p, b')"
      "fits k L v (depth (Suc p))" "Suc p \<notin> T" "r \<in> R" "under L (Suc p) \<subseteq> under L r"
      "buddy_inv k L b' R' (insert (Suc p) T)"
proof (cases "v = 0")
  case True
  then show ?thesis by (intro Invalid) (simp_all add: acceptable_def allocate_body_def)
next
  case False
  note w = buddy_invD(1) [OF inv] and RT = buddy_invD(2) [OF inv] and t = buddy_invD(3) [OF inv]
    and nob = buddy_invD(4) [OF inv] and s = buddy_invD(5) [OF inv]
  show ?thesis
  proof (cases "acceptable k L v")
    case False
    with request_level [OF s \<open>v \<noteq> 0\<close>] have "get_block_level b (next_pow2 v) OutAddr = Err EINVAL"
      by blast
    with False \<open>v \<noteq> 0\<close> show ?thesis by (intro Invalid) (simp_all add: allocate_body_def)
  next
    case acc: True
    with request_level [OF s \<open>v \<noteq> 0\<close>] obtain d where
      d: "fits k L v d" "get_block_level b (next_pow2 v) OutAddr = Ok (of_nat d)" by blast
    then have dL: "d < L" by (simp add: fits_def)
    from allocate_at_level_cases [OF w dL] consider
      (none) "allocate_at_level b (of_nat d) OutAddr = (Ok None, b)" "\<forall>n\<in>R. depth n \<noteq> d"
    | (some) p b' where "allocate_at_level b (of_nat d) OutAddr = (Ok (Some p), b')"
        "Suc p \<in> R" "depth (Suc p) = d" "wf k L b' (R \<union> T) (R - {Suc p}) (insert (Suc p) T)"
      by blast
    then show ?thesis
    proof cases
      case some
      have e: "R - {Suc p} \<union> insert (Suc p) T = R \<union> T" using some(2) by auto
      have "buddy_inv k L b' (R - {Suc p}) (insert (Suc p) T)"
        unfolding buddy_inv_def e using some(4) t RT nob by auto
      moreover have "allocate_body b v = (Ok p, b')"
        using \<open>v \<noteq> 0\<close> d(2) some(1) by (simp add: allocate_body_def)
      moreover have "Suc p \<notin> T" using some(2) RT by auto
      ultimately show ?thesis using acc d(1) some(2,3) by (intro Done [of p b' "Suc p"]) auto
    next
      case none
      have run: "allocate_body b v = and_then (find_non_empty_level b (of_nat d), b) (\<lambda>level b.
                 and_then (split_block_down b level (of_nat d) OutAddr) (\<lambda>req_block b.
                 and_then (upd_blk req_block (\<lambda>x. x\<lparr>is_allocated := True\<rparr>) b) (\<lambda>_ b.
                 (Ok req_block, b))))"
        using \<open>v \<noteq> 0\<close> d(2) none(1) by (simp add: allocate_body_def)
      from find_level_cases [OF w dL] consider
        (full) "find_non_empty_level b (of_nat d) = Err ENFILE" "\<forall>n\<in>R. d < depth n"
      | (found) n where "find_non_empty_level b (of_nat d) = Ok (of_nat (depth n))" "n \<in> R"
          "depth n \<le> d"
        by blast
      then show ?thesis
      proof cases
        case full
        with run acc d(1) show ?thesis by (intro Full) simp_all
      next
        case found
        then have "depth n < d" using none(2) le_neq_implies_less by blast
        from split_block_down_wf [OF w t RT found(2) this dL] obtain p b1 r D where
          b1: "split_block_down b (of_nat (depth n)) (of_nat d) OutAddr = (Ok p, b1)"
          and r: "r \<in> R" "depth r = depth n"
          and w1: "wf k L b1 (insert (Suc p) (R \<union> T - {r} \<union> D)) (R - {r} \<union> D) T"
          and t1: "tiling L (insert (Suc p) (R \<union> T - {r} \<union> D))"
          and p: "depth (Suc p) = d" "Suc p \<notin> R \<union> T - {r} \<union> D" "under L (Suc p) \<subseteq> under L r"
          and D: "(R \<union> T - {r}) \<inter> D = {}" "\<forall>x\<in>D. 2 \<le> x \<and> under L (Suc p) \<subseteq> under L (sibling x)"
          by blast
        let ?R = "R - {r} \<union> D" and ?T = "insert (Suc p) T"
        have rT: "r \<notin> T" using r RT by blast
        have e: "insert (Suc p) (R \<union> T - {r} \<union> D) = ?R \<union> ?T" using rT by auto
        note m = wf_mark [OF w1, of "Suc p", simplified]
        have "sibling x \<notin> ?R" if "x \<in> ?R" "2 \<le> x" for x
        proof
          assume sx: "sibling x \<in> ?R"
          have no: "\<not> under L (Suc p) \<subseteq> under L y" if "y \<in> ?R" for y
            using tiling_no_nesting [OF t1, of y "Suc p"] that p(2) by auto
          show False
          proof (cases "x \<in> D \<or> sibling x \<in> D")
            case True
            then have "under L (Suc p) \<subseteq> under L x \<or> under L (Suc p) \<subseteq> under L (sibling x)"
              using D(2) by (metis sibling_sibling)
            then show False using no [OF sx] no [OF that(1)] by blast
          next
            case False
            with that sx nob show False by auto
          qed
        qed
        then have "buddy_inv k L (updb p (\<lambda>x. x\<lparr>is_allocated := True\<rparr>) b1) ?R ?T"
          unfolding buddy_inv_def using m(2) t1 p(2) D(1) RT rT by (auto simp: e)
        moreover have "allocate_body b v = (Ok p, updb p (\<lambda>x. x\<lparr>is_allocated := True\<rparr>) b1)"
          using run found(1) b1 m(1) by simp
        moreover have "Suc p \<notin> T" using p(2) rT by auto
        ultimately show ?thesis using acc d(1) r(1) p by (intro Done) auto
      qed
    qed
  qed
qed

section \<open>Release\<close>

lemma free_body_inv:
  assumes inv: "buddy_inv k L b R T" and p: "Suc p \<in> T"
  shows "\<exists>b' R'. free_body b p = (Ok (), b') \<and> buddy_inv k L b' R' (T - {Suc p})"
proof -
  note w = buddy_invD(1) [OF inv] and RT = buddy_invD(2) [OF inv] and t = buddy_invD(3) [OF inv]
    and nob = buddy_invD(4) [OF inv] and s = buddy_invD(5) [OF inv]
  let ?n = "Suc p" and ?A = "R \<union> (T - {Suc p})"
  have nA: "?n \<in> R \<union> T" "?n \<notin> R" using p RT by auto
  have nr: "?n \<in> {1..<2 ^ L}" using nA wfD(2) [OF w] by blast
  have d: "depth ?n < L" using depth_less_levels [OF nr] .
  have L64: "L < 64" using shapeD(2) [OF s] by simp
  have blk: "get_blk b p = Ok (node_block b ?n)" using wf_get_blk [OF w nr] by simp
  have lev: "(ucast (blk_level (node_block b ?n)) :: u32) = of_nat (depth ?n)"
    "uint (blk_level (node_block b ?n)) = int (depth ?n)"
    "blk_offset (node_block b ?n) = node_offset k L ?n"
    using wfD(6,7) [OF w nA(1)] level_word [of "depth ?n"] d L64 by simp_all
  have guard: "\<not> (of_nat (depth ?n) :: u32) \<ge> num_of_levels b"
    using d L64 by (simp add: shapeD(5) [OF s] word_le_nat_alt unat_of_nat_lt)
  note size = get_block_size_node [OF s d]
  define b1 where "b1 = updb p (\<lambda>x. x\<lparr>is_active := False\<rparr>) b"
  have e: "R \<union> T - {?n} = ?A" using nA(2) by blast
  have b1: "upd_blk p (\<lambda>x. x\<lparr>is_active := False\<rparr>) b = (Ok (), b1)"
    "wf k L b1 ?A R (T - {?n})"
    using wf_deactivate [OF w nA] by (simp_all add: b1_def e)
  have ins: "insert ?n ?A = R \<union> T" using p by blast
  have "tiling L (insert ?n ?A)" unfolding ins by (rule t)
  from merge_loop_wf [OF b1(2) refl _ this _ refl] obtain b2 c M where
    b2: "merge_loop b1 (int (depth ?n)) (node_offset k L ?n) (pow2 (size_exp k L ?n)) =
           (Ok (int (depth c), node_offset k L c, pow2 (size_exp k L c)), b2)"
    and M: "M \<subseteq> R" "wf k L b2 (?A - M) (R - M) (T - {?n})" "c \<notin> ?A - M"
      "tiling L (insert c (?A - M))" "2 \<le> c \<longrightarrow> sibling c \<notin> R - M"
    using RT nA(2) by blast
  have cr: "c \<in> {1..<2 ^ L}" using tiling_subset [OF M(4)] by blast
  then obtain q where q: "c = Suc q" by (cases c) auto
  have dw: "word_of_int (int (depth c)) = (of_nat (depth c) :: u32)" by simp
  obtain b3 where b3: "create_new_block b2 (of_nat (depth c)) (node_offset k L c)
      (pow2 (size_exp k L c)) OutAddr = (Ok q, b3)" "wf k L b3 (insert c (?A - M)) (R - M) (T - {?n})"
    using wf_create [OF M(2) cr M(3)] q by (metis diff_Suc_1)
  have cR: "c \<notin> R - M" using M(3) by blast
  obtain b4 where b4: "linked_list_add_block b3 (Some q) = (Ok (), b4)"
    "wf k L b4 (insert c (?A - M)) (insert c (R - M)) (T - {?n})"
    using wf_add [OF b3(2), of q] cR q by blast
  have run: "free_body b p = (Ok (), b4)"
    using guard by (simp add: free_body_def blk lev size b1(1) b2 b3(1) b4(1))
  have "M \<inter> T = {}" using M(1) RT by blast
  then have e2: "insert c (?A - M) = insert c (R - M) \<union> (T - {?n})" by blast
  have cT: "c \<notin> T - {?n}" using M(3) \<open>M \<inter> T = {}\<close> by blast
  have "sibling x \<notin> insert c (R - M)" if x: "x \<in> insert c (R - M)" "2 \<le> x" for x
  proof
    assume sx: "sibling x \<in> insert c (R - M)"
    consider "x = c" | "x \<noteq> c" "x \<in> R - M" "sibling x = c" | "x \<in> R" "sibling x \<in> R"
      using x(1) sx by blast
    then show False
    proof cases
      case 1
      with sx x(2) M(5) show False by auto
    next
      case 2
      then have "x = sibling c" by auto
      with 2 x(2) M(5) sibling_ge_2 [OF x(2)] show False by auto
    next
      case 3
      with x(2) nob show False by blast
    qed
  qed
  then have "buddy_inv k L b4 (insert c (R - M)) (T - {?n})"
    unfolding buddy_inv_def using b4(2) M(4) cT RT by (auto simp: e2)
  with run show ?thesis by blast
qed

section \<open>Creation\<close>

text \<open>The state in which \<open>buddy_alloc_create\<close> makes the root block.\<close>

definition blank_alloc :: "nat \<Rightarrow> nat \<Rightarrow> buddy_alloc" where
  "blank_alloc k L =
     \<lparr>min_block_size = pow2 k, num_of_levels = of_nat L,
      mem_pool_ptr = Ptr \<lparr>elements_array = replicate (2 ^ L - 1) zero_block,
                         num_of_elements = of_nat (2 ^ L - 1), size_of_element = sizeof_block\<rparr>,
      free_list = replicate L None\<rparr>"

lemma blank_wf:
  assumes "0 < L" "L \<le> 27" "k + (L - 1) < 32"
  shows "wf k L (blank_alloc k L) {} {} {}"
proof -
  have "shape k L (blank_alloc k L)" using assms by (simp add: shape_def blank_alloc_def)
  moreover have "\<not> is_active (node_block (blank_alloc k L) n)" if "n \<in> {1..<2 ^ L}" for n
    using that by (auto simp: node_block_def blocks_def blank_alloc_def zero_block_def)
  moreover have "lists_ok L (blank_alloc k L) {} (\<lambda>_. [])"
    by (simp add: lists_ok_def dlist_def blank_alloc_def)
  ultimately show ?thesis unfolding wf_def by auto
qed

lemma root_inv:
  assumes "0 < L" "L \<le> 27" "k + (L - 1) < 32"
  shows "\<exists>b2 b3. create_new_block (blank_alloc k L) 0 0 (pow2 (k + (L - 1))) OutAddr = (Ok 0, b2) \<and>
           linked_list_add_block b2 (Some 0) = (Ok (), b3) \<and> buddy_inv k L b3 {1} {}"
proof -
  have r: "(1 :: nat) \<in> {1..<2 ^ L}" using one_less_power [of "2::nat" L] assms(1) by simp
  have e: "node_offset k L (Suc 0) = 0" "size_exp k L (Suc 0) = k + (L - 1)" "index (Suc 0) = 0"
    by (simp_all add: node_offset_def size_exp_def index_def)
  obtain b2 where b2: "create_new_block (blank_alloc k L) 0 0 (pow2 (k + (L - 1))) OutAddr = (Ok 0, b2)"
    "wf k L b2 {1} {} {}"
    using wf_create [OF blank_wf [OF assms] r] e by auto
  obtain b3 where b3: "linked_list_add_block b2 (Some 0) = (Ok (), b3)" "wf k L b3 {1} {1} {}"
    using wf_add [OF b2(2), of 0] by auto
  have "buddy_inv k L b3 {1} {}"
    using b3(2) tiling_root [OF assms(1)] by (simp add: buddy_inv_def)
  with b2 b3 show ?thesis by blast
qed

text \<open>Up to 31 levels the root block can be made.\<close>

lemma root_made:
  assumes "0 < L" "L \<le> 31" "S < 32"
  shows "\<exists>b2 b3. create_new_block (blank_alloc k L) 0 0 (pow2 S) OutAddr = (Ok 0, b2) \<and>
           linked_list_add_block b2 (Some 0) = (Ok (), b3)"
proof -
  have "(2::nat) ^ L \<le> 2 ^ 31" "(2::nat) ^ 1 \<le> 2 ^ L" using assms by (intro power_increasing; simp)+
  then have N: "0 < (2::nat) ^ L - 1" "(2::nat) ^ L - 1 < 2 ^ 32" by simp_all
  then have u: "unat (of_nat (2 ^ L - 1) :: u32) = 2 ^ L - 1" by (intro unat_of_nat_lt) simp
  then have n0: "\<not> of_nat (2 ^ L - 1) \<le> (0 :: u32)" using N(1) by (simp add: word_le_nat_alt)
  have slot: "calc_buddy_allocator_slot 0 0 (pow2 S) = Ok 0"
    using slot_pow2 [of 0 S 0] assms(3) by simp
  obtain b2 where b2: "create_new_block (blank_alloc k L) 0 0 (pow2 S) OutAddr = (Ok 0, b2)"
    "blocks b2 \<noteq> []" "blk_level (blocks b2 ! 0) = 0" "free_list b2 = replicate L None"
    "mem_pool_ptr b2 \<noteq> NULL"
    using N(1) n0 assms(1)
    by (simp add: create_new_block_def slot mem_pool_get_block_def blank_alloc_def sizeof_block_def
        get_blk_def blocks_def upd_blk_def set_blocks_def zero_block_def del: of_nat_diff)
  then obtain p where "mem_pool_ptr b2 = Ptr p" by (cases "mem_pool_ptr b2") (auto simp: blocks_def)
  with b2 assms(1) have "\<exists>b3. linked_list_add_block b2 (Some 0) = (Ok (), b3)"
    by (auto simp: linked_list_add_block_def get_blk_def get_head_def upd_blk_def set_head_def
        blocks_def set_blocks_def)
  with b2(1) show ?thesis by blast
qed

text \<open>What the code accepts as a configuration.\<close>

definition valid_cfg :: "buddy_alloc_cfg \<Rightarrow> nat \<Rightarrow> nat \<Rightarrow> bool" where
  "valid_cfg cfg k L \<longleftrightarrow> 0 < L \<and> k + (L - 1) < 32 \<and>
     cfg_min_block_size cfg = pow2 k \<and> total_mem_pool_size cfg = pow2 (k + (L - 1))"

lemma valid_cfg_guards:
  assumes "valid_cfg cfg k L"
  shows "\<not> (cfg_min_block_size cfg = 0 \<or> total_mem_pool_size cfg = 0
            \<or> total_mem_pool_size cfg AND (total_mem_pool_size cfg - 1) \<noteq> 0
            \<or> cfg_min_block_size cfg AND (cfg_min_block_size cfg - 1) \<noteq> 0)"
    "\<not> cfg_min_block_size cfg > total_mem_pool_size cfg"
    "calc_num_of_levels (total_mem_pool_size cfg) (cfg_min_block_size cfg) = Ok (of_nat L)"
    "\<not> (of_nat L :: u32) > MAX_LEVELS"
proof -
  note v = assms [unfolded valid_cfg_def]
  have k: "k < 32" "k + (L - 1) < 32" "0 < L" using v by auto
  show "\<not> (cfg_min_block_size cfg = 0 \<or> total_mem_pool_size cfg = 0
            \<or> total_mem_pool_size cfg AND (total_mem_pool_size cfg - 1) \<noteq> 0
            \<or> cfg_min_block_size cfg AND (cfg_min_block_size cfg - 1) \<noteq> 0)"
    using v and_pred_pow2 [OF k(1)] and_pred_pow2 [OF k(2)] pow2_eq_0_iff [OF k(1)]
      pow2_eq_0_iff [OF k(2)] by auto
  show "\<not> cfg_min_block_size cfg > total_mem_pool_size cfg"
  proof -
    have "\<not> pow2 (k + (L - 1)) < pow2 k" unfolding pow2_less_iff [OF k(2,1)] by simp
    with v show ?thesis by simp
  qed
  have "Suc (k + (L - 1) - k) = L" using k by simp
  then show "calc_num_of_levels (total_mem_pool_size cfg) (cfg_min_block_size cfg) = Ok (of_nat L)"
    using v calc_num_of_levels_pow2 [OF le_add1 k(2)] by simp
  have "unat (of_nat L :: u32) = L" using k by (intro unat_of_nat_lt) simp
  then show "\<not> (of_nat L :: u32) > MAX_LEVELS"
    using k by (simp add: MAX_LEVELS_def word_less_nat_alt)
qed

lemma invalid_cfg_guards:
  assumes "\<And>k L. \<not> valid_cfg cfg k L"
  shows "cfg_min_block_size cfg = 0 \<or> total_mem_pool_size cfg = 0
            \<or> total_mem_pool_size cfg AND (total_mem_pool_size cfg - 1) \<noteq> 0
            \<or> cfg_min_block_size cfg AND (cfg_min_block_size cfg - 1) \<noteq> 0
            \<or> cfg_min_block_size cfg > total_mem_pool_size cfg"
proof (rule ccontr)
  assume a: "\<not> ?thesis"
  obtain k where k: "k < 32" "cfg_min_block_size cfg = pow2 k"
    using pow2_if_and_pred [of "cfg_min_block_size cfg"] a by blast
  obtain n where n: "n < 32" "total_mem_pool_size cfg = pow2 n"
    using pow2_if_and_pred [of "total_mem_pool_size cfg"] a by blast
  have "k \<le> n" using a k n pow2_less_iff [of n k] by auto
  then have "valid_cfg cfg k (Suc (n - k))" using k n by (simp add: valid_cfg_def)
  with assms show False by blast
qed

lemma create_valid:
  assumes v: "valid_cfg cfg k L" and L: "L \<le> 31"
  shows "buddy_alloc_create a p e (Ptr cfg) OutAddr =
     (if \<not> a \<or> \<not> p then Err ENOMEM else if \<not> e then UB
      else Ok (Ptr (snd (linked_list_add_block
                     (snd (create_new_block (blank_alloc k L) 0 0 (pow2 (k + (L - 1))) OutAddr))
                     (Some 0)))))"
proof -
  note g = valid_cfg_guards [OF v]
  have vv: "0 < L" "k + (L - 1) < 32" "cfg_min_block_size cfg = pow2 k"
    "total_mem_pool_size cfg = pow2 (k + (L - 1))" using v unfolding valid_cfg_def by blast+
  have nodes: "calc_max_nodes (of_nat L) = Ok (of_nat (2 ^ L - 1))"
    using calc_max_nodes_Ok [OF vv(1) L] by (simp add: pow2_of_nat of_nat_diff)
  have L32: "unat (of_nat L :: u32) = L" using L by (intro unat_of_nat_lt) simp
  have "(2::nat) ^ L \<le> 2 ^ 31" "(2::nat) ^ 1 \<le> 2 ^ L" using L vv(1) by (intro power_increasing; simp)+
  then have N: "(2::nat) ^ L - 1 \<noteq> 0" "(2::nat) ^ L - 1 < 2 ^ 32" by simp_all
  then have u: "unat (of_nat (2 ^ L - 1) :: u32) = 2 ^ L - 1" by (intro unat_of_nat_lt) simp
  then have nz: "of_nat (2 ^ L - 1) \<noteq> (0 :: u32)" using N(1) by (metis unat_0)
  obtain b2 b3 where r: "create_new_block (blank_alloc k L) 0 0 (pow2 (k + (L - 1))) OutAddr = (Ok 0, b2)"
    "linked_list_add_block b2 (Some 0) = (Ok (), b3)"
    using root_made [OF vv(1) L vv(2)] by blast
  have pool: "mem_pool_create True True OutAddr
      (Ptr \<lparr>element_size = sizeof_block, num_elements = of_nat (2 ^ L - 1)\<rparr>) NULL =
      (Ok (), mem_pool_ptr (blank_alloc k L))"
    using nz by (simp add: mem_pool_create_def sizeof_block_def blank_alloc_def u del: of_nat_diff One_nat_def)
  have nopool: "mem_pool_create p e OutAddr
      (Ptr \<lparr>element_size = sizeof_block, num_elements = of_nat (2 ^ L - 1)\<rparr>) NULL =
      (Err ENOMEM, if p then Freed else NULL)" if "\<not> p \<or> \<not> e"
    using nz that by (auto simp: mem_pool_create_def sizeof_block_def simp del: of_nat_diff)
  have blank: "\<lparr>min_block_size = 0, num_of_levels = 0, mem_pool_ptr = NULL,
                 free_list = replicate L None\<rparr>
        \<lparr>mem_pool_ptr := mem_pool_ptr (blank_alloc k L), min_block_size := pow2 k,
         num_of_levels := of_nat L\<rparr> = blank_alloc k L"
    by (simp add: blank_alloc_def)
  show ?thesis
  proof (cases "a \<and> p \<and> e")
    case True
    then show ?thesis
      using g nodes L32 pool r blank vv(3,4)
      by (simp add: buddy_alloc_create_def Let_def del: of_nat_diff)
  next
    case False
    then show ?thesis
      using g nodes nopool
      by (auto simp: buddy_alloc_create_def Let_def create_fail_def mem_pool_destroy_def
          simp del: of_nat_diff)
  qed
qed

end
