(* ===== verification/Buddy_Contract.thy ===== *)
theory Buddy_Contract
  imports Buddy_Correct
begin

text \<open>
  What the buddy allocator promises its clients, in terms of the C structs only: which handles
  are live, which bytes of the pool a handle owns, and the contract \<open>block_source\<close>, which the
  model of the code satisfies. The properties of the allocator follow.
\<close>

section \<open>The client's view\<close>

definition live_handles :: "buddy_alloc \<Rightarrow> nat set" where
  "live_handles b =
     {p. p < length (blocks b) \<and> is_active (blocks b ! p) \<and> is_allocated (blocks b ! p)}"

definition free_handles :: "buddy_alloc \<Rightarrow> nat set" where
  "free_handles b =
     {p. p < length (blocks b) \<and> is_active (blocks b ! p) \<and> \<not> is_allocated (blocks b ! p)}"

definition block_len :: "buddy_alloc \<Rightarrow> nat \<Rightarrow> nat" where
  "block_len b p =
     (case get_block_size (ucast (blk_level (blocks b ! p))) (min_block_size b) (num_of_levels b) of
        Ok s \<Rightarrow> unat s | _ \<Rightarrow> 0)"

definition block_range :: "buddy_alloc \<Rightarrow> nat \<Rightarrow> nat set" where
  "block_range b p = {unat (blk_offset (blocks b ! p)) ..< unat (blk_offset (blocks b ! p)) + block_len b p}"

definition pool_bytes :: "buddy_alloc \<Rightarrow> nat" where
  "pool_bytes b = unat (min_block_size b) * 2 ^ (unat (num_of_levels b) - 1)"

text \<open>The invariant without its parameters.\<close>

definition buddy_ok :: "buddy_alloc \<Rightarrow> bool" where
  "buddy_ok b \<longleftrightarrow> (\<exists>k L R T. buddy_inv k L b R T)"

lemma buddy_okI: "buddy_inv k L b R T \<Longrightarrow> buddy_ok b"
  by (auto simp: buddy_ok_def)

lemma inv_handles:
  assumes "buddy_inv k L b R T"
  shows "p \<in> live_handles b \<longleftrightarrow> Suc p \<in> T" "p \<in> free_handles b \<longleftrightarrow> Suc p \<in> R"
proof -
  note w = buddy_invD(1) [OF assms] and RT = buddy_invD(2) [OF assms]
  have l: "length (blocks b) = 2 ^ L - 1" using shapeD(7) [OF buddy_invD(5) [OF assms]] .
  have nb: "blocks b ! p = node_block b (Suc p)" by (simp add: node_block_def)
  have "p < length (blocks b) \<longleftrightarrow> Suc p \<in> {1..<2 ^ L}" unfolding l by auto
  with wfD(2) [OF w] wfD(5,8) [OF w, of "Suc p"] RT
  show "p \<in> live_handles b \<longleftrightarrow> Suc p \<in> T" "p \<in> free_handles b \<longleftrightarrow> Suc p \<in> R"
    unfolding live_handles_def free_handles_def nb mem_Collect_eq by blast+
qed

lemma inv_range:
  assumes inv: "buddy_inv k L b R T" and p: "Suc p \<in> R \<union> T"
  shows "block_len b p = 2 ^ size_exp k L (Suc p)"
    and "block_range b p = bytes_of (k + (L - 1)) (Suc p)"
proof -
  note w = buddy_invD(1) [OF inv] and s = buddy_invD(5) [OF inv]
  have nr: "Suc p \<in> {1..<2 ^ L}" using wfD(2) [OF w] p by blast
  have nb: "blocks b ! p = node_block b (Suc p)" by (simp add: node_block_def)
  have d: "depth (Suc p) < L" using depth_less_levels [OF nr] .
  then have d64: "depth (Suc p) < 64" using shapeD(2) [OF s] by simp
  note fits = node_offset_fits [OF s nr]
  show len: "block_len b p = 2 ^ size_exp k L (Suc p)"
    using get_block_size_node [OF s d] wfD(6) [OF w p] level_word(1) [OF d64] fits(2)
    by (simp add: block_len_def nb)
  have "unat (blk_offset (blocks b ! p)) = index (Suc p) * 2 ^ size_exp k L (Suc p)"
    unfolding nb wfD(7) [OF w p] node_offset_def using fits(1) by (rule unat_of_nat_32)
  with len show "block_range b p = bytes_of (k + (L - 1)) (Suc p)"
    by (simp add: block_range_def bytes_of_def size_exp_def add.commute)
qed

lemma inv_pool:
  assumes "buddy_inv k L b R T"
  shows "pool_bytes b = 2 ^ (k + (L - 1))"
proof -
  note s = shapeD [OF buddy_invD(5) [OF assms]]
  have "unat (of_nat L :: u32) = L" using s(2) by (intro unat_of_nat_lt) simp
  moreover have "k < 32" using s(3) by simp
  ultimately show ?thesis unfolding pool_bytes_def s(4,5) power_add by simp
qed

lemma inv_ranges:
  assumes inv: "buddy_inv k L b R T"
  shows "Suc p \<in> R \<union> T \<Longrightarrow> Suc q \<in> R \<union> T \<Longrightarrow> p \<noteq> q \<Longrightarrow> block_range b p \<inter> block_range b q = {}"
    and "(\<Union>p\<in>live_handles b \<union> free_handles b. block_range b p) = {..<pool_bytes b}"
proof -
  note tb = tiling_bytes [OF buddy_invD(3) [OF inv] refl shapeD(1) [OF buddy_invD(5) [OF inv]]]
  show "block_range b p \<inter> block_range b q = {}"
    if "Suc p \<in> R \<union> T" "Suc q \<in> R \<union> T" "p \<noteq> q"
    using tb(1) [OF that(1,2)] that(3) inv_range(2) [OF inv that(1)] inv_range(2) [OF inv that(2)]
    by simp
  have "n \<in> Suc ` (live_handles b \<union> free_handles b)" if "n \<in> R \<union> T" for n
  proof -
    have "n \<noteq> 0" using that wfD(2) [OF buddy_invD(1) [OF inv]] by auto
    then obtain p where "n = Suc p" by (cases n) auto
    with that inv_handles [OF inv] show ?thesis by blast
  qed
  then have "R \<union> T = Suc ` (live_handles b \<union> free_handles b)"
    using inv_handles [OF inv] by blast
  then have "(\<Union>n\<in>R \<union> T. bytes_of (k + (L - 1)) n) =
               (\<Union>p\<in>live_handles b \<union> free_handles b. bytes_of (k + (L - 1)) (Suc p))" by simp
  also have "\<dots> = (\<Union>p\<in>live_handles b \<union> free_handles b. block_range b p)"
    using inv_range(2) [OF inv] inv_handles [OF inv] by (intro SUP_cong) auto
  finally show "(\<Union>p\<in>live_handles b \<union> free_handles b. block_range b p) = {..<pool_bytes b}"
    using tb(2) by (simp add: inv_pool [OF inv])
qed

section \<open>The contract\<close>

lemma allocate_contract:
  assumes "buddy_ok b"
  shows "(\<exists>h b'. allocate_body b v = (Ok h, b') \<and> buddy_ok b' \<and> h \<notin> live_handles b \<and>
            live_handles b' = insert h (live_handles b) \<and> unat v \<le> card (block_range b' h) \<and>
            pool_bytes b' = pool_bytes b \<and>
            (\<forall>g\<in>live_handles b. block_range b' g = block_range b g)) \<or>
         (\<exists>e. allocate_body b v = (Err e, b))"
proof -
  from assms obtain k L R T where inv: "buddy_inv k L b R T" by (auto simp: buddy_ok_def)
  note h = inv_handles [OF inv]
  from inv show ?thesis
  proof (cases rule: allocate_cases [where v = v])
    case (Done p b' R' r)
    note h' = inv_handles [OF Done(7)] and rng' = inv_range [OF Done(7)]
    have "live_handles b' = insert p (live_handles b)" using h h' by auto
    moreover have "unat v \<le> 2 ^ size_exp k L (Suc p)"
      using Done(3) unfolding fits_def size_exp_def by blast
    then have "unat v \<le> card (block_range b' p)"
      using rng'(1) [of p] by (simp add: block_range_def)
    moreover have "block_range b' g = block_range b g" if "g \<in> live_handles b" for g
      using that h rng'(2) [of g] inv_range(2) [OF inv, of g] by simp
    moreover have "p \<notin> live_handles b" using h Done(4) by simp
    ultimately show ?thesis
      using Done(2) buddy_okI [OF Done(7)] inv_pool [OF inv] inv_pool [OF Done(7)]
      by (intro disjI1 exI [of _ p] exI [of _ b'] conjI ballI) simp_all
  qed auto
qed

lemma free_contract:
  assumes "buddy_ok b" "h \<in> live_handles b"
  shows "\<exists>b'. free_body b h = (Ok (), b') \<and> buddy_ok b' \<and>
            live_handles b' = live_handles b - {h} \<and> pool_bytes b' = pool_bytes b \<and>
            (\<forall>g\<in>live_handles b'. block_range b' g = block_range b g)"
proof -
  from assms obtain k L R T where inv: "buddy_inv k L b R T" by (auto simp: buddy_ok_def)
  note hn = inv_handles [OF inv]
  with assms(2) have "Suc h \<in> T" by simp
  from free_body_inv [OF inv this] obtain b' R' where
    b': "free_body b h = (Ok (), b')" "buddy_inv k L b' R' (T - {Suc h})" by blast
  note h' = inv_handles [OF b'(2)]
  have "live_handles b' = live_handles b - {h}" using hn h' by auto
  moreover have "block_range b' g = block_range b g" if "g \<in> live_handles b'" for g
    using that h' inv_range(2) [OF b'(2), of g] inv_range(2) [OF inv, of g] by simp
  ultimately show ?thesis
    using b' buddy_okI [OF b'(2)] inv_pool [OF inv] inv_pool [OF b'(2)]
    by (intro exI [of _ b'] conjI ballI) simp_all
qed

interpretation buddy: block_source buddy_ok live_handles block_range pool_bytes allocate_body free_body
proof unfold_locales
  fix b g h
  assume "buddy_ok b"
  then obtain k L R T where inv: "buddy_inv k L b R T" by (auto simp: buddy_ok_def)
  note hn = inv_handles [OF inv]
  show "block_range b h \<subseteq> {..<pool_bytes b}" if "h \<in> live_handles b"
    using inv_ranges(2) [OF inv] that by blast
  show "block_range b g \<inter> block_range b h = {}"
    if "g \<in> live_handles b" "h \<in> live_handles b" "g \<noteq> h"
    using inv_ranges(1) [OF inv] that hn by simp
qed (rule allocate_contract free_contract; assumption)+

section \<open>Walking a free list\<close>

lemma count_loop_list:
  assumes "dlseg nx pv pr h ps la None" "\<And>p. p \<in> set ps \<Longrightarrow> p < length blks \<and> nx p = blk_next (blks ! p)"
    and "c + int (length ps) \<le> INT_MAX"
  shows "count_loop blks h c = Ok (c + int (length ps))"
  using assms
proof (induction ps arbitrary: pr h c)
  case Nil
  then show ?case by (simp add: count_loop.simps)
next
  case (Cons p ps)
  then have "count_loop blks (nx p) (c + 1) = Ok (c + 1 + int (length ps))"
    by (intro Cons.IH [of "Some p"]) simp_all
  with Cons.prems show ?case by (subst count_loop.simps) (simp add: add.assoc)
qed

lemma count_level:
  assumes inv: "buddy_inv k L b R T" and l: "l < L"
  shows "buddy_alloc_count_free_blocks (Ptr b) (of_nat l) OutAddr =
           Ok (of_nat (card {p \<in> free_handles b. blk_level (blocks b ! p) = of_nat l}))"
proof -
  note w = buddy_invD(1) [OF inv] and s = buddy_invD(5) [OF inv]
  obtain F where F: "lists_ok L b R F" using wf_lists [OF w] by blast
  note f = lists_okD [OF F l]
  have blk: "p < length (blocks b) \<and> nxt b p = blk_next (blocks b ! p)" if "p \<in> set (F l)" for p
    using that wfD(2) [OF w] shapeD(7) [OF s] unfolding f(3) by (auto simp: nxt_def)
  have "card (set (F l)) \<le> card {..<length (blocks b)}" using blk by (intro card_mono) auto
  then have "length (F l) \<le> 2 ^ L - 1" using f(2) shapeD(7) [OF s] by (simp add: distinct_card)
  also have "\<dots> \<le> 2 ^ L" by simp
  also note slots_fit [OF shapeD(2) [OF s]]
  finally have bound: "int (length (F l)) \<le> INT_MAX" by (simp add: INT_MAX_def)
  have "count_loop (blocks b) (free_list b ! l) 0 = Ok (int (length (F l)))"
    using f(1) count_loop_list [where c = 0, OF _ blk] bound by (auto simp: dlist_def)
  moreover have "length (F l) = card (set (F l))" using f(2) by (simp add: distinct_card)
  moreover have "set (F l) = {p \<in> free_handles b. blk_level (blocks b ! p) = of_nat l}"
  proof -
    have "blk_level (blocks b ! p) = of_nat l \<longleftrightarrow> depth (Suc p) = l" if "Suc p \<in> R" for p
    proof -
      have "Suc p \<in> {1..<2 ^ L}" using that wfD(2) [OF w] by blast
      then have d: "depth (Suc p) < 64" using depth_less_levels [of "Suc p" L] shapeD(2) [OF s] by simp
      have "blk_level (blocks b ! p) = of_nat (depth (Suc p))"
        using wfD(6) [OF w, of "Suc p"] that by (simp add: node_block_def)
      moreover have "of_nat (depth (Suc p)) = (of_nat l :: 6 word) \<longleftrightarrow> depth (Suc p) = l"
      proof
        assume "of_nat (depth (Suc p)) = (of_nat l :: 6 word)"
        moreover have "l < 64" using l shapeD(2) [OF s] by simp
        ultimately have "int (depth (Suc p)) = int l" using level_word(2) d by metis
        then show "depth (Suc p) = l" by simp
      qed simp
      ultimately show ?thesis by simp
    qed
    then show ?thesis unfolding f(3) using inv_handles(2) [OF inv] by blast
  qed
  ultimately show ?thesis
    by (simp add: buddy_alloc_count_free_blocks_def get_head_Ok [OF s l])
qed

section \<open>The blocks of the free lists\<close>

text \<open>The blocks met on a walk along the free lists, from the first level to the last.\<close>

fun list_walk :: "nat \<Rightarrow> buddy_alloc_block list \<Rightarrow> blk_ptr \<Rightarrow> nat list" where
  "list_walk 0 blks cur = []"
| "list_walk (Suc n) blks cur =
     (case cur of None \<Rightarrow> [] | Some p \<Rightarrow> p # list_walk n blks (blk_next (blks ! p)))"

definition free_blocks :: "buddy_alloc \<Rightarrow> nat list" where
  "free_blocks b = concat (map (list_walk (length (blocks b)) (blocks b)) (free_list b))"

lemma list_walk_dlseg:
  assumes "dlseg nx pv pr h ps la None" "\<And>p. p \<in> set ps \<Longrightarrow> nx p = blk_next (blks ! p)"
    and "length ps \<le> n"
  shows "list_walk n blks h = ps"
  using assms
proof (induction ps arbitrary: pr h n)
  case Nil
  then show ?case by (cases n) simp_all
next
  case (Cons p ps)
  then obtain n' where n: "n = Suc n'" by (cases n) simp_all
  have "list_walk n' blks (nx p) = ps" using Cons.prems n by (intro Cons.IH [of "Some p"]) simp_all
  with Cons.prems n show ?case by simp
qed

lemma distinct_levels:
  assumes "\<And>l. l \<in> set ls \<Longrightarrow> distinct (F l) \<and> (\<forall>p\<in>set (F l). lev p = l)" "distinct ls"
  shows "distinct (concat (map F ls))"
  using assms
proof (induction ls)
  case (Cons l ls)
  have "set (F l) \<inter> (\<Union>m\<in>set ls. set (F m)) = {}"
  proof -
    have "l = m" if "p \<in> set (F l)" "m \<in> set ls" "p \<in> set (F m)" for p m
      using Cons.prems(1) [of l] Cons.prems(1) [of m] that by (metis list.set_intros)
    with Cons.prems(2) show ?thesis by auto
  qed
  with Cons show ?case by simp
qed simp

lemma free_blocks_inv:
  assumes inv: "buddy_inv k L b R T"
  shows "distinct (free_blocks b)" "set (free_blocks b) = free_handles b"
proof -
  note w = buddy_invD(1) [OF inv] and s = buddy_invD(5) [OF inv]
  obtain F where F: "lists_ok L b R F" using wf_lists [OF w] by blast
  have walk: "list_walk (length (blocks b)) (blocks b) (free_list b ! l) = F l" if l: "l < L" for l
  proof -
    note f = lists_okD [OF F l]
    have blk: "p < length (blocks b) \<and> nxt b p = blk_next (blocks b ! p)" if "p \<in> set (F l)" for p
      using that wfD(2) [OF w] shapeD(7) [OF s] unfolding f(3) by (auto simp: nxt_def)
    have "card (set (F l)) \<le> card {..<length (blocks b)}" using blk by (intro card_mono) auto
    then have "length (F l) \<le> length (blocks b)" using f(2) by (simp add: distinct_card)
    with f(1) blk show ?thesis by (auto simp: dlist_def intro!: list_walk_dlseg)
  qed
  have "map (list_walk (length (blocks b)) (blocks b)) (free_list b) = map F [0..<L]"
    using walk shapeD(6) [OF s] by (intro nth_equalityI) simp_all
  then have fb: "free_blocks b = concat (map F [0..<L])" by (simp add: free_blocks_def)
  show "distinct (free_blocks b)" unfolding fb
    using lists_okD(2,3) [OF F]
    by (intro distinct_levels [where lev = "\<lambda>p. depth (Suc p)"]) auto
  have "set (free_blocks b) = {p. Suc p \<in> R \<and> depth (Suc p) < L}"
    unfolding fb using lists_okD(3) [OF F] by auto
  also have "\<dots> = {p. Suc p \<in> R}"
    using wfD(2) [OF w] depth_less_levels [of "Suc _" L] by blast
  finally show "set (free_blocks b) = free_handles b" using inv_handles(2) [OF inv] by blast
qed

section \<open>Fragmentation\<close>

lemma under_subset_depth:
  assumes "under L m \<subseteq> under L n" "depth m < L" "depth n < L"
  shows "depth n \<le> depth m"
proof -
  have "card (under L m) \<le> card (under L n)"
    using assms(1) by (rule card_mono [rotated]) (simp add: under_def)
  then have "(2::nat) ^ (L - 1 - depth m) \<le> 2 ^ (L - 1 - depth n)" by (simp add: under_def)
  then have "L - 1 - depth m \<le> L - 1 - depth n"
    by (metis one_less_numeral_iff power_increasing_iff semiring_norm(76))
  with assms(2,3) show ?thesis by simp
qed

text \<open>If no free block is large enough, every aligned region of that size is partly in use.\<close>

lemma no_free_region:
  assumes inv: "buddy_inv k L b R T" and full: "\<forall>n\<in>R. d < depth n" and d: "d < L" and i: "i < 2 ^ d"
  shows "\<exists>p\<in>live_handles b. block_range b p \<inter> {i * 2 ^ (k + (L - 1) - d) ..< Suc i * 2 ^ (k + (L - 1) - d)} \<noteq> {}"
proof (rule ccontr)
  assume neg: "\<not> ?thesis"
  let ?m = "2 ^ d + i" and ?S = "k + (L - 1)"
  note t = buddy_invD(3) [OF inv] and s = buddy_invD(5) [OF inv]
  have m: "0 < ?m" "depth ?m < L" "depth ?m = d" using i d by (simp_all add: depth_node)
  have mb: "bytes_of ?S ?m = {i * 2 ^ (?S - d) ..< Suc i * 2 ^ (?S - d)}"
    using i by (simp add: bytes_of_def index_node depth_node)
  have "x \<in> R" if x: "x \<in> R \<union> T" "under L x \<inter> under L ?m \<noteq> {}" for x
  proof (rule ccontr)
    assume "x \<notin> R"
    with x(1) have xT: "x \<in> T" by simp
    have x0: "0 < x" "depth x < L" using tilingD(1,2) [OF t x(1)] .
    then obtain p where p: "x = Suc p" by (cases x) auto
    have "p \<in> live_handles b" using xT p inv_handles [OF inv] by simp
    with neg have dis: "bytes_of ?S x \<inter> bytes_of ?S ?m = {}"
      using inv_range(2) [OF inv, of p] x(1) p mb by auto
    obtain q where q: "q \<in> under L x" "q \<in> under L ?m" using x(2) by blast
    have "under L x \<subseteq> under L 1" using under_root [OF x0] .
    then have "q \<in> under L 1" using q by blast
    then have "2 ^ (L - 1) \<le> q" by (simp add: under_def)
    then have e: "2 ^ (L - 1) + (q - 2 ^ (L - 1)) * 2 ^ k div 2 ^ k = q" by simp
    with q bytes_of_leaf [OF x0 refl] bytes_of_leaf [OF m(1,2) refl]
    have "(q - 2 ^ (L - 1)) * 2 ^ k \<in> bytes_of ?S x \<inter> bytes_of ?S ?m" by simp
    with dis show False by blast
  qed
  then obtain r where r: "r \<in> R" "under L ?m \<subseteq> under L r"
    using region_in_one_block [OF t _ _ m(1,2), of R] buddy_invD(4) [OF inv] by blast
  have "depth r < L" using tilingD(2) [OF t] r(1) by blast
  then have "depth r \<le> d" using under_subset_depth [OF r(2) m(2)] m(3) by simp
  with full r(1) show False by auto
qed

end
