(* ===== verification/Buddy_Properties.thy ===== *)
theory Buddy_Properties
  imports Buddy_Contract
begin

unbundle bit_operations_syntax

text \<open>
  The properties of the buddy allocator, stated over its public functions and the structs they
  work on, with a pool of 32 bytes in blocks of at least 8 as the concrete case.
\<close>

section \<open>A concrete allocator\<close>

definition sample_buddy_cfg :: buddy_alloc_cfg where
  "sample_buddy_cfg = \<lparr>total_mem_pool_size = 32, cfg_min_block_size = 8\<rparr>"

definition sample_buddy :: buddy_alloc where
  "sample_buddy =
     (case buddy_alloc_create True True True (Ptr sample_buddy_cfg) OutAddr of
        Ok (Ptr b) \<Rightarrow> b
      | _ \<Rightarrow> blank_alloc 3 3)"

lemma sample_cfg_valid: "valid_cfg sample_buddy_cfg 3 3"
  by (simp add: valid_cfg_def sample_buddy_cfg_def pow2_def push_bit_eq_mult)

section \<open>Creation\<close>

lemma create_inv:
  assumes v: "valid_cfg cfg k L" and L: "L \<le> 27"
  obtains b where "buddy_alloc_create True True True (Ptr cfg) OutAddr = Ok (Ptr b)"
    "buddy_inv k L b {1} {}"
proof -
  have vv: "0 < L" "k + (L - 1) < 32" using v unfolding valid_cfg_def by blast+
  obtain b2 b3 where "create_new_block (blank_alloc k L) 0 0 (pow2 (k + (L - 1))) OutAddr = (Ok 0, b2)"
    "linked_list_add_block b2 (Some 0) = (Ok (), b3)" "buddy_inv k L b3 {1} {}"
    using root_inv [OF vv(1) L vv(2)] by blast
  with create_valid [OF v, of True True True] L that show ?thesis by simp
qed

lemma root_handles:
  assumes "buddy_inv k L b {1} {}"
  shows "live_handles b = {}" "free_handles b = {0}"
  using inv_handles [OF assms] by auto

lemma sample_buddy_inv: "buddy_inv 3 3 sample_buddy {1} {}"
proof -
  obtain b where "buddy_alloc_create True True True (Ptr sample_buddy_cfg) OutAddr = Ok (Ptr b)"
    "buddy_inv 3 3 b {1} {}"
    using create_inv [OF sample_cfg_valid] by auto
  then show ?thesis by (simp add: sample_buddy_def)
qed

lemma sample_buddy_ok: "buddy_ok sample_buddy"
  using sample_buddy_inv by (rule buddy_okI)

text \<open>
  C27. A configuration of powers of two with the minimal block not above the pool and at most 27
  levels gives an allocator that satisfies the invariant: one free block that is the whole
  pool, nothing allocated.
\<close>

theorem buddy_create_establishes:
  assumes "valid_cfg cfg k L" "L \<le> 27"
  shows "\<exists>b. buddy_alloc_create True True True (Ptr cfg) OutAddr = Ok (Ptr b) \<and> buddy_ok b \<and>
           live_handles b = {} \<and> free_handles b = {0} \<and>
           block_range b 0 = {..<unat (total_mem_pool_size cfg)}"
proof -
  obtain b where b: "buddy_alloc_create True True True (Ptr cfg) OutAddr = Ok (Ptr b)"
    "buddy_inv k L b {1} {}" using create_inv [OF assms] .
  have "unat (total_mem_pool_size cfg) = pool_bytes b"
    using assms(1) unfolding inv_pool [OF b(2)] valid_cfg_def by (metis unat_pow2)
  with inv_ranges(2) [OF b(2)] root_handles [OF b(2)] b buddy_okI show ?thesis by auto
qed

theorem buddy_create_establishes_witness:
  "\<exists>b. buddy_alloc_create True True True (Ptr sample_buddy_cfg) OutAddr = Ok (Ptr b) \<and> buddy_ok b \<and>
           live_handles b = {} \<and> free_handles b = {0} \<and> block_range b 0 = {..<32}"
  using buddy_create_establishes [OF sample_cfg_valid] by (simp add: sample_buddy_cfg_def)

text \<open>
  C28. \<open>buddy_alloc_create\<close> answers \<open>-EINVAL\<close> exactly for the configurations that are not a
  power-of-two pool cut into power-of-two minimal blocks, whatever the allocations of the C
  library give.
\<close>

theorem buddy_create_rejects:
  "buddy_alloc_create a p e (Ptr cfg) OutAddr = Err EINVAL \<longleftrightarrow> \<not> (\<exists>k L. valid_cfg cfg k L)"
proof (cases "\<exists>k L. valid_cfg cfg k L")
  case False
  then have "buddy_alloc_create a p e (Ptr cfg) OutAddr = Err EINVAL"
    using invalid_cfg_guards [of cfg] by (auto simp: buddy_alloc_create_def Let_def)
  with False show ?thesis by blast
next
  case True
  then obtain k L where v: "valid_cfg cfg k L" by blast
  then have L: "L \<le> 32" unfolding valid_cfg_def by linarith
  have "buddy_alloc_create a p e (Ptr cfg) OutAddr \<noteq> Err EINVAL"
  proof (cases "L \<le> 31")
    case True
    with create_valid [OF v True, of a p e] show ?thesis by (auto split: if_splits)
  next
    case False
    with L have L32: "L = 32" by simp
    note g = valid_cfg_guards [OF v]
    have "of_nat L = (32 :: u32)" using L32 by simp
    with g calc_max_nodes_32 show ?thesis
      by (simp add: buddy_alloc_create_def Let_def)
  qed
  with True show ?thesis by blast
qed

text \<open>
  C29. Where creation is undefined behaviour: with 32 levels the number of nodes is computed by
  shifting \<open>1\<close> into the sign bit, and when only the block array cannot be allocated the pool is
  freed twice, because \<open>mem_pool_create\<close> leaves the address of the freed pool behind.
\<close>

theorem buddy_create_undefined:
  assumes "valid_cfg cfg k L"
  shows "buddy_alloc_create a p e (Ptr cfg) OutAddr = UB \<longleftrightarrow> (L = 32 \<or> (a \<and> p \<and> e = False))"
proof (cases "L \<le> 31")
  case True
  with create_valid [OF assms True, of a p e] show ?thesis by auto
next
  case False
  with assms have L32: "L = 32" unfolding valid_cfg_def by linarith
  note g = valid_cfg_guards [OF assms]
  have "of_nat L = (32 :: u32)" using L32 by simp
  with g calc_max_nodes_32 L32 show ?thesis by (simp add: buddy_alloc_create_def Let_def)
qed

theorem buddy_create_undefined_witness:
  "buddy_alloc_create True True False (Ptr sample_buddy_cfg) OutAddr = UB \<and>
   buddy_alloc_create True True True (Ptr sample_buddy_cfg) OutAddr \<noteq> UB"
  using buddy_create_undefined [OF sample_cfg_valid] by auto

section \<open>Size classes\<close>

text \<open>
  \<open>size_class b v j\<close>: blocks of \<open>2 ^ j\<close> bytes are the ones that serve a request of \<open>v\<close> bytes.
\<close>

definition size_class :: "buddy_alloc \<Rightarrow> u32 \<Rightarrow> nat \<Rightarrow> bool" where
  "size_class b v j \<longleftrightarrow>
     unat v \<le> 2 ^ j \<and> 2 ^ j < 2 * unat v \<and> unat (min_block_size b) \<le> 2 ^ j \<and> 2 ^ j \<le> pool_bytes b"

lemma size_class_unique: "size_class b v i \<Longrightarrow> size_class b v j \<Longrightarrow> i = j"
proof -
  assume a: "size_class b v i" "size_class b v j"
  have "i < Suc j" if "size_class b v i" "size_class b v j" for i j
    using that power_less_2 [of i "Suc j"] by (simp add: size_class_def)
  from this [OF a] this [OF a(2,1)] show "i = j" by simp
qed

lemma inv_min:
  assumes "buddy_inv k L b R T"
  shows "unat (min_block_size b) = 2 ^ k"
  using shapeD [OF buddy_invD(5) [OF assms]] by simp

lemma fits_size_class:
  assumes inv: "buddy_inv k L b R T" and f: "fits k L v d"
  shows "size_class b v (k + (L - 1) - d)"
proof -
  have "d < L" using f by (simp add: fits_def)
  then have "k \<le> k + (L - 1) - d" "k + (L - 1) - d \<le> k + (L - 1)" by arith+
  then have "(2::nat) ^ k \<le> 2 ^ (k + (L - 1) - d)" "(2::nat) ^ (k + (L - 1) - d) \<le> 2 ^ (k + (L - 1))"
    by (simp_all only: power_mono_2)
  with f show ?thesis
    unfolding size_class_def inv_min [OF inv] inv_pool [OF inv] fits_def by blast
qed

lemma size_class_acceptable:
  assumes inv: "buddy_inv k L b R T" and "size_class b v j"
  shows "acceptable k L v"
  using assms(2) unfolding size_class_def inv_min [OF inv] inv_pool [OF inv] acceptable_def
  by linarith

text \<open>Allocation in terms of the client's view, one case for each answer of the code.\<close>

lemma allocate_view:
  assumes inv: "buddy_inv k L b R T"
  obtains (Invalid) "\<And>j. \<not> size_class b v j" "allocate_body b v = (Err EINVAL, b)"
  | (Full) j where "size_class b v j" "allocate_body b v = (Err ENFILE, b)"
      "\<And>i. Suc i * 2 ^ j \<le> pool_bytes b \<Longrightarrow>
          \<exists>h\<in>live_handles b. block_range b h \<inter> {i * 2 ^ j ..< Suc i * 2 ^ j} \<noteq> {}"
  | (Done) h b' j i where "size_class b v j" "allocate_body b v = (Ok h, b')" "buddy_ok b'"
      "block_range b' h = {i * 2 ^ j ..< Suc i * 2 ^ j}" "Suc i * 2 ^ j \<le> pool_bytes b"
      "live_handles b' = insert h (live_handles b)" "h \<notin> live_handles b"
      "\<And>g. g \<in> live_handles b \<Longrightarrow> block_range b g \<inter> block_range b' h = {}"
proof -
  from inv show ?thesis
  proof (cases rule: allocate_cases [where v = v])
    case Invalid1: Invalid
    with size_class_acceptable [OF inv] show ?thesis by (intro Invalid) auto
  next
    case (Full d)
    have d: "d < L" using Full(2) by (simp add: fits_def)
    let ?j = "k + (L - 1) - d"
    have split: "(2::nat) ^ (k + (L - 1)) = 2 ^ d * 2 ^ ?j"
      using d by (simp add: power_add [symmetric])
    show ?thesis
    proof (rule that(2) [OF fits_size_class [OF inv Full(2)] Full(4)])
      fix i assume "Suc i * 2 ^ ?j \<le> pool_bytes b"
      then have "i < 2 ^ d" unfolding inv_pool [OF inv] split mult_le_cancel2 by simp
      then show "\<exists>h\<in>live_handles b. block_range b h \<inter> {i * 2 ^ ?j ..< Suc i * 2 ^ ?j} \<noteq> {}"
        by (rule no_free_region [OF inv Full(3) d])
    qed
  next
    case (Done p b' R' r)
    note inv' = Done(7)
    have "Suc p \<in> R' \<union> insert (Suc p) T" by simp
    note rng = inv_range(2) [OF inv' this]
    let ?d = "depth (Suc p)"
    let ?j = "k + (L - 1) - ?d"
    have rj: "block_range b' p = {index (Suc p) * 2 ^ ?j ..< Suc (index (Suc p)) * 2 ^ ?j}"
      unfolding rng bytes_of_def ..
    have d: "?d < L" using Done(3) by (simp add: fits_def)
    have split: "(2::nat) ^ (k + (L - 1)) = 2 ^ ?d * 2 ^ ?j"
      using d by (simp add: power_add [symmetric])
    have "Suc (index (Suc p)) \<le> 2 ^ ?d" using index_less [of "Suc p"] by simp
    then have pool: "Suc (index (Suc p)) * 2 ^ ?j \<le> pool_bytes b"
      unfolding inv_pool [OF inv] split by (rule mult_le_mono1)
    note c = allocate_contract [OF buddy_okI [OF inv], of v, unfolded Done(2)]
    have live: "live_handles b' = insert p (live_handles b)" "p \<notin> live_handles b"
      and same: "\<And>g. g \<in> live_handles b \<Longrightarrow> block_range b' g = block_range b g"
      using c by auto
    have dis: "block_range b g \<inter> block_range b' p = {}" if "g \<in> live_handles b" for g
      using buddy.live_disjoint [OF buddy_okI [OF inv'], of g p] live same [OF that] that by auto
    show ?thesis
      by (rule that(3) [OF fits_size_class [OF inv Done(3)] Done(2) buddy_okI [OF inv'] rj pool live dis])
  qed
qed

section \<open>Allocation and release\<close>

lemma public_allocate:
  "buddy_alloc_allocate (Ptr b) v OutAddr = (case allocate_body b v of (r, b') \<Rightarrow> (r, Ptr b'))"
  by (simp add: buddy_alloc_allocate_def on_alloc_def)

lemma public_free:
  "buddy_alloc_free (Ptr b) (Some h) = (case free_body b h of (r, b') \<Rightarrow> (r, Ptr b'))"
  by (simp add: buddy_alloc_free_def on_alloc_def)

text \<open>
  C3. \<open>buddy_alloc_allocate\<close> never meets undefined behaviour on an allocator that satisfies the
  invariant. When it succeeds the new handle owns an aligned region of the pool of the size
  class of the request that no live handle owns a byte of, the others stay live, and the
  invariant holds; when it fails the allocator is unchanged.
\<close>

theorem buddy_allocate_result:
  assumes "buddy_ok b"
  shows "case buddy_alloc_allocate (Ptr b) v OutAddr of
           (Ok h, Ptr b') \<Rightarrow> buddy_ok b' \<and> h \<notin> live_handles b \<and>
              live_handles b' = insert h (live_handles b) \<and>
              (\<exists>j i. size_class b v j \<and> block_range b' h = {i * 2 ^ j ..< Suc i * 2 ^ j} \<and>
                     Suc i * 2 ^ j \<le> pool_bytes b) \<and>
              (\<Union>g\<in>live_handles b. block_range b g) \<inter> block_range b' h = {}
         | (Err e, p) \<Rightarrow> p = Ptr b
         | _ \<Rightarrow> False"
proof -
  from assms obtain k L R T where inv: "buddy_inv k L b R T" by (auto simp: buddy_ok_def)
  from inv show ?thesis
  proof (cases rule: allocate_view [where v = v])
    case (Done h b' j i)
    have "(\<Union>g\<in>live_handles b. block_range b g) \<inter> block_range b' h = {}" using Done(8) by blast
    moreover have "\<exists>j i. size_class b v j \<and> block_range b' h = {i * 2 ^ j ..< Suc i * 2 ^ j} \<and>
                     Suc i * 2 ^ j \<le> pool_bytes b" using Done(1,4,5) by blast
    ultimately show ?thesis using Done(2,3,6,7) by (simp add: public_allocate)
  qed (simp_all add: public_allocate)
qed

theorem buddy_allocate_result_witness:
  "case buddy_alloc_allocate (Ptr sample_buddy) 5 OutAddr of
           (Ok h, Ptr b') \<Rightarrow> buddy_ok b' \<and> h \<notin> live_handles sample_buddy \<and>
              live_handles b' = insert h (live_handles sample_buddy) \<and>
              (\<exists>j i. size_class sample_buddy 5 j \<and>
                     block_range b' h = {i * 2 ^ j ..< Suc i * 2 ^ j} \<and>
                     Suc i * 2 ^ j \<le> pool_bytes sample_buddy) \<and>
              (\<Union>g\<in>live_handles sample_buddy. block_range sample_buddy g) \<inter> block_range b' h = {}
         | (Err e, p) \<Rightarrow> p = Ptr sample_buddy
         | _ \<Rightarrow> False"
  by (rule buddy_allocate_result [OF sample_buddy_ok])

text \<open>
  C5. Completeness of the search, by coalescing: a request is refused with \<open>-ENFILE\<close> exactly
  when every aligned region of its size class contains a byte of a live block, so memory that is
  free in one aligned piece is always found.
\<close>

theorem buddy_allocate_complete:
  assumes "buddy_ok b"
  shows "fst (buddy_alloc_allocate (Ptr b) v OutAddr) = Err ENFILE \<longleftrightarrow>
           (\<exists>j. size_class b v j \<and>
                (\<forall>i. Suc i * 2 ^ j \<le> pool_bytes b \<longrightarrow>
                    (\<exists>h\<in>live_handles b. block_range b h \<inter> {i * 2 ^ j ..< Suc i * 2 ^ j} \<noteq> {})))"
proof -
  from assms obtain k L R T where inv: "buddy_inv k L b R T" by (auto simp: buddy_ok_def)
  from inv show ?thesis
  proof (cases rule: allocate_view [where v = v])
    case (Full j)
    then show ?thesis by (auto simp: public_allocate intro!: exI [of _ j])
  next
    case (Done h b' j i)
    have "\<not> (\<exists>g\<in>live_handles b. block_range b g \<inter> {i * 2 ^ j ..< Suc i * 2 ^ j} \<noteq> {})"
      using Done(8) unfolding Done(4) by blast
    with Done(1,5) size_class_unique [of b v] have "\<not> (\<exists>j. size_class b v j \<and>
                (\<forall>i. Suc i * 2 ^ j \<le> pool_bytes b \<longrightarrow>
                    (\<exists>h\<in>live_handles b. block_range b h \<inter> {i * 2 ^ j ..< Suc i * 2 ^ j} \<noteq> {})))"
      by metis
    with Done(2) show ?thesis by (simp add: public_allocate)
  qed (auto simp: public_allocate)
qed

theorem buddy_allocate_complete_witness:
  "fst (buddy_alloc_allocate (Ptr sample_buddy) 5 OutAddr) = Err ENFILE \<longleftrightarrow>
           (\<exists>j. size_class sample_buddy 5 j \<and>
                (\<forall>i. Suc i * 2 ^ j \<le> pool_bytes sample_buddy \<longrightarrow>
                    (\<exists>h\<in>live_handles sample_buddy.
                       block_range sample_buddy h \<inter> {i * 2 ^ j ..< Suc i * 2 ^ j} \<noteq> {})))"
  by (rule buddy_allocate_complete [OF sample_buddy_ok])

text \<open>
  C6. Releasing a live handle always succeeds, keeps the invariant, takes exactly this handle
  out of use and leaves the range of every other live handle alone.
\<close>

theorem buddy_free_result:
  assumes "buddy_ok b" "h \<in> live_handles b"
  shows "\<exists>b'. buddy_alloc_free (Ptr b) (Some h) = (Ok (), Ptr b') \<and> buddy_ok b' \<and>
            live_handles b' = live_handles b - {h} \<and>
            (\<forall>g\<in>live_handles b'. block_range b' g = block_range b g)"
  using free_contract [OF assms] by (auto simp: public_free)

lemma sample_allocates:
  obtains h b' where "allocate_body sample_buddy 5 = (Ok h, b')" "buddy_ok b'" "live_handles b' = {h}"
    "unat (5 :: u32) \<le> card (block_range b' h)"
proof -
  have sc: "size_class sample_buddy 5 3"
    using inv_min [OF sample_buddy_inv] inv_pool [OF sample_buddy_inv] by (simp add: size_class_def)
  have live: "live_handles sample_buddy = {}" using root_handles [OF sample_buddy_inv] by blast
  from sample_buddy_inv show ?thesis
  proof (cases rule: allocate_view [where v = 5])
    case Invalid
    with sc show ?thesis by blast
  next
    case (Full j)
    have "Suc 0 * 2 ^ j \<le> pool_bytes sample_buddy" using Full(1) by (simp add: size_class_def)
    with Full(3) [of 0] live show ?thesis by simp
  next
    case (Done h b' j i)
    have "card (block_range b' h) = 2 ^ j" unfolding Done(4) by simp
    then have "unat (5 :: u32) \<le> card (block_range b' h)"
      using Done(1) unfolding size_class_def by metis
    with Done live that show ?thesis by simp
  qed
qed

theorem buddy_free_result_witness:
  "\<exists>h b1 b2. buddy_alloc_allocate (Ptr sample_buddy) 5 OutAddr = (Ok h, Ptr b1) \<and>
     buddy_alloc_free (Ptr b1) (Some h) = (Ok (), Ptr b2) \<and> live_handles b2 = {}"
proof -
  obtain h b1 where b1: "allocate_body sample_buddy 5 = (Ok h, b1)" "buddy_ok b1"
    "live_handles b1 = {h}" using sample_allocates by blast
  with buddy_free_result [OF b1(2), of h] show ?thesis by (auto simp: public_allocate)
qed

section \<open>Whole runs\<close>

text \<open>
  C1. On an allocator created with a power-of-two pool of at most 27 levels of power-of-two
  blocks, for any sequence of requests and releases of held handles: no step is undefined, every
  block handed out has room for the request, lies in the pool and is disjoint from all blocks
  held at that moment, every release succeeds, and at the end the client's record of who owns
  which bytes agrees with the allocator.
\<close>

theorem buddy_runs:
  assumes "valid_cfg cfg k L" "L \<le> 27"
  shows "\<exists>b. buddy_alloc_create True True True (Ptr cfg) OutAddr = Ok (Ptr b) \<and>
     (case run_blocks block_range pool_bytes allocate_body free_body b (\<lambda>_. None) ops of
        (good, held, b') \<Rightarrow> good \<and> buddy_ok b' \<and> dom held = live_handles b' \<and>
           (\<forall>h\<in>live_handles b'. held h = Some (block_range b' h)))"
proof -
  obtain b where b: "buddy_alloc_create True True True (Ptr cfg) OutAddr = Ok (Ptr b)"
    "buddy_inv k L b {1} {}" using create_inv [OF assms] .
  obtain good held b' where r:
    "run_blocks block_range pool_bytes allocate_body free_body b (\<lambda>_. None) ops = (good, held, b')"
    by (metis prod_cases3)
  have "good \<and> buddy_ok b' \<and> dom held = live_handles b' \<and> pool_bytes b' = pool_bytes b \<and>
         (\<forall>h\<in>live_handles b'. held h = Some (block_range b' h))"
    using root_handles [OF b(2)] by (intro buddy.run_blocks_sound [OF buddy_okI [OF b(2)] r]) simp_all
  with b(1) r show ?thesis by auto
qed

theorem buddy_runs_witness:
  "\<exists>b. buddy_alloc_create True True True (Ptr sample_buddy_cfg) OutAddr = Ok (Ptr b) \<and>
     (case run_blocks block_range pool_bytes allocate_body free_body b (\<lambda>_. None)
             [Get 5, Get 16, Put 3, Get 9] of
        (good, held, b') \<Rightarrow> good \<and> buddy_ok b' \<and> dom held = live_handles b' \<and>
           (\<forall>h\<in>live_handles b'. held h = Some (block_range b' h)))"
  by (rule buddy_runs [OF sample_cfg_valid]) simp

text \<open>What a run from the creation of the allocator on reaches.\<close>

lemma run_reaches:
  assumes "valid_cfg cfg k L" "L \<le> 27"
    and "buddy_alloc_create True True True (Ptr cfg) OutAddr = Ok (Ptr b)"
    and "run_blocks block_range pool_bytes allocate_body free_body b (\<lambda>_. None) ops = (good, held, b')"
  obtains k' L' R T where "buddy_inv k' L' b' R T" "dom held = live_handles b'"
    "\<forall>h\<in>dom held. held h = Some (block_range b' h)"
    "pool_bytes b' = unat (total_mem_pool_size cfg)"
proof -
  from assms(3) have inv: "buddy_inv k L b {1} {}" using create_inv [OF assms(1,2)] by auto
  have "good \<and> buddy_ok b' \<and> dom held = live_handles b' \<and> pool_bytes b' = pool_bytes b \<and>
         (\<forall>h\<in>live_handles b'. held h = Some (block_range b' h))"
    using root_handles [OF inv]
    by (intro buddy.run_blocks_sound [OF buddy_okI [OF inv] assms(4)]) simp_all
  moreover have "unat (total_mem_pool_size cfg) = pool_bytes b"
    using assms(1) unfolding inv_pool [OF inv] valid_cfg_def by (metis unat_pow2)
  ultimately have "buddy_ok b'" "dom held = live_handles b'"
    "\<forall>h\<in>dom held. held h = Some (block_range b' h)"
    "pool_bytes b' = unat (total_mem_pool_size cfg)" by simp_all
  then show ?thesis using that unfolding buddy_ok_def by blast
qed

lemma sample_creates: "buddy_alloc_create True True True (Ptr sample_buddy_cfg) OutAddr = Ok (Ptr sample_buddy)"
proof -
  obtain b where "buddy_alloc_create True True True (Ptr sample_buddy_cfg) OutAddr = Ok (Ptr b)"
    "buddy_inv 3 3 b {1} {}" using create_inv [OF sample_cfg_valid] by auto
  then show ?thesis by (simp add: sample_buddy_def)
qed

text \<open>
  C12. On an allocator created with a power-of-two pool of at most 27 levels of power-of-two
  blocks, after any sequence of requests and releases: the blocks the client holds and the blocks
  met on a walk along the free lists tile the pool. No byte is lost, none is in two blocks, no
  block is in the lists twice, and none is both free and held.
\<close>

theorem buddy_blocks_tile:
  assumes "valid_cfg cfg k L" "L \<le> 27"
    and "buddy_alloc_create True True True (Ptr cfg) OutAddr = Ok (Ptr b)"
    and "run_blocks block_range pool_bytes allocate_body free_body b (\<lambda>_. None) ops = (good, held, b')"
  shows "(\<Union>p\<in>dom held \<union> set (free_blocks b'). block_range b' p) = {..<unat (total_mem_pool_size cfg)} \<and>
         disjoint_family_on (block_range b') (dom held \<union> set (free_blocks b')) \<and>
         dom held \<inter> set (free_blocks b') = {} \<and> distinct (free_blocks b') \<and>
         (\<forall>h\<in>dom held. held h = Some (block_range b' h))"
proof -
  from assms obtain k' L' R T where inv: "buddy_inv k' L' b' R T" and held: "dom held = live_handles b'"
    "\<forall>h\<in>dom held. held h = Some (block_range b' h)"
    and pool: "pool_bytes b' = unat (total_mem_pool_size cfg)" by (rule run_reaches)
  have "disjoint_family_on (block_range b') (live_handles b' \<union> free_handles b')"
    unfolding disjoint_family_on_def
    using inv_ranges(1) [OF inv] inv_handles [OF inv] by blast
  moreover have "live_handles b' \<inter> free_handles b' = {}"
    by (auto simp: live_handles_def free_handles_def)
  ultimately show ?thesis
    using inv_ranges(2) [OF inv] free_blocks_inv [OF inv] held pool by simp
qed

theorem buddy_blocks_tile_witness:
  "case run_blocks block_range pool_bytes allocate_body free_body sample_buddy (\<lambda>_. None)
          [Get 5, Get 16, Put 3, Get 9] of
     (good, held, b') \<Rightarrow>
       (\<Union>p\<in>dom held \<union> set (free_blocks b'). block_range b' p) = {..<32} \<and>
       dom held \<inter> set (free_blocks b') = {} \<and> distinct (free_blocks b')"
proof -
  obtain good held b' where r: "run_blocks block_range pool_bytes allocate_body free_body sample_buddy
      (\<lambda>_. None) [Get 5, Get 16, Put 3, Get 9] = (good, held, b')" by (metis prod_cases3)
  have "unat (total_mem_pool_size sample_buddy_cfg) = 32" by (simp add: sample_buddy_cfg_def)
  with buddy_blocks_tile [OF sample_cfg_valid _ sample_creates r] r show ?thesis by simp
qed

text \<open>
  C13. No residue: on an allocator created with a power-of-two pool of at most 27 levels of
  power-of-two blocks, after any sequence of requests and releases at the end of which the client
  holds nothing, the free lists hold one block, the whole pool again.
\<close>

theorem buddy_all_freed:
  assumes "valid_cfg cfg k L" "L \<le> 27"
    and "buddy_alloc_create True True True (Ptr cfg) OutAddr = Ok (Ptr b)"
    and "run_blocks block_range pool_bytes allocate_body free_body b (\<lambda>_. None) ops = (good, held, b')"
    and "held = (\<lambda>_. None)"
  shows "free_blocks b' = [0] \<and> block_range b' 0 = {..<unat (total_mem_pool_size cfg)}"
proof -
  from assms(1-4) obtain k' L' R T where inv: "buddy_inv k' L' b' R T" and held: "dom held = live_handles b'"
    and pool: "pool_bytes b' = unat (total_mem_pool_size cfg)" by (rule run_reaches)
  from held assms(5) have live: "live_handles b' = {}" by simp
  have "0 \<notin> T" using wfD(2) [OF buddy_invD(1) [OF inv]] by auto
  then have T: "T = {}" using inv_handles(1) [OF inv] live by (metis all_not_in_conv not0_implies_Suc)
  have t: "tiling L' R" using buddy_invD(3) [OF inv] T by simp
  have "R = {1}"
    using tiling_without_buddies [OF t buddy_invD(4) [OF inv] shapeD(1) [OF buddy_invD(5) [OF inv]]] .
  then have f: "free_handles b' = {0}" using inv_handles(2) [OF inv] by auto
  have "length (free_blocks b') = card (free_handles b')"
    using free_blocks_inv [OF inv] by (metis distinct_card)
  with f obtain x where x: "free_blocks b' = [x]" by (auto simp: length_Suc_conv)
  moreover have "set (free_blocks b') = {0}" using free_blocks_inv(2) [OF inv] f by simp
  ultimately have "free_blocks b' = [0]" by simp
  with f inv_ranges(2) [OF inv] live pool show ?thesis by simp
qed

theorem buddy_all_freed_witness:
  "\<exists>h b'. run_blocks block_range pool_bytes allocate_body free_body sample_buddy (\<lambda>_. None)
             [Get 5, Put h] = (True, \<lambda>_. None, b') \<and>
     free_blocks b' = [0] \<and> block_range b' 0 = {..<32}"
proof -
  obtain h b1 where b1: "allocate_body sample_buddy 5 = (Ok h, b1)" "buddy_ok b1"
    "live_handles b1 = {h}" using sample_allocates by blast
  then obtain b2 where b2: "free_body b1 h = (Ok (), b2)"
    using free_contract [of b1 h] by auto
  obtain good held b' where r: "run_blocks block_range pool_bytes allocate_body free_body sample_buddy
      (\<lambda>_. None) [Get 5, Put h] = (good, held, b')" by (metis prod_cases3)
  have held: "held = (\<lambda>_. None)" using r b1(1) b2 by (auto simp: fun_eq_iff)
  have "good" using buddy.run_blocks_sound [OF sample_buddy_ok r] root_handles [OF sample_buddy_inv] by simp
  moreover have "unat (total_mem_pool_size sample_buddy_cfg) = 32" by (simp add: sample_buddy_cfg_def)
  ultimately show ?thesis
    using buddy_all_freed [OF sample_cfg_valid _ sample_creates r held] r held by auto
qed

text \<open>
  C30. \<open>buddy_alloc_count_free_blocks\<close> succeeds on every level of an allocator that satisfies
  the invariant (its lists are not cyclic and the counter does not overflow), and the count is
  the number of free blocks of that level.
\<close>

theorem buddy_count_result:
  assumes "buddy_ok b" "level < num_of_levels b"
  shows "buddy_alloc_count_free_blocks (Ptr b) level OutAddr =
           Ok (of_nat (card {p \<in> free_handles b. blk_level (blocks b ! p) = ucast level}))"
proof -
  from assms obtain k L R T where inv: "buddy_inv k L b R T" by (auto simp: buddy_ok_def)
  note s = shapeD [OF buddy_invD(5) [OF inv]]
  have "unat (of_nat L :: u32) = L" using s(2) by (intro unat_of_nat_lt) simp
  then have l: "unat level < L" using assms(2) s(5) by (simp add: word_less_nat_alt)
  have "(of_nat (unat level) :: 6 word) = ucast level"
    using level_word_32 [of "unat level"] l s(2) by simp
  with count_level [OF inv l] show ?thesis by simp
qed

theorem buddy_count_result_witness:
  "buddy_alloc_count_free_blocks (Ptr sample_buddy) 0 OutAddr =
     Ok (of_nat (card {p \<in> free_handles sample_buddy. blk_level (blocks sample_buddy ! p) = 0}))"
proof -
  have "num_of_levels sample_buddy = 3"
    using shapeD(5) [OF buddy_invD(5) [OF sample_buddy_inv]] by simp
  then show ?thesis using buddy_count_result [OF sample_buddy_ok, of 0] by simp
qed

section \<open>Releasing a block twice\<close>






section \<open>Arithmetic\<close>

text \<open>
  \<open>next_pow2\<close> is the least power of two not below its argument, and \<open>0\<close> for the arguments
  whose next power of two does not fit in 32 bits.
\<close>

theorem next_pow2_result:
  "if unat v = 0 \<or> unat v > 2 ^ 31 then next_pow2 v = 0
   else unat (next_pow2 v) = (LEAST x. unat v \<le> x \<and> (\<exists>j. x = 2 ^ j))"
proof -
  have "unat (next_pow2 v) = (LEAST x. unat v \<le> x \<and> (\<exists>j. x = 2 ^ j))"
    if v: "unat v \<noteq> 0" "unat v \<le> 2 ^ 31"
  proof -
    have "v \<noteq> 0" using v(1) by auto
    then obtain j where j: "next_pow2 v = pow2 j" "j < 32" "unat v \<le> 2 ^ j"
      "\<And>i. unat v \<le> 2 ^ i \<Longrightarrow> j \<le> i"
      using next_pow2_fits [OF _ v(2)] by metis
    have "(LEAST x. unat v \<le> x \<and> (\<exists>j. x = 2 ^ j)) = 2 ^ j"
      using j(3,4) by (intro Least_equality) (auto intro: power_mono_2)
    with j(1,2) show ?thesis by simp
  qed
  moreover have "next_pow2 v = 0" if "unat v = 0"
  proof -
    have "v = 0" using that by (metis unat_0 unat_eq_iff)
    then show ?thesis by (simp add: next_pow2_def)
  qed
  ultimately show ?thesis using next_pow2_overflow [of v] by auto
qed

text \<open>
  \<open>mem_pool_get_block\<close> multiplies slot and element size in 32 bits: with the 24-byte blocks
  of the allocator it gives the slot asked for up to slot 178956970 and never beyond, although
  the pool of 28 levels and more has such slots.
\<close>

theorem mem_pool_slot_bound:
  assumes "num_of_elements p > slot" "size_of_element p = sizeof_block"
  shows "mem_pool_get_block (Ptr p) OutAddr slot = Ok (unat slot) \<longleftrightarrow> unat slot < 178956971"
proof (cases "unat slot < 178956971")
  case True
  have "\<not> num_of_elements p \<le> slot" using assms(1) by simp
  note mp = this assms(2) [unfolded sizeof_block_def]
  from True have "unat (slot * 24) = unat slot * 24" by (subst unat_mult_lem [THEN iffD1]) simp_all
  with True mp show ?thesis by (simp add: mem_pool_get_block_def Let_def)
next
  case False
  have "\<not> num_of_elements p \<le> slot" using assms(1) by simp
  note mp = this assms(2) [unfolded sizeof_block_def]
  have "unat (slot * 24) < 2 ^ 32" using unat_less_32 by simp
  then have "unat (slot * 24) div 24 < 178956971" by (intro less_mult_imp_div_less) simp
  then have "unat (slot * 24) div 24 \<noteq> unat slot" using False by linarith
  with False mp show ?thesis by (simp add: mem_pool_get_block_def Let_def)
qed

definition big_pool :: mem_pool where
  "big_pool = \<lparr>elements_array = replicate (2 ^ 29 - 1) zero_block, num_of_elements = 536870911,
                size_of_element = sizeof_block\<rparr>"

lemma big_pool_fields: "num_of_elements big_pool = 536870911" "size_of_element big_pool = sizeof_block"
  unfolding big_pool_def by (rule mem_pool.select_convs)+

theorem mem_pool_slot_bound_witness:
  "mem_pool_get_block (Ptr big_pool) OutAddr 178956970 = Ok (unat (178956970 :: u32)) \<and>
   mem_pool_get_block (Ptr big_pool) OutAddr 178956971 \<noteq> Ok (unat (178956971 :: u32))"
proof -
  have b: "(178956970 :: u32) < num_of_elements big_pool" "(178956971 :: u32) < num_of_elements big_pool"
    unfolding big_pool_fields by simp_all
  have u: "unat (178956970 :: u32) < 178956971" "\<not> unat (178956971 :: u32) < 178956971" by simp_all
  show ?thesis
    using u mem_pool_slot_bound [OF b(1) big_pool_fields(2)]
      mem_pool_slot_bound [OF b(2) big_pool_fields(2)] by blast
qed

end
