(* ===== verification/Byte_File.thy ===== *)
theory Byte_File
  imports Block_Source
begin

text \<open>
  The interface between the bounded file (\<open>ram_file_ctrl.c\<close>) and its client, and what a client
  gains that keeps the blocks of an allocator in one such file (\<open>store_mngr.c\<close>).
\<close>

locale byte_file =
  fixes fok :: "'f \<Rightarrow> bool"
    and limit :: "'f \<Rightarrow> nat"
    and rd :: "'f \<Rightarrow> nat \<Rightarrow> nat \<Rightarrow> u8 list res"
    and wr :: "nat \<Rightarrow> u8 list \<Rightarrow> 'f \<Rightarrow> unit res \<times> 'f"
  assumes wr_in_bounds: "fok f \<Longrightarrow> bs \<noteq> [] \<Longrightarrow> off + length bs \<le> limit f \<Longrightarrow>
      \<exists>f'. wr off bs f = (Ok (), f') \<and> fok f' \<and> limit f' = limit f \<and> rd f' off (length bs) = Ok bs \<and>
           (\<forall>o2 n xs. o2 + n \<le> off \<or> off + length bs \<le> o2 \<longrightarrow> o2 + n \<le> limit f \<longrightarrow>
              rd f o2 n = Ok xs \<longrightarrow> rd f' o2 n = Ok xs)"

text \<open>Nonempty intervals that do not meet are ordered.\<close>

lemma intervals_apart:
  fixes a b c d :: nat
  assumes "{a..<b} \<inter> {c..<d} = {}" "a < b" "c < d"
  shows "d \<le> a \<or> b \<le> c"
proof (rule ccontr)
  assume "\<not> (d \<le> a \<or> b \<le> c)"
  then have "max a c \<in> {a..<b} \<inter> {c..<d}" using assms(2,3) by auto
  with assms(1) show False by blast
qed

locale block_store =
  block_source ok live rng pool alloc release + byte_file fok limit rd wr
  for ok :: "'s \<Rightarrow> bool"
    and live :: "'s \<Rightarrow> 'h set"
    and rng :: "'s \<Rightarrow> 'h \<Rightarrow> nat set"
    and pool :: "'s \<Rightarrow> nat"
    and alloc :: "'s \<Rightarrow> u32 \<Rightarrow> 'h res \<times> 's"
    and release :: "'s \<Rightarrow> 'h \<Rightarrow> unit res \<times> 's"
    and fok :: "'f \<Rightarrow> bool"
    and limit :: "'f \<Rightarrow> nat"
    and rd :: "'f \<Rightarrow> nat \<Rightarrow> nat \<Rightarrow> u8 list res"
    and wr :: "nat \<Rightarrow> u8 list \<Rightarrow> 'f \<Rightarrow> unit res \<times> 'f"
begin

text \<open>
  A write inside a live block succeeds, is read back, and changes nothing that can be read
  inside another live block.
\<close>

lemma write_isolated:
  assumes "ok s" "fok f" "pool s \<le> limit f" "h \<in> live s" "bs \<noteq> []"
    and "{off ..< off + length bs} \<subseteq> rng s h"
  shows "\<exists>f'. wr off bs f = (Ok (), f') \<and> fok f' \<and> limit f' = limit f \<and>
           rd f' off (length bs) = Ok bs \<and>
           (\<forall>g\<in>live s - {h}. \<forall>o2 n xs. 0 < n \<longrightarrow> {o2 ..< o2 + n} \<subseteq> rng s g \<longrightarrow>
              rd f o2 n = Ok xs \<longrightarrow> rd f' o2 n = Ok xs)"
proof -
  have in_limit: "o2 + n \<le> limit f"
    if "g \<in> live s" "0 < n" "{o2 ..< o2 + n} \<subseteq> rng s g" for g o2 n
  proof -
    have "o2 + n - 1 \<in> {o2 ..< o2 + n}" using that(2) by auto
    then have "o2 + n - 1 < pool s" using that(3) live_in_pool [OF assms(1) that(1)] by blast
    then show ?thesis using assms(3) that(2) by linarith
  qed
  have l: "off < off + length bs" using assms(5) by simp
  then have "off + length bs \<le> limit f" using in_limit [OF assms(4) _ assms(6)] by simp
  with wr_in_bounds [OF assms(2,5)] obtain f' where
    f': "wr off bs f = (Ok (), f')" "fok f'" "limit f' = limit f" "rd f' off (length bs) = Ok bs"
      "\<And>o2 n xs. o2 + n \<le> off \<or> off + length bs \<le> o2 \<Longrightarrow> o2 + n \<le> limit f \<Longrightarrow>
         rd f o2 n = Ok xs \<Longrightarrow> rd f' o2 n = Ok xs"
    by blast
  have "rd f' o2 n = Ok xs"
    if "g \<in> live s - {h}" "0 < n" "{o2 ..< o2 + n} \<subseteq> rng s g" "rd f o2 n = Ok xs" for g o2 n xs
  proof -
    have "rng s h \<inter> rng s g = {}" using live_disjoint [OF assms(1,4)] that(1) by blast
    then have "{off ..< off + length bs} \<inter> {o2 ..< o2 + n} = {}" using assms(6) that(3) by blast
    from intervals_apart [OF this l] that(2) have "o2 + n \<le> off \<or> off + length bs \<le> o2" by simp
    then show ?thesis using f'(5) that in_limit by blast
  qed
  with f'(1-4) show ?thesis by blast
qed

end

end
