(* ===== verification/Ram_File.thy ===== *)
theory Ram_File
  imports Byte_File
begin

text \<open>
  \<open>CLIENT_SERVER/src/ram_file_ctrl.c\<close>: random access to one backing file, bounded by a maximal
  size. The file system is a directory of names for numbered files; a \<open>FILE *\<close> is the number of
  the open file, so a file that loses its name stays readable through its handle. Every
  operation seeks first, hence no file position is kept. What the environment decides
  (allocations, \<open>fopen\<close>, \<open>remove\<close>, a failing \<open>fseek\<close>, short reads and writes, a failing \<open>fflush\<close>)
  is an argument. Bytes that did not reach the file are lost.
\<close>

section \<open>Files\<close>

record disk =
  directory :: "string \<rightharpoonup> nat"
  contents :: "nat \<Rightarrow> u8 list"
  next_file :: nat

text \<open>\<open>fread\<close> and \<open>fwrite\<close> at a position; \<open>fwrite\<close> past the end fills the gap with zero bytes.\<close>

definition bytes_at :: "u8 list \<Rightarrow> nat \<Rightarrow> nat \<Rightarrow> u8 list" where
  "bytes_at c off n = take n (drop off c)"

definition write_at :: "u8 list \<Rightarrow> nat \<Rightarrow> u8 list \<Rightarrow> u8 list" where
  "write_at c off bs = take off (c @ replicate (off - length c) 0) @ bs @ drop (off + length bs) c"

text \<open>\<open>fseek\<close> with \<open>SEEK_SET\<close>: the offset is read as a signed \<open>long\<close>.\<close>

definition seek_ok :: "u64 \<Rightarrow> bool" where
  "seek_ok offset \<longleftrightarrow> 0 \<le> sint offset"

text \<open>\<open>fopen\<close> with \<open>"wb+"\<close> and \<open>"rb+"\<close>.\<close>

definition open_new :: "string \<Rightarrow> disk \<Rightarrow> nat \<times> disk" where
  "open_new path d =
     (case directory d path of
        Some i \<Rightarrow> (i, d\<lparr>contents := (contents d)(i := [])\<rparr>)
      | None \<Rightarrow> (next_file d, d\<lparr>directory := (directory d)(path \<mapsto> next_file d),
                              contents := (contents d)(next_file d := []),
                              next_file := Suc (next_file d)\<rparr>))"

text \<open>
  How the C library carries out a read or a write. \<open>IoShort n\<close> and \<open>ReadShort n\<close>: at most \<open>n\<close> bytes
  are transferred. \<open>FlushFails e n\<close>: \<open>fwrite\<close> takes all bytes, and \<open>fflush\<close> brings at most \<open>n\<close> of
  them to the file before it fails.
\<close>

datatype io_outcome = IoOk | SeekFails errno | IoShort nat | FlushFails errno nat

datatype read_outcome = ReadOk | ReadSeekFails | ReadShort nat

definition bytes_out :: "io_outcome \<Rightarrow> nat \<Rightarrow> nat" where
  "bytes_out io sz = (case io of IoShort n \<Rightarrow> min n sz | FlushFails e n \<Rightarrow> min n sz | _ \<Rightarrow> sz)"

text \<open>Writing no bytes does not extend a file.\<close>

definition put_bytes_at :: "nat \<Rightarrow> nat \<Rightarrow> u8 list \<Rightarrow> disk \<Rightarrow> disk" where
  "put_bytes_at i off bs d =
     (if bs = [] then d else d\<lparr>contents := (contents d)(i := write_at (contents d i) off bs)\<rparr>)"

section \<open>State and operations\<close>

record ram_file =
  file_handle :: "nat cptr"
  file_path :: "string cptr"
  max_file_size :: u64
  delete_files :: bool

record ram_file_cfg =
  cfg_file_path :: "string cptr"
  cfg_max_file_size :: u64
  cfg_delete_files :: bool

definition DEFAULT_MAX_FILE_SIZE :: u64 where
  "DEFAULT_MAX_FILE_SIZE = 10 * 1024 * 1024"

definition check_if_file_exist :: "string cptr \<Rightarrow> disk \<Rightarrow> unit res" where
  "check_if_file_exist path d =
     (if path = NULL then Err EFAULT
      else res_bind (load path) (\<lambda>p. if directory d p \<noteq> None then Ok () else Err ENOENT))"

definition delete_file_if_exists :: "errno option \<Rightarrow> string cptr \<Rightarrow> disk \<Rightarrow> unit res \<times> disk" where
  "delete_file_if_exists remove_err path d =
     (case check_if_file_exist path d of
        Ok _ \<Rightarrow>
          (case remove_err of
             Some e \<Rightarrow> (Err e, d)
           | None \<Rightarrow> and_then (load path, d) (\<lambda>p d. (Ok (), d\<lparr>directory := (directory d)(p := None)\<rparr>)))
      | Err _ \<Rightarrow> (Ok (), d)
      | UB \<Rightarrow> (UB, d))"

definition ram_file_create ::
  "bool \<Rightarrow> bool \<Rightarrow> bool \<Rightarrow> ram_file_cfg cptr \<Rightarrow> out_arg \<Rightarrow> disk \<Rightarrow> ram_file cptr res \<times> disk" where
  "ram_file_create calloc_ok strdup_ok fopen_ok cfg ram_file_mngr d =
     (if cfg = NULL then (Err EINVAL, d)
      else and_then (load cfg, d) (\<lambda>c d.
        if cfg_file_path c = NULL \<or> ram_file_mngr = OutNull then (Err EINVAL, d)
        else if \<not> calloc_ok then (Err ENOMEM, d)
        else and_then (load (cfg_file_path c), d) (\<lambda>path d.
          if \<not> strdup_ok then (Err ENOMEM, d)
          else if \<not> fopen_ok then (Err EIO, d)
          else
            case (case check_if_file_exist (Ptr path) d of
                    Ok _ \<Rightarrow> (the (directory d path), d)
                  | _ \<Rightarrow> open_new path d) of
              (i, d) \<Rightarrow>
                (Ok (Ptr \<lparr>file_handle = Ptr i, file_path = Ptr path,
                          max_file_size = (if cfg_max_file_size c = 0 then DEFAULT_MAX_FILE_SIZE
                                           else cfg_max_file_size c),
                          delete_files = cfg_delete_files c\<rparr>), d))))"

text \<open>
  The manager is freed whatever the deletion gives. With \<open>delete_files\<close> unset the path is not
  freed.
\<close>

definition ram_file_destroy ::
  "errno option \<Rightarrow> ram_file cptr \<Rightarrow> disk \<Rightarrow> unit res \<times> ram_file cptr \<times> disk" where
  "ram_file_destroy remove_err ram_file_mngr d =
     (case ram_file_mngr of
        NULL \<Rightarrow> (Err EINVAL, NULL, d)
      | Freed \<Rightarrow> (UB, Freed, d)
      | Ptr m \<Rightarrow>
          (case (if file_path m \<noteq> NULL \<and> delete_files m
                 then delete_file_if_exists remove_err (file_path m) d
                 else (Ok (), d)) of
             (r, d) \<Rightarrow> (r, Freed, d)))"

text \<open>\<open>data_out\<close> points to a buffer of the given number of bytes; the result is the bytes stored there.\<close>

definition ram_file_read ::
  "read_outcome \<Rightarrow> disk \<Rightarrow> ram_file cptr \<Rightarrow> u64 \<Rightarrow> nat cptr \<Rightarrow> u64 \<Rightarrow> u8 list res" where
  "ram_file_read io d ram_file_mngr offset data_out data_size =
     (if ram_file_mngr = NULL then Err EINVAL
      else res_bind (load ram_file_mngr) (\<lambda>m.
        if file_handle m = NULL then Err EINVAL
        else if data_out = NULL \<or> data_size = 0 then Err EINVAL
        else if offset + data_size > max_file_size m then Err EFBIG
        else res_bind (load (file_handle m)) (\<lambda>i.
          if \<not> seek_ok offset \<or> io = ReadSeekFails then Err EIO
          else res_bind (load data_out) (\<lambda>room.
            if room < unat data_size then UB
            else
              let wanted = (case io of ReadShort n \<Rightarrow> min n (unat data_size) | _ \<Rightarrow> unat data_size);
                  bs = bytes_at (contents d i) (unat offset) wanted
              in if length bs \<noteq> unat data_size then Err EIO else Ok bs))))"

text \<open>
  \<open>data\<close> is the caller's buffer; reading past its end is undefined. A failing \<open>fseek\<close> leaves
  \<open>EINVAL\<close> in \<open>errno\<close> for a negative offset, and another number if the device gives one.
\<close>

definition ram_file_write ::
  "io_outcome \<Rightarrow> ram_file cptr \<Rightarrow> u64 \<Rightarrow> u8 list cptr \<Rightarrow> u64 \<Rightarrow> disk \<Rightarrow> unit res \<times> disk" where
  "ram_file_write io ram_file_mngr offset data data_size d =
     (if ram_file_mngr = NULL then (Err EINVAL, d)
      else and_then (load ram_file_mngr, d) (\<lambda>m d.
        if file_handle m = NULL then (Err EINVAL, d)
        else if data = NULL \<or> data_size = 0 then (Err EINVAL, d)
        else
          let write_end = offset + data_size
          in if write_end > max_file_size m then (Err EFBIG, d)
             else and_then (load (file_handle m), d) (\<lambda>i d.
               if \<not> seek_ok offset then (Err EINVAL, d)
               else case io of
                 SeekFails e \<Rightarrow> (Err e, d)
               | _ \<Rightarrow> and_then (load data, d) (\<lambda>buf d.
                   if length buf < unat data_size then (UB, d)
                   else
                     let n = bytes_out io (unat data_size);
                         d = put_bytes_at i (unat offset) (take n buf) d
                     in case io of
                          FlushFails e k \<Rightarrow> (Err e, d)
                        | _ \<Rightarrow> (if n \<noteq> unat data_size then Err EIO else Ok (), d)))))"

definition ram_file_exist :: "string cptr \<Rightarrow> disk \<Rightarrow> unit res" where
  "ram_file_exist path d = check_if_file_exist path d"

definition ram_file_size_in_bytes :: "errno option \<Rightarrow> string cptr \<Rightarrow> disk \<Rightarrow> int res" where
  "ram_file_size_in_bytes stat_err path d =
     res_bind (check_if_file_exist path d) (\<lambda>_.
       case stat_err of
         Some e \<Rightarrow> Err e
       | None \<Rightarrow> res_bind (load path) (\<lambda>p. Ok (int (length (contents d (the (directory d p)))))))"

section \<open>Reading and writing at a position\<close>

lemma length_write_at: "length (write_at c off bs) = max (length c) (off + length bs)"
  by (simp add: write_at_def)

lemma nth_write_at:
  assumes "k < length (write_at c off bs)"
  shows "write_at c off bs ! k =
           (if off \<le> k \<and> k < off + length bs then bs ! (k - off)
            else if k < length c then c ! k else 0)"
proof -
  obtain pre where pre: "write_at c off bs = pre @ bs @ drop (off + length bs) c" "length pre = off"
    "pre = take off (c @ replicate (off - length c) 0)"
    by (simp add: write_at_def)
  consider "k < off" | "off \<le> k" "k < off + length bs" | "off + length bs \<le> k" by linarith
  then show ?thesis
  proof cases
    case 1
    then have "\<not> k < length c \<Longrightarrow> k - length c < off - length c" by arith
    with 1 have "pre ! k = (if k < length c then c ! k else 0)"
      unfolding pre(3) by (simp add: nth_append)
    with 1 show ?thesis unfolding pre(1) by (simp add: nth_append pre(2))
  next
    case 2
    then show ?thesis unfolding pre(1) by (auto simp: nth_append pre(2))
  next
    case 3
    with assms have "k < length c" by (simp add: length_write_at)
    moreover have "\<not> k - off < length bs" using 3 by arith
    ultimately show ?thesis using 3 unfolding pre(1) by (simp add: nth_append pre(2))
  qed
qed

lemma length_bytes_at: "length (bytes_at c off n) = min n (length c - off)"
  by (simp add: bytes_at_def)

lemma nth_bytes_at: "k < n \<Longrightarrow> off + k < length c \<Longrightarrow> bytes_at c off n ! k = c ! (off + k)"
  by (simp add: bytes_at_def)

lemma read_back: "bytes_at (write_at c off bs) off (length bs) = bs"
  by (rule nth_equalityI) (simp_all add: length_bytes_at length_write_at nth_bytes_at nth_write_at)

text \<open>Bytes outside the written range are as before, as far as they existed.\<close>

lemma read_other:
  assumes "o2 + n \<le> off \<or> off + length bs \<le> o2" "length (bytes_at c o2 n) = n"
  shows "bytes_at (write_at c off bs) o2 n = bytes_at c o2 n"
proof (cases "n = 0")
  case True
  then show ?thesis by (simp add: bytes_at_def)
next
  case False
  with assms(2) have fit: "o2 + n \<le> length c" by (simp add: length_bytes_at)
  show ?thesis
  proof (rule nth_equalityI)
    show "length (bytes_at (write_at c off bs) o2 n) = length (bytes_at c o2 n)"
      using fit by (simp add: length_bytes_at length_write_at)
    fix k assume "k < length (bytes_at (write_at c off bs) o2 n)"
    then have k: "k < n" by (simp add: length_bytes_at)
    then have "\<not> (off \<le> o2 + k \<and> o2 + k < off + length bs)" using assms(1) by auto
    with k fit show "bytes_at (write_at c off bs) o2 n ! k = bytes_at c o2 n ! k"
      by (auto simp: nth_bytes_at nth_write_at length_write_at)
  qed
qed

text \<open>The position test: what \<open>fseek\<close> accepts keeps the 64-bit sum from wrapping around.\<close>

lemma seek_end:
  fixes off sz mx :: u64
  assumes "seek_ok off" "off + sz \<le> mx" "unat sz < 2 ^ 63"
  shows "unat off + unat sz \<le> unat mx"
proof -
  have "unat off < 2 ^ 63"
  proof (rule ccontr)
    assume "\<not> unat off < 2 ^ 63"
    then have "int (9223372036854775808 :: nat) \<le> int (unat off)" by (subst of_nat_le_iff) simp
    then have big: "\<not> uint off < 9223372036854775808" unfolding uint_nat by simp
    have "uint off < 18446744073709551616" using uint_lt2p [of off] by simp
    moreover have "sint off = uint off - 18446744073709551616"
      using big by (simp only: sint_64 if_False)
    ultimately show False using assms(1) unfolding seek_ok_def by linarith
  qed
  with assms(3) have "unat off + unat sz < 2 ^ 64" by simp
  then have "unat (off + sz) = unat off + unat sz" by (subst unat_add_lem [THEN iffD1]) simp_all
  with assms(2) show ?thesis by (simp add: word_le_nat_alt)
qed

text \<open>What a write is once the arguments are accepted.\<close>

lemma write_run:
  assumes "file_handle m = Ptr i" "sz \<noteq> 0" "off + sz \<le> max_file_size m" "seek_ok off"
    and "unat sz \<le> length buf" "\<forall>e. io \<noteq> SeekFails e"
  shows "ram_file_write io (Ptr m) off (Ptr buf) sz d =
           (case io of FlushFails e k \<Rightarrow> Err e
              | _ \<Rightarrow> if bytes_out io (unat sz) \<noteq> unat sz then Err EIO else Ok (),
            put_bytes_at i (unat off) (take (bytes_out io (unat sz)) buf) d)"
proof -
  have n: "\<not> off + sz > max_file_size m" "\<not> length buf < unat sz" using assms(3,5) by simp_all
  show ?thesis
    using n assms(1,2,4,6) by (cases io) (simp_all add: ram_file_write_def Let_def)
qed

lemma write_Ok:
  assumes "ram_file_write io (Ptr m) off (Ptr buf) sz d = (Ok (), d')"
  obtains i where "file_handle m = Ptr i" "sz \<noteq> 0" "off + sz \<le> max_file_size m" "seek_ok off"
    "unat sz \<le> length buf"
    "d' = d\<lparr>contents := (contents d)(i := write_at (contents d i) (unat off) (take (unat sz) buf))\<rparr>"
proof -
  from assms obtain i where i: "file_handle m = Ptr i"
    by (cases "file_handle m") (auto simp: ram_file_write_def Let_def split: if_splits)
  have sk: "\<forall>e. io \<noteq> SeekFails e"
    using assms i by (auto simp: ram_file_write_def Let_def split: if_splits)
  with assms i have g: "sz \<noteq> 0" "off + sz \<le> max_file_size m" "seek_ok off"
    by (auto simp: ram_file_write_def Let_def split: if_splits)
  have l: "unat sz \<le> length buf"
    using assms i g sk by (cases io) (auto simp: ram_file_write_def Let_def split: if_splits)
  note run = write_run [OF i g l sk, of d]
  from run assms have "bytes_out io (unat sz) = unat sz"
    "d' = put_bytes_at i (unat off) (take (bytes_out io (unat sz)) buf) d"
    by (auto split: io_outcome.splits if_splits)
  moreover have "take (unat sz) buf \<noteq> []" using l g(1) by (auto simp: unat_eq_0)
  ultimately have "d' = d\<lparr>contents := (contents d)
       (i := write_at (contents d i) (unat off) (take (unat sz) buf))\<rparr>"
    by (simp add: put_bytes_at_def)
  with i g l that show ?thesis by blast
qed

section \<open>The file as a provider\<close>

text \<open>An open file with a limit that a C object can have; positions and lengths as numbers.\<close>

definition file_ok :: "ram_file \<times> disk \<Rightarrow> bool" where
  "file_ok f \<longleftrightarrow> (\<exists>i. file_handle (fst f) = Ptr i) \<and> unat (max_file_size (fst f)) < 2 ^ 63"

definition file_limit :: "ram_file \<times> disk \<Rightarrow> nat" where
  "file_limit f = unat (max_file_size (fst f))"

definition file_read :: "ram_file \<times> disk \<Rightarrow> nat \<Rightarrow> nat \<Rightarrow> u8 list res" where
  "file_read f off n = ram_file_read ReadOk (snd f) (Ptr (fst f)) (of_nat off) (Ptr n) (of_nat n)"

definition file_write :: "nat \<Rightarrow> u8 list \<Rightarrow> ram_file \<times> disk \<Rightarrow> unit res \<times> ram_file \<times> disk" where
  "file_write off bs f =
     (case ram_file_write IoOk (Ptr (fst f)) (of_nat off) (Ptr bs) (of_nat (length bs)) (snd f) of
        (r, d) \<Rightarrow> (r, fst f, d))"

lemma seek_small: "n < 2 ^ 63 \<Longrightarrow> seek_ok (of_nat n)"
proof -
  assume n: "n < 2 ^ 63"
  then have u: "unat (of_nat n :: u64) = n" by (intro unat_of_nat_lt) simp
  have "uint (of_nat n :: u64) < 9223372036854775808" unfolding uint_nat u using n by simp
  then show ?thesis by (simp only: seek_ok_def sint_64 if_True uint_ge_0)
qed

text \<open>What a write and a read in bounds are, on the contents.\<close>

lemma file_write_in:
  assumes "file_handle m = Ptr i" "unat (max_file_size m) < 2 ^ 63" "bs \<noteq> []"
    and "off + length bs \<le> unat (max_file_size m)"
  shows "ram_file_write IoOk (Ptr m) (of_nat off) (Ptr bs) (of_nat (length bs)) d =
           (Ok (), d\<lparr>contents := (contents d)(i := write_at (contents d i) off bs)\<rparr>)"
proof -
  have b: "off < 2 ^ 64" "length bs < 2 ^ 64" "off + length bs < 2 ^ 64" "off < 2 ^ 63"
    using assms by simp_all
  have u: "unat (of_nat off :: u64) = off" "unat (of_nat (length bs) :: u64) = length bs"
    "unat (of_nat (off + length bs) :: u64) = off + length bs"
    using b by (intro unat_of_nat_lt; simp)+
  have "of_nat (length bs) \<noteq> (0 :: u64)" using u(2) assms(3) by (metis length_0_conv unat_0)
  moreover have "\<not> (of_nat off + of_nat (length bs) > max_file_size m)"
    using assms(4) u(3) by (simp add: word_less_nat_alt del: unsigned_of_nat)
  moreover note seek_small [OF b(4)]
  ultimately show ?thesis
    using assms(1,3) u(1,2)
    by (simp add: ram_file_write_def Let_def bytes_out_def put_bytes_at_def del: unsigned_of_nat)
qed

lemma file_read_Ok:
  assumes "file_handle m = Ptr i"
  shows "ram_file_read ReadOk d (Ptr m) off (Ptr room) n = Ok xs \<longleftrightarrow>
           n \<noteq> 0 \<and> off + n \<le> max_file_size m \<and> seek_ok off \<and> unat n \<le> room \<and>
           length (bytes_at (contents d i) (unat off) (unat n)) = unat n \<and>
           xs = bytes_at (contents d i) (unat off) (unat n)"
  using assms by (auto simp: ram_file_read_def Let_def)

text \<open>When a read with another outcome or buffer is successful, it gives the same bytes.\<close>

definition read_succeeds :: "read_outcome \<Rightarrow> nat cptr \<Rightarrow> nat \<Rightarrow> bool" where
  "read_succeeds io data_out n \<longleftrightarrow> io \<noteq> ReadSeekFails \<and> (\<forall>k. io = ReadShort k \<longrightarrow> n \<le> k) \<and>
     (\<exists>room. data_out = Ptr room \<and> n \<le> room)"

lemma read_any:
  "ram_file_read io d f off y n = Ok xs \<longleftrightarrow>
     ram_file_read ReadOk d f off (Ptr (unat n)) n = Ok xs \<and> read_succeeds io y (unat n)"
proof (cases "\<exists>m i room. f = Ptr m \<and> file_handle m = Ptr i \<and> y = Ptr room")
  case True
  then obtain m i room where f: "f = Ptr m" "file_handle m = Ptr i" "y = Ptr room" by blast
  show ?thesis
  proof (cases io)
    case ReadOk
    then show ?thesis
      using f by (auto simp: ram_file_read_def read_succeeds_def Let_def split: if_splits)
  next
    case ReadSeekFails
    then show ?thesis using f by (auto simp: ram_file_read_def read_succeeds_def Let_def)
  next
    case (ReadShort k)
    then show ?thesis using f
      by (auto simp: ram_file_read_def read_succeeds_def Let_def length_bytes_at not_less min_def
          split: if_splits)
  qed
next
  case False
  then have "ram_file_read io' d f off y' n \<noteq> Ok xs"
    if "\<nexists>m i room. f = Ptr m \<and> file_handle m = Ptr i \<and> y' = Ptr room" for io' y'
    using that
    by (auto simp: ram_file_read_def Let_def res_bind_eq_Ok load_eq_Ok split: if_splits)
  with False show ?thesis unfolding read_succeeds_def by blast
qed

interpretation ram: byte_file file_ok file_limit file_read file_write
proof
  fix f :: "ram_file \<times> disk" and bs :: "u8 list" and off
  assume f: "file_ok f" and bs: "bs \<noteq> []" and off: "off + length bs \<le> file_limit f"
  obtain m d where md: "f = (m, d)" by (cases f)
  from f md obtain i where i: "file_handle m = Ptr i" "unat (max_file_size m) < 2 ^ 63"
    by (auto simp: file_ok_def)
  have lim: "off + length bs \<le> unat (max_file_size m)" using off md by (simp add: file_limit_def)
  let ?d = "d\<lparr>contents := (contents d)(i := write_at (contents d i) off bs)\<rparr>"
  note w = file_write_in [OF i bs lim, of d]
  have b: "off < 2 ^ 63" "off < 2 ^ 64" "length bs < 2 ^ 64" "off + length bs < 2 ^ 64"
    using i(2) lim by simp_all
  have u: "unat (of_nat off :: u64) = off" "unat (of_nat (length bs) :: u64) = length bs"
    "unat (of_nat (off + length bs) :: u64) = off + length bs"
    using b by (intro unat_of_nat_lt; simp)+
  have "of_nat (length bs) \<noteq> (0 :: u64)" using u(2) bs by (metis length_0_conv unat_0)
  moreover have "of_nat off + of_nat (length bs) \<le> max_file_size m"
    using lim u(3) by (simp add: word_le_nat_alt del: unsigned_of_nat)
  ultimately have readback: "file_read (m, ?d) off (length bs) = Ok bs"
    using file_read_Ok [OF i(1), of ?d] seek_small [OF b(1)] u(1,2) read_back
    by (simp add: file_read_def del: unsigned_of_nat)
  have other: "file_read (m, ?d) o2 n = Ok xs"
    if dis: "o2 + n \<le> off \<or> off + length bs \<le> o2" and lim2: "o2 + n \<le> unat (max_file_size m)"
      and r: "file_read (m, d) o2 n = Ok xs" for o2 n xs
  proof -
    have "o2 < 2 ^ 64" "n < 2 ^ 64" using lim2 i(2) by simp_all
    then have v: "unat (of_nat o2 :: u64) = o2" "unat (of_nat n :: u64) = n"
      by (intro unat_of_nat_lt; simp)+
    have r': "ram_file_read ReadOk d (Ptr m) (of_nat o2) (Ptr n) (of_nat n) = Ok xs"
      using r by (simp add: file_read_def)
    then have k: "length (bytes_at (contents d i) o2 n) = n" "xs = bytes_at (contents d i) o2 n"
      unfolding file_read_Ok [OF i(1)] v by blast+
    have "bytes_at (contents ?d i) o2 n = xs"
      using read_other [OF dis k(1)] k(2) by simp
    then have "ram_file_read ReadOk ?d (Ptr m) (of_nat o2) (Ptr n) (of_nat n) = Ok xs"
      using r' k unfolding file_read_Ok [OF i(1)] v by simp
    then show ?thesis by (simp add: file_read_def)
  qed
  show "\<exists>f'. file_write off bs f = (Ok (), f') \<and> file_ok f' \<and> file_limit f' = file_limit f \<and>
           file_read f' off (length bs) = Ok bs \<and>
           (\<forall>o2 n xs. o2 + n \<le> off \<or> off + length bs \<le> o2 \<longrightarrow> o2 + n \<le> file_limit f \<longrightarrow>
              file_read f o2 n = Ok xs \<longrightarrow> file_read f' o2 n = Ok xs)"
    using w readback other f md
    by (intro exI [of _ "(m, ?d)"]) (auto simp: file_write_def file_ok_def file_limit_def)
qed

section \<open>Properties\<close>

text \<open>
  C33 (bounds). A write that succeeds lies below the maximal file size, and does not make the file
  grow past that size, although offset and size are added in 64 bits without a check: offsets for
  which the sum could wrap around are negative for \<open>fseek\<close>. Buffers are smaller than \<open>2 ^ 63\<close>
  bytes, as every C object is.
\<close>

theorem ram_file_write_bounded:
  assumes "ram_file_write io (Ptr m) off (Ptr buf) sz d = (Ok (), d')" "length buf < 2 ^ 63"
  shows "unat off + unat sz \<le> unat (max_file_size m) \<and>
         (\<forall>i. length (contents d' i) \<le> max (length (contents d i)) (unat (max_file_size m)))"
proof -
  from assms(1) obtain i where w: "sz \<noteq> 0" "off + sz \<le> max_file_size m" "seek_ok off"
    "unat sz \<le> length buf"
    "d' = d\<lparr>contents := (contents d)(i := write_at (contents d i) (unat off) (take (unat sz) buf))\<rparr>"
    by (rule write_Ok)
  have "unat off + unat sz \<le> unat (max_file_size m)"
    using w(4) assms(2) by (intro seek_end [OF w(3,2)]) simp
  with w(4,5) show ?thesis by (auto simp: length_write_at)
qed

definition sample_disk :: disk where
  "sample_disk = \<lparr>directory = [''./storage.bin'' \<mapsto> 0], contents = (\<lambda>_. []), next_file = 1\<rparr>"

definition sample_ram_file :: ram_file where
  "sample_ram_file = \<lparr>file_handle = Ptr 0, file_path = Ptr ''./storage.bin'', max_file_size = 32,
                      delete_files = True\<rparr>"

lemma sample_write:
  "ram_file_write IoOk (Ptr sample_ram_file) 8 (Ptr [1, 2, 3]) 3 sample_disk =
     (Ok (), sample_disk\<lparr>contents := (\<lambda>_. [])(0 := [0, 0, 0, 0, 0, 0, 0, 0, 1, 2, 3])\<rparr>)"
proof -
  have "write_at [] 8 [1, 2, 3] = [0, 0, 0, 0, 0, 0, 0, 0, 1, 2, 3]" by code_simp
  then show ?thesis
    by (simp add: ram_file_write_def bytes_out_def put_bytes_at_def sample_ram_file_def
        sample_disk_def seek_ok_def)
qed

theorem ram_file_write_bounded_witness:
  "case ram_file_write IoOk (Ptr sample_ram_file) 8 (Ptr [1, 2, 3]) 3 sample_disk of
     (r, d') \<Rightarrow> r = Ok () \<and> length (contents d' 0) = 11 \<and>
       unat (8 :: u64) + unat (3 :: u64) \<le> unat (max_file_size sample_ram_file) \<and>
       (\<forall>i. length (contents d' i) \<le> unat (max_file_size sample_ram_file))"
  using ram_file_write_bounded [OF sample_write]
  by (simp add: sample_write)

text \<open>
  C32 (roundtrip). After a successful write a read of the same range gives the bytes written, when
  the C library carries it out and the reader's buffer has room for them, and every other range
  that could be read before reads the same as before, whatever buffer it is read into.
\<close>

theorem ram_file_write_read:
  assumes "ram_file_write io (Ptr m) off (Ptr buf) sz d = (Ok (), d')"
  shows "(unat sz \<le> room \<longrightarrow>
            ram_file_read ReadOk d' (Ptr m) off (Ptr room) sz = Ok (take (unat sz) buf)) \<and>
         (unat o2 + unat n \<le> unat off \<or> unat off + unat sz \<le> unat o2 \<longrightarrow>
            ram_file_read rio d (Ptr m) o2 data_out n = Ok bs \<longrightarrow>
            ram_file_read rio d' (Ptr m) o2 data_out n = Ok bs)"
proof -
  from assms obtain i where w: "file_handle m = Ptr i" "sz \<noteq> 0" "off + sz \<le> max_file_size m"
    "seek_ok off" "unat sz \<le> length buf"
    "d' = d\<lparr>contents := (contents d)(i := write_at (contents d i) (unat off) (take (unat sz) buf))\<rparr>"
    by (rule write_Ok)
  have l: "length (take (unat sz) buf) = unat sz" using w(5) by simp
  note rb = read_back [of "contents d i" "unat off" "take (unat sz) buf", unfolded l]
  have "ram_file_read ReadOk d' (Ptr m) off (Ptr room) sz = Ok (take (unat sz) buf)"
    if "unat sz \<le> room"
    using w l rb that by (simp add: file_read_Ok)
  moreover have "ram_file_read rio d' (Ptr m) o2 data_out n = Ok bs"
    if dis: "unat o2 + unat n \<le> unat off \<or> unat off + unat sz \<le> unat o2"
      and rd: "ram_file_read rio d (Ptr m) o2 data_out n = Ok bs"
  proof -
    have ok: "ram_file_read ReadOk d (Ptr m) o2 (Ptr (unat n)) n = Ok bs"
      and su: "read_succeeds rio data_out (unat n)"
      using rd unfolding read_any [of rio] by simp_all
    have r: "length (bytes_at (contents d i) (unat o2) (unat n)) = unat n"
      "bs = bytes_at (contents d i) (unat o2) (unat n)"
      using ok unfolding file_read_Ok [OF w(1)] by blast+
    have "bytes_at (contents d' i) (unat o2) (unat n) = bs"
      using read_other [OF _ r(1), of "unat off" "take (unat sz) buf"] dis l r(2) w(6) by simp
    with ok r have "ram_file_read ReadOk d' (Ptr m) o2 (Ptr (unat n)) n = Ok bs"
      unfolding file_read_Ok [OF w(1)] by simp
    with su show ?thesis unfolding read_any [of rio] by simp
  qed
  ultimately show ?thesis by blast
qed

theorem ram_file_write_read_witness:
  "ram_file_read ReadOk (sample_disk\<lparr>contents := (\<lambda>_. [])(0 := [0, 0, 0, 0, 0, 0, 0, 0, 1, 2, 3])\<rparr>)
     (Ptr sample_ram_file) 8 (Ptr 5) 3 = Ok [1, 2, 3]"
  using ram_file_write_read [OF sample_write, of 5 0 1] by simp

text \<open>
  C34 (functional). Creation opens a file of the given name: the bytes an earlier run left in it
  are kept, and a missing file is created empty. Destruction with \<open>delete_files\<close> set takes the name
  away again; either way no other name is touched.
\<close>

theorem ram_file_lifecycle:
  assumes "cfg_file_path c = Ptr path" "directory d path = Some i \<or> directory d path = None"
  shows "\<exists>m d'. ram_file_create True True True (Ptr c) OutAddr d = (Ok (Ptr m), d') \<and>
           (\<exists>j. directory d' path = Some j \<and> file_handle m = Ptr j \<and>
                contents d' j = (if directory d path = None then [] else contents d i)) \<and>
           (\<forall>p. p \<noteq> path \<longrightarrow> directory d' p = directory d p) \<and>
           fst (snd (ram_file_destroy None (Ptr m) d')) = Freed \<and>
           directory (snd (snd (ram_file_destroy None (Ptr m) d'))) =
             (if cfg_delete_files c then (directory d')(path := None) else directory d')"
  using assms
  by (auto simp: ram_file_create_def check_if_file_exist_def open_new_def ram_file_destroy_def
      delete_file_if_exists_def)

theorem ram_file_lifecycle_witness:
  "\<exists>m d'. ram_file_create True True True (Ptr \<lparr>cfg_file_path = Ptr ''./storage.bin'',
             cfg_max_file_size = 32, cfg_delete_files = True\<rparr>) OutAddr sample_disk = (Ok (Ptr m), d') \<and>
           directory (snd (snd (ram_file_destroy None (Ptr m) d'))) =
             (directory d')(''./storage.bin'' := None)"
proof -
  let ?c = "\<lparr>cfg_file_path = Ptr ''./storage.bin'', cfg_max_file_size = 32, cfg_delete_files = True\<rparr>"
  have h: "cfg_file_path ?c = Ptr ''./storage.bin''"
    "directory sample_disk ''./storage.bin'' = Some 0 \<or> directory sample_disk ''./storage.bin'' = None"
    by (simp_all add: sample_disk_def)
  from ram_file_lifecycle [OF h] show ?thesis by auto
qed

end
