(* ===== verification/Store_Mngr.thy ===== *)
theory Store_Mngr
  imports Buddy_Properties Ram_File
begin

text \<open>
  \<open>STORAGE_MANAGER/src/store_mngr.c\<close>: blocks of the buddy allocator backed by one file. The
  bytes of a block are the bytes of the file at the block's offset. A block handler is an object
  on the heap that holds the pointer to the allocator's block.
\<close>

section \<open>State and operations\<close>

datatype store_type = TYPE1 | TYPE2 | TYPE3

record store_mngr =
  b_alloc :: "buddy_alloc cptr"
  r_file_ctrl :: "ram_file cptr"
  st_type :: store_type

record store_mngr_cfg =
  total_size :: u32
  minimum_block_size :: u32
  cfg_type :: store_type

record store_mngr_block =
  b_alloc_block :: blk_ptr

record store_mngr_data =
  sd_data :: "u8 list cptr"
  sd_data_len :: u32

definition storage_path :: string where
  "storage_path = ''./storage.bin''"

text \<open>
  The environment's decisions: the allocation of the manager, the three of \<open>buddy_alloc_create\<close>
  and the three of \<open>ram_file_create\<close>. When the file cannot be opened the allocator is destroyed.
\<close>

definition store_mngr_create ::
  "bool \<Rightarrow> bool \<times> bool \<times> bool \<Rightarrow> bool \<times> bool \<times> bool \<Rightarrow> out_arg \<Rightarrow> store_mngr_cfg cptr \<Rightarrow> disk
     \<Rightarrow> store_mngr cptr res \<times> disk" where
  "store_mngr_create calloc_ok buddy_env file_env s_mngr s_mngr_cfg d =
     (if s_mngr = OutNull \<or> s_mngr_cfg = NULL then (Err EINVAL, d)
      else and_then (load s_mngr_cfg, d) (\<lambda>cfg d.
        if \<not> calloc_ok then (Err ENOMEM, d)
        else
          let b_cfg = \<lparr>total_mem_pool_size = total_size cfg,
                       cfg_min_block_size = minimum_block_size cfg\<rparr>
          in case buddy_env of (e1, e2, e3) \<Rightarrow>
             and_then (buddy_alloc_create e1 e2 e3 (Ptr b_cfg) OutAddr, d) (\<lambda>b d.
               let r_file_cfg = \<lparr>cfg_file_path = Ptr storage_path,
                                 cfg_max_file_size = ucast (total_size cfg),
                                 cfg_delete_files = True\<rparr>
               in case file_env of (f1, f2, f3) \<Rightarrow>
                    case ram_file_create f1 f2 f3 (Ptr r_file_cfg) OutAddr d of
                      (Ok f, d) \<Rightarrow>
                        (Ok (Ptr \<lparr>b_alloc = b, r_file_ctrl = f, st_type = cfg_type cfg\<rparr>), d)
                    | (Err e, d) \<Rightarrow>
                        (case fst (buddy_alloc_destroy b) of UB \<Rightarrow> (UB, d) | _ \<Rightarrow> (Err e, d))
                    | (UB, d) \<Rightarrow> (UB, d))))"

definition store_mngr_destroy ::
  "errno option \<Rightarrow> store_mngr cptr \<Rightarrow> disk \<Rightarrow> unit res \<times> store_mngr cptr \<times> disk" where
  "store_mngr_destroy remove_err s_mngr d =
     (case s_mngr of
        NULL \<Rightarrow> (Err EINVAL, NULL, d)
      | Freed \<Rightarrow> (UB, Freed, d)
      | Ptr s \<Rightarrow>
          if b_alloc s \<noteq> NULL \<and> fst (buddy_alloc_destroy (b_alloc s)) = UB then (UB, s_mngr, d)
          else if r_file_ctrl s \<noteq> NULL
          then (case ram_file_destroy remove_err (r_file_ctrl s) d of
                  (UB, _, d) \<Rightarrow> (UB, s_mngr, d)
                | (_, _, d) \<Rightarrow> (Ok (), Freed, d))
          else (Ok (), Freed, d))"

definition on_store ::
  "store_mngr cptr \<Rightarrow> (store_mngr \<Rightarrow> 'a res \<times> store_mngr) \<Rightarrow> 'a res \<times> store_mngr cptr" where
  "on_store p f = deref p (\<lambda>s. case f s of (r, s') \<Rightarrow> (r, Ptr s'))"

definition store_mngr_block_alloc ::
  "bool \<Rightarrow> store_mngr cptr \<Rightarrow> u32 \<Rightarrow> out_arg \<Rightarrow> store_mngr_block cptr res \<times> store_mngr cptr" where
  "store_mngr_block_alloc calloc_ok s_mngr fsize st_blk_handler =
     (if s_mngr = NULL \<or> st_blk_handler = OutNull then (Err EINVAL, s_mngr)
      else if \<not> calloc_ok then (Err ENOMEM, s_mngr)
      else on_store s_mngr (\<lambda>s.
        case buddy_alloc_allocate (b_alloc s) fsize OutAddr of
          (r, b) \<Rightarrow> (res_bind r (\<lambda>p. Ok (Ptr \<lparr>b_alloc_block = Some p\<rparr>)), s\<lparr>b_alloc := b\<rparr>)))"

text \<open>The handler is freed even when the release of the block fails.\<close>

definition store_mngr_block_free ::
  "store_mngr cptr \<Rightarrow> store_mngr_block cptr \<Rightarrow> unit res \<times> store_mngr cptr \<times> store_mngr_block cptr" where
  "store_mngr_block_free s_mngr st_blk_handler =
     (if s_mngr = NULL \<or> st_blk_handler = NULL then (Err EINVAL, s_mngr, st_blk_handler)
      else case load st_blk_handler of
             Ok h \<Rightarrow>
               (case on_store s_mngr (\<lambda>s.
                       case buddy_alloc_free (b_alloc s) (b_alloc_block h) of
                         (r, b) \<Rightarrow> (r, s\<lparr>b_alloc := b\<rparr>)) of
                  (UB, s) \<Rightarrow> (UB, s, st_blk_handler)
                | (r, s) \<Rightarrow> (r, s, Freed))
           | _ \<Rightarrow> (UB, s_mngr, st_blk_handler))"

text \<open>
  \<open>buddy_alloc_get_block_offset\<close> on the handler's block; the block lives in the allocator's
  memory.
\<close>

definition handler_offset :: "store_mngr \<Rightarrow> store_mngr_block cptr \<Rightarrow> u32 res" where
  "handler_offset s st_blk_handler =
     res_bind (load st_blk_handler) (\<lambda>h.
     res_bind (load (b_alloc s)) (\<lambda>b.
     buddy_alloc_get_block_offset b (b_alloc_block h) OutAddr))"

text \<open>
  Block offset and file offset are added in 32 bits. Neither is compared with the size of the
  block.
\<close>

definition store_mngr_block_write ::
  "io_outcome \<Rightarrow> store_mngr cptr \<Rightarrow> store_mngr_block cptr \<Rightarrow> u32 \<Rightarrow> store_mngr_data \<Rightarrow> disk
     \<Rightarrow> unit res \<times> disk" where
  "store_mngr_block_write io s_mngr st_blk_handler file_bytes_offset data d =
     (if s_mngr = NULL \<or> st_blk_handler = NULL then (Err EINVAL, d)
      else and_then (load s_mngr, d) (\<lambda>s d.
        and_then (handler_offset s st_blk_handler, d) (\<lambda>block_offset d.
        let total_offset = block_offset + file_bytes_offset
        in ram_file_write io (r_file_ctrl s) (ucast total_offset) (sd_data data)
             (ucast (sd_data_len data)) d)))"

text \<open>
  \<open>data_out_data\<close> is \<open>data_out->data\<close>, a buffer of the given number of bytes; the result is the
  bytes stored there and \<open>data_out->data_len\<close>.
\<close>

definition store_mngr_block_read ::
  "read_outcome \<Rightarrow> store_mngr cptr \<Rightarrow> store_mngr_block cptr \<Rightarrow> u32 \<Rightarrow> u32 \<Rightarrow> out_arg \<Rightarrow> nat cptr
     \<Rightarrow> disk \<Rightarrow> (u8 list \<times> u32) res" where
  "store_mngr_block_read io s_mngr st_blk_handler file_bytes_offset read_size data_out data_out_data d =
     (if s_mngr = NULL \<or> st_blk_handler = NULL \<or> data_out = OutNull then Err EINVAL
      else res_bind (load s_mngr) (\<lambda>s.
        res_bind (handler_offset s st_blk_handler) (\<lambda>block_offset.
        let total_offset = block_offset + file_bytes_offset
        in res_bind (ram_file_read io d (r_file_ctrl s) (ucast total_offset) data_out_data
                       (ucast read_size)) (\<lambda>bs. Ok (bs, read_size)))))"

section \<open>Invariant\<close>

text \<open>The allocator satisfies its invariant and the file has room for the whole pool.\<close>

definition store_ok :: "store_mngr \<Rightarrow> bool" where
  "store_ok s \<longleftrightarrow>
     (\<exists>b m i. b_alloc s = Ptr b \<and> buddy_ok b \<and> r_file_ctrl s = Ptr m \<and> file_handle m = Ptr i \<and>
              unat (max_file_size m) = pool_bytes b)"

definition store_alloc :: "store_mngr \<Rightarrow> buddy_alloc" where
  "store_alloc s = (case b_alloc s of Ptr b \<Rightarrow> b | _ \<Rightarrow> blank_alloc 0 0)"

definition store_file :: "store_mngr \<Rightarrow> ram_file" where
  "store_file s = (case r_file_ctrl s of
     Ptr m \<Rightarrow> m
   | _ \<Rightarrow> \<lparr>file_handle = NULL, file_path = NULL, max_file_size = 0, delete_files = False\<rparr>)"

text \<open>The live blocks of the store, their sizes, and the handler of a block.\<close>

definition store_blocks :: "store_mngr \<Rightarrow> nat set" where
  "store_blocks s = live_handles (store_alloc s)"

definition store_block_len :: "store_mngr \<Rightarrow> nat \<Rightarrow> nat" where
  "store_block_len s h = block_len (store_alloc s) h"

definition handler :: "nat \<Rightarrow> store_mngr_block cptr" where
  "handler h = Ptr \<lparr>b_alloc_block = Some h\<rparr>"

lemma store_okE:
  assumes "store_ok s"
  obtains b m i where "b_alloc s = Ptr b" "buddy_ok b" "r_file_ctrl s = Ptr m" "file_handle m = Ptr i"
    "unat (max_file_size m) = pool_bytes b" "store_alloc s = b" "store_file s = m"
  using assms by (auto simp: store_ok_def store_alloc_def store_file_def)

lemma pool_bytes_32: "buddy_ok b \<Longrightarrow> pool_bytes b < 2 ^ 32"
proof -
  assume "buddy_ok b"
  then obtain k L R T where inv: "buddy_inv k L b R T" by (auto simp: buddy_ok_def)
  have "k + (L - 1) < 32" using shapeD(3) [OF buddy_invD(5) [OF inv]] .
  then show ?thesis unfolding inv_pool [OF inv] by (rule power_strict_increasing) simp
qed

lemma store_file_ok:
  assumes "store_ok s"
  shows "file_ok (store_file s, d)" "pool_bytes (store_alloc s) \<le> file_limit (store_file s, d)"
proof -
  from assms obtain b m i where s: "b_alloc s = Ptr b" "buddy_ok b" "file_handle m = Ptr i"
    "unat (max_file_size m) = pool_bytes b" "store_alloc s = b" "store_file s = m"
    by (rule store_okE)
  then show "file_ok (store_file s, d)" "pool_bytes (store_alloc s) \<le> file_limit (store_file s, d)"
    using pool_bytes_32 [OF s(2)] by (simp_all add: file_ok_def file_limit_def)
qed

interpretation store: block_store buddy_ok live_handles block_range pool_bytes allocate_body free_body
  file_ok file_limit file_read file_write
  by unfold_locales

section \<open>Reads and writes inside a block\<close>

lemma unat_ucast_32_64: "unat (ucast v :: u64) = unat v" for v :: u32
  using unat_less_32 [of v] by (simp add: unsigned_ucast_eq take_bit_nat_eq_self)

text \<open>Where a range of a block lies in the file, in 32 bits and as a number.\<close>

lemma block_position:
  assumes "store_ok s" "h \<in> store_blocks s" "unat off + n \<le> store_block_len s h" "0 < n"
  shows "handler_offset s (handler h) = Ok (blk_offset (blocks (store_alloc s) ! h))"
    and "(ucast (blk_offset (blocks (store_alloc s) ! h) + off) :: u64) =
           of_nat (unat (blk_offset (blocks (store_alloc s) ! h)) + unat off)"
    and "{unat (blk_offset (blocks (store_alloc s) ! h)) + unat off ..<
          unat (blk_offset (blocks (store_alloc s) ! h)) + unat off + n} \<subseteq> block_range (store_alloc s) h"
proof -
  from assms(1) obtain b where s: "b_alloc s = Ptr b" "buddy_ok b" "store_alloc s = b"
    by (rule store_okE)
  have h: "h \<in> live_handles b" "unat off + n \<le> block_len b h"
    using assms(2,3) s(3) by (simp_all add: store_blocks_def store_block_len_def)
  then have hl: "h < length (blocks b)" by (simp add: live_handles_def)
  let ?o = "blk_offset (blocks b ! h)"
  show "handler_offset s (handler h) = Ok (blk_offset (blocks (store_alloc s) ! h))"
    using s hl by (simp add: handler_offset_def handler_def buddy_alloc_get_block_offset_def
        get_blk_def)
  show sub: "{unat (blk_offset (blocks (store_alloc s) ! h)) + unat off ..<
          unat (blk_offset (blocks (store_alloc s) ! h)) + unat off + n} \<subseteq> block_range (store_alloc s) h"
    using h(2) by (auto simp: s(3) block_range_def)
  have "unat ?o + unat off \<in> block_range b h" using sub assms(4) s(3) by auto
  then have "unat ?o + unat off < pool_bytes b" using buddy.live_in_pool [OF s(2) h(1)] by blast
  with pool_bytes_32 [OF s(2)] have lt: "unat ?o + unat off < 2 ^ 32" by simp
  then have "unat (?o + off) = unat ?o + unat off" by (subst unat_add_lem [THEN iffD1]) simp_all
  then show "(ucast (blk_offset (blocks (store_alloc s) ! h) + off) :: u64) =
           of_nat (unat (blk_offset (blocks (store_alloc s) ! h)) + unat off)"
    unfolding s(3) by (metis of_nat_unat)
qed

text \<open>The code's write and read at a position of a block, through the file interface.\<close>

lemma block_write:
  assumes ok: "store_ok s" and h: "h \<in> store_blocks s"
    and fit: "unat off + length bs \<le> store_block_len s h" and ne: "bs \<noteq> []"
  shows "store_mngr_block_write IoOk (Ptr s) (handler h) off
           \<lparr>sd_data = Ptr bs, sd_data_len = of_nat (length bs)\<rparr> d =
         (case file_write (unat (blk_offset (blocks (store_alloc s) ! h)) + unat off) bs (store_file s, d) of
            (r, f) \<Rightarrow> (r, snd f))"
proof -
  from ok obtain b m i where s: "b_alloc s = Ptr b" "buddy_ok b" "r_file_ctrl s = Ptr m"
    "store_alloc s = b" "store_file s = m" by (rule store_okE)
  have n: "0 < length bs" using ne by simp
  note p = block_position [OF ok h fit n]
  have "length bs < 2 ^ 32"
  proof -
    have "h \<in> live_handles b" using h s(4) by (simp add: store_blocks_def)
    then have "card (block_range b h) \<le> card {..<pool_bytes b}"
      using buddy.live_in_pool [OF s(2)] by (intro card_mono) auto
    then show ?thesis using fit s(4) pool_bytes_32 [OF s(2)]
      by (simp add: block_range_def store_block_len_def)
  qed
  then have "unat (of_nat (length bs) :: u32) = length bs" by (intro unat_of_nat_lt) simp
  then have len: "(ucast (of_nat (length bs) :: u32) :: u64) = of_nat (length bs)"
    by (metis of_nat_unat)
  show ?thesis
    using s(3,5) p(1,2) len
    by (simp add: store_mngr_block_write_def handler_def file_write_def Let_def split: prod.splits)
qed

lemma block_read:
  assumes ok: "store_ok s" and h: "h \<in> store_blocks s"
    and fit: "unat off + unat n \<le> store_block_len s h" and ne: "n \<noteq> 0"
  shows "store_mngr_block_read ReadOk (Ptr s) (handler h) off n OutAddr (Ptr (unat n)) d =
         res_bind (file_read (store_file s, d) (unat (blk_offset (blocks (store_alloc s) ! h)) + unat off)
                     (unat n)) (\<lambda>bs. Ok (bs, n))"
proof -
  from ok obtain b m i where s: "r_file_ctrl s = Ptr m" "store_file s = m" by (rule store_okE)
  have pos: "0 < unat n" using ne by (simp add: unat_gt_0)
  note p = block_position [OF ok h fit pos]
  have len: "(ucast n :: u64) = of_nat (unat n)" by (metis of_nat_unat)
  show ?thesis
    using s p(1,2) len
    by (simp add: store_mngr_block_read_def handler_def file_read_def Let_def)
qed

text \<open>A read with another outcome or buffer gives the same bytes when it succeeds.\<close>

lemma store_read_any:
  "store_mngr_block_read io p h off n x y d = Ok r \<longleftrightarrow>
     store_mngr_block_read ReadOk p h off n x (Ptr (unat n)) d = Ok r \<and> read_succeeds io y (unat n)"
  by (auto simp: store_mngr_block_read_def res_bind_eq_Ok read_any [of io] unat_ucast_32_64 Let_def)

lemma store_read_room:
  assumes "store_mngr_block_read ReadOk p h off n x (Ptr (unat n)) d = Ok r" "unat n \<le> room"
  shows "store_mngr_block_read ReadOk p h off n x (Ptr room) d = Ok r"
  using assms by (subst store_read_any) (simp add: read_succeeds_def)

section \<open>A concrete store\<close>

definition sample_store_cfg :: store_mngr_cfg where
  "sample_store_cfg = \<lparr>total_size = 32, minimum_block_size = 8, cfg_type = TYPE1\<rparr>"

definition empty_disk :: disk where
  "empty_disk = \<lparr>directory = (\<lambda>_. None), contents = (\<lambda>_. []), next_file = 0\<rparr>"

definition sample_store :: store_mngr where
  "sample_store = \<lparr>b_alloc = Ptr (snd (allocate_body sample_buddy 8)),
                   r_file_ctrl = Ptr sample_ram_file, st_type = TYPE1\<rparr>"

lemma sample_alloc:
  obtains h b where "allocate_body sample_buddy 8 = (Ok h, b)" "buddy_ok b" "live_handles b = {h}"
    "pool_bytes b = 32" "8 \<le> block_len b h"
proof -
  have live: "live_handles sample_buddy = {}" using root_handles [OF sample_buddy_inv] by blast
  have pool: "pool_bytes sample_buddy = 32" using inv_pool [OF sample_buddy_inv] by simp
  have sc: "size_class sample_buddy 8 3"
    using inv_min [OF sample_buddy_inv] inv_pool [OF sample_buddy_inv] by (simp add: size_class_def)
  from sample_buddy_ok show ?thesis
  proof (cases rule: buddy.alloc_cases [where v = 8])
    case (Got h b)
    have "8 \<le> block_len b h" using Got(5) by (simp add: block_range_def)
    with Got live pool that show ?thesis by simp
  next
    case (Refused e)
    from sample_buddy_inv show ?thesis
    proof (cases rule: allocate_view [where v = 8])
      case (Full j)
      have "Suc 0 * 2 ^ j \<le> pool_bytes sample_buddy" using Full(1) by (simp add: size_class_def)
      with Full(3) [of 0] live show ?thesis by simp
    qed (use sc Refused in auto)
  qed
qed

lemma sample_store_facts:
  obtains h where "store_ok sample_store" "h \<in> store_blocks sample_store" "8 \<le> store_block_len sample_store h"
proof -
  obtain h b where b: "allocate_body sample_buddy 8 = (Ok h, b)" "buddy_ok b" "live_handles b = {h}"
    "pool_bytes b = 32" "8 \<le> block_len b h" by (rule sample_alloc)
  have "store_ok sample_store" using b by (simp add: store_ok_def sample_store_def sample_ram_file_def)
  moreover have "store_alloc sample_store = b" using b(1) by (simp add: store_alloc_def sample_store_def)
  ultimately show ?thesis
    using b that by (simp add: store_blocks_def store_block_len_def)
qed

section \<open>Properties\<close>

text \<open>
  C35 (invariant). A store created from a valid pool configuration of at most 27 levels, with an
  environment that provides memory and the file, satisfies the invariant and has no blocks.
\<close>

theorem store_create_ok:
  assumes "valid_cfg \<lparr>total_mem_pool_size = total_size cfg,
                      cfg_min_block_size = minimum_block_size cfg\<rparr> k L" "L \<le> 27"
  shows "\<exists>s d'. store_mngr_create True (True, True, True) (True, True, True) OutAddr (Ptr cfg) d =
           (Ok (Ptr s), d') \<and> store_ok s \<and> store_blocks s = {} \<and> directory d' storage_path \<noteq> None"
proof -
  obtain b where b: "buddy_alloc_create True True True
      (Ptr \<lparr>total_mem_pool_size = total_size cfg, cfg_min_block_size = minimum_block_size cfg\<rparr>) OutAddr
      = Ok (Ptr b)" "buddy_inv k L b {1} {}"
    using create_inv [OF assms] .
  let ?m = "\<lambda>i. \<lparr>file_handle = Ptr i, file_path = Ptr storage_path,
       max_file_size = ucast (total_size cfg), delete_files = True\<rparr>"
  have S: "k + (L - 1) < 32" using assms(1) unfolding valid_cfg_def by blast
  have tot: "total_size cfg = pow2 (k + (L - 1))"
    using assms(1) unfolding valid_cfg_def buddy_alloc_cfg.simps by blast
  have ut: "unat (total_size cfg) = pool_bytes b" unfolding tot inv_pool [OF b(2)] using S by (rule unat_pow2)
  have uc: "unat (ucast (total_size cfg) :: u64) = unat (total_size cfg)"
    by (rule unat_ucast_32_64)
  then have nz: "(ucast (total_size cfg) :: u64) \<noteq> 0"
    using ut inv_pool [OF b(2)] by (metis power_not_zero unat_0 zero_neq_numeral)
  obtain i d' where f: "ram_file_create True True True
      (Ptr \<lparr>cfg_file_path = Ptr storage_path, cfg_max_file_size = ucast (total_size cfg),
            cfg_delete_files = True\<rparr>) OutAddr d = (Ok (Ptr (?m i)), d')"
    "directory d' storage_path \<noteq> None"
    using nz by (cases "directory d storage_path")
      (auto simp: ram_file_create_def check_if_file_exist_def open_new_def)
  have "store_mngr_create True (True, True, True) (True, True, True) OutAddr (Ptr cfg) d =
     (Ok (Ptr \<lparr>b_alloc = Ptr b, r_file_ctrl = Ptr (?m i), st_type = cfg_type cfg\<rparr>), d')"
    using b(1) f(1) by (simp add: store_mngr_create_def Let_def)
  moreover have "live_handles b = {}" using root_handles [OF b(2)] by blast
  ultimately show ?thesis
    using f(2) buddy_okI [OF b(2)] uc ut
    by (auto simp: store_ok_def store_blocks_def store_alloc_def)
qed

theorem store_create_ok_witness:
  "\<exists>s d'. store_mngr_create True (True, True, True) (True, True, True) OutAddr (Ptr sample_store_cfg)
           empty_disk = (Ok (Ptr s), d') \<and> store_ok s \<and> store_blocks s = {}"
proof -
  have v: "valid_cfg \<lparr>total_mem_pool_size = total_size sample_store_cfg,
      cfg_min_block_size = minimum_block_size sample_store_cfg\<rparr> 3 3"
    using sample_cfg_valid by (simp add: sample_store_cfg_def sample_buddy_cfg_def)
  from store_create_ok [OF v, of empty_disk] show ?thesis by auto
qed

text \<open>
  C7 (safety). When the C library carries out the transfers, a write inside a live block succeeds
  and is read back through the same handler into any buffer with room for it, and whatever could
  be read inside another live block, into whatever buffer, reads as before.
\<close>

theorem store_write_isolated:
  assumes "store_ok s" "h \<in> store_blocks s" "bs \<noteq> []"
    and "unat off + length bs \<le> store_block_len s h"
  shows "\<exists>d'. store_mngr_block_write IoOk (Ptr s) (handler h) off
            \<lparr>sd_data = Ptr bs, sd_data_len = of_nat (length bs)\<rparr> d = (Ok (), d') \<and>
          (\<forall>room\<ge>length bs.
             store_mngr_block_read ReadOk (Ptr s) (handler h) off (of_nat (length bs)) OutAddr (Ptr room) d' =
               Ok (bs, of_nat (length bs))) \<and>
          (\<forall>g\<in>store_blocks s - {h}. \<forall>rio y o2 n xs. unat o2 + unat n \<le> store_block_len s g \<longrightarrow>
             store_mngr_block_read rio (Ptr s) (handler g) o2 n OutAddr y d = Ok (xs, n) \<longrightarrow>
             store_mngr_block_read rio (Ptr s) (handler g) o2 n OutAddr y d' = Ok (xs, n))"
proof -
  from assms(1) obtain b where s: "buddy_ok b" "store_alloc s = b" by (rule store_okE)
  let ?pos = "\<lambda>g. unat (blk_offset (blocks (store_alloc s) ! g))"
  have n: "0 < length bs" using assms(3) by simp
  note p = block_position [OF assms(1,2,4) n]
  have h: "h \<in> live_handles (store_alloc s)" using assms(2) by (simp add: store_blocks_def)
  obtain f' where f': "file_write (?pos h + unat off) bs (store_file s, d) = (Ok (), f')"
    "file_read f' (?pos h + unat off) (length bs) = Ok bs"
    and keeps: "\<forall>g\<in>live_handles (store_alloc s) - {h}. \<forall>o2 n xs. 0 < n \<longrightarrow>
       {o2 ..< o2 + n} \<subseteq> block_range (store_alloc s) g \<longrightarrow> file_read (store_file s, d) o2 n = Ok xs \<longrightarrow>
       file_read f' o2 n = Ok xs"
    using store.write_isolated [OF s(1) [folded s(2)] store_file_ok [OF assms(1), of d] h assms(3) p(3)]
    by blast
  have ff: "f' = (store_file s, snd f')"
    using f'(1) by (auto simp: file_write_def split: prod.splits)
  have w: "store_mngr_block_write IoOk (Ptr s) (handler h) off
            \<lparr>sd_data = Ptr bs, sd_data_len = of_nat (length bs)\<rparr> d = (Ok (), snd f')"
    using block_write [OF assms(1,2,4,3), of d] f'(1) by simp
  have "card (block_range b h) \<le> card {..<pool_bytes b}"
    using buddy.live_in_pool [OF s(1)] h s(2) by (intro card_mono) auto
  then have l32: "length bs < 2 ^ 32"
    using assms(4) s(2) pool_bytes_32 [OF s(1)] by (simp add: block_range_def store_block_len_def)
  then have ul: "unat (of_nat (length bs) :: u32) = length bs" by (intro unat_of_nat_lt) simp
  then have nz: "of_nat (length bs) \<noteq> (0 :: u32)" using n by (metis less_irrefl unat_0)
  have r0: "store_mngr_block_read ReadOk (Ptr s) (handler h) off (of_nat (length bs)) OutAddr
          (Ptr (length bs)) (snd f') = Ok (bs, of_nat (length bs))"
    using block_read [OF assms(1,2) _ nz, of off "snd f'"] assms(4) f'(2) unfolding ul ff [symmetric]
    by simp
  have r: "\<forall>room\<ge>length bs. store_mngr_block_read ReadOk (Ptr s) (handler h) off
       (of_nat (length bs)) OutAddr (Ptr room) (snd f') = Ok (bs, of_nat (length bs))"
    by (intro allI impI, rule store_read_room; simp only: ul r0)
  have others: "store_mngr_block_read rio (Ptr s) (handler g) o2 m OutAddr y (snd f') = Ok (xs, m)"
    if g: "g \<in> store_blocks s - {h}" and fit: "unat o2 + unat m \<le> store_block_len s g"
      and rd: "store_mngr_block_read rio (Ptr s) (handler g) o2 m OutAddr y d = Ok (xs, m)"
    for g rio y o2 m xs
  proof -
    have rd': "store_mngr_block_read ReadOk (Ptr s) (handler g) o2 m OutAddr (Ptr (unat m)) d = Ok (xs, m)"
      and su: "read_succeeds rio y (unat m)"
      using rd store_read_any [of rio] by simp_all
    have nz: "m \<noteq> 0"
      using rd' by (auto simp: store_mngr_block_read_def ram_file_read_def res_bind_eq_Ok Let_def split: if_splits)
    have gl: "g \<in> store_blocks s" "g \<in> live_handles (store_alloc s) - {h}"
      using g by (simp_all add: store_blocks_def)
    have pos: "0 < unat m" using nz by (simp add: unat_gt_0)
    note q = block_position [OF assms(1) gl(1) fit pos]
    have "file_read (store_file s, d) (?pos g + unat o2) (unat m) = Ok xs"
      using rd' block_read [OF assms(1) gl(1) fit nz, of d] by (auto simp: res_bind_eq_Ok)
    with keeps gl(2) pos q(3) have "file_read f' (?pos g + unat o2) (unat m) = Ok xs" by blast
    then have "store_mngr_block_read ReadOk (Ptr s) (handler g) o2 m OutAddr (Ptr (unat m)) (snd f') = Ok (xs, m)"
      using block_read [OF assms(1) gl(1) fit nz, of "snd f'"] unfolding ff [symmetric] by simp
    with su show ?thesis using store_read_any [of rio] by simp
  qed
  with w r show ?thesis by blast
qed

theorem store_write_isolated_witness:
  "\<exists>h d'. h \<in> store_blocks sample_store \<and>
     store_mngr_block_write IoOk (Ptr sample_store) (handler h) 2
        \<lparr>sd_data = Ptr [5, 6, 7], sd_data_len = 3\<rparr> empty_disk = (Ok (), d') \<and>
     store_mngr_block_read ReadOk (Ptr sample_store) (handler h) 2 3 OutAddr (Ptr 4) d' = Ok ([5, 6, 7], 3)"
proof -
  obtain h where h: "store_ok sample_store" "h \<in> store_blocks sample_store"
    "8 \<le> store_block_len sample_store h" by (rule sample_store_facts)
  have b: "[5, 6, 7 :: u8] \<noteq> []" "unat (2 :: u32) + length [5, 6, 7 :: u8] \<le> store_block_len sample_store h"
    using h(3) by simp_all
  from store_write_isolated [OF h(1,2) b, of empty_disk] h(2) show ?thesis by auto
qed

text \<open>
  C24 (error). The store does not confine a handler to its block: the offset of a write is added
  to the block's offset in 32 bits and never compared with the block's size, so through any live
  handler any range of any other live block can be overwritten.
\<close>

theorem store_write_unconfined:
  assumes "store_ok s" "g \<in> store_blocks s" "h \<in> store_blocks s" "bs \<noteq> []"
    and "unat off + length bs \<le> store_block_len s g"
  shows "\<exists>off' d'. store_mngr_block_write IoOk (Ptr s) (handler h) off'
            \<lparr>sd_data = Ptr bs, sd_data_len = of_nat (length bs)\<rparr> d = (Ok (), d') \<and>
          store_mngr_block_write IoOk (Ptr s) (handler g) off
            \<lparr>sd_data = Ptr bs, sd_data_len = of_nat (length bs)\<rparr> d = (Ok (), d')"
proof -
  from assms(1) obtain b where s: "b_alloc s = Ptr b" "buddy_ok b" "store_alloc s = b" by (rule store_okE)
  let ?og = "blk_offset (blocks b ! g)" and ?oh = "blk_offset (blocks b ! h)"
  let ?off = "?og + off - ?oh"
  have n: "0 < length bs" using assms(4) by simp
  note p = block_position [OF assms(1,2,5) n]
  have hl: "h < length (blocks b)" using assms(3) s(3) by (simp add: store_blocks_def live_handles_def)
  have hh: "handler_offset s (handler h) = Ok ?oh"
    using s hl by (simp add: handler_offset_def handler_def buddy_alloc_get_block_offset_def get_blk_def)
  have same: "store_mngr_block_write IoOk (Ptr s) (handler h) ?off data d =
                store_mngr_block_write IoOk (Ptr s) (handler g) off data d" for data
    using hh p(1) s(3) by (simp add: store_mngr_block_write_def handler_def)
  have gl: "g \<in> live_handles (store_alloc s)" using assms(2) by (simp add: store_blocks_def)
  obtain f' where "file_write (unat (blk_offset (blocks (store_alloc s) ! g)) + unat off) bs
      (store_file s, d) = (Ok (), f')"
    using store.write_isolated [OF s(2) [folded s(3)] store_file_ok [OF assms(1), of d] gl assms(4) p(3)]
    by blast
  then have "store_mngr_block_write IoOk (Ptr s) (handler g) off
            \<lparr>sd_data = Ptr bs, sd_data_len = of_nat (length bs)\<rparr> d = (Ok (), snd f')"
    using block_write [OF assms(1,2,5,4), of d] by simp
  with same show ?thesis by metis
qed

text \<open>A store with two blocks of 8 bytes.\<close>

lemma sample_second_block:
  obtains g h b where "buddy_ok b" "g \<in> live_handles b" "h \<in> live_handles b" "g \<noteq> h"
    "pool_bytes b = 32" "8 \<le> block_len b g"
proof -
  have live: "live_handles sample_buddy = {}" using root_handles [OF sample_buddy_inv] by blast
  obtain g b1 R T where b1: "buddy_inv 3 3 b1 R T" "live_handles b1 = {g}"
    and rng: "\<exists>i. block_range b1 g = {i * 2 ^ 3 ..< Suc i * 2 ^ 3}"
  proof -
    have sc: "size_class sample_buddy 8 3"
      using inv_min [OF sample_buddy_inv] inv_pool [OF sample_buddy_inv] by (simp add: size_class_def)
    from sample_buddy_inv show thesis
    proof (cases rule: allocate_cases [where v = 8])
      case Invalid
      with size_class_acceptable [OF sample_buddy_inv sc] show ?thesis by simp
    next
      case (Full d)
      obtain h b where "allocate_body sample_buddy 8 = (Ok h, b)" by (rule sample_alloc)
      with Full show ?thesis by simp
    next
      case (Done p b' R' r)
      have "3 + (3 - 1) - depth (Suc p) = 3"
        using size_class_unique [OF fits_size_class [OF sample_buddy_inv Done(3)] sc] .
      then have "block_range b' p = {index (Suc p) * 2 ^ 3 ..< Suc (index (Suc p)) * 2 ^ 3}"
        using inv_range(2) [OF Done(7), of p] unfolding bytes_of_def by simp
      moreover have "live_handles b' = {p}" using inv_handles(1) [OF Done(7)] by auto
      ultimately show ?thesis using that [OF Done(7)] by blast
    qed
  qed
  have pool: "pool_bytes b1 = 32" using inv_pool [OF b1(1)] by simp
  have sc: "size_class b1 8 3"
    using inv_min [OF b1(1)] inv_pool [OF b1(1)] by (simp add: size_class_def)
  have ok: "buddy_ok b1" by (rule buddy_okI [OF b1(1)])
  obtain i where i: "block_range b1 g = {i * 2 ^ 3 ..< Suc i * 2 ^ 3}" using rng by blast
  from ok show ?thesis
  proof (cases rule: buddy.alloc_cases [where v = 8])
    case (Got h b)
    have "block_range b g = {i * 2 ^ 3 ..< Suc i * 2 ^ 3}" using Got(7) b1(2) i by simp
    then have "8 \<le> card (block_range b g)" by simp
    then have "8 \<le> block_len b g" by (simp add: block_range_def)
    then show ?thesis by (intro that [of b g h]) (use Got b1(2) pool in auto)
  next
    case (Refused e)
    from b1(1) show ?thesis
    proof (cases rule: allocate_view [where v = 8])
      case (Full j)
      have j: "j = 3" by (rule size_class_unique [OF Full(1) sc])
      have meets: "block_range b1 g \<inter> {n * 2 ^ 3 ..< Suc n * 2 ^ 3} \<noteq> {}" if "n < 2" for n
        using Full(3) [of n] that pool b1(2) unfolding j by auto
      have "i = 0" using meets [of 0] unfolding i by auto
      then show ?thesis using meets [of 1] unfolding i by simp
    qed (use sc Refused in auto)
  qed
qed

theorem store_write_unconfined_witness:
  "\<exists>s g h off' d'. store_ok s \<and> g \<in> store_blocks s \<and> h \<in> store_blocks s \<and> g \<noteq> h \<and>
     store_mngr_block_write IoOk (Ptr s) (handler h) off'
        \<lparr>sd_data = Ptr [1, 2], sd_data_len = of_nat (length [1, 2 :: u8])\<rparr> empty_disk = (Ok (), d') \<and>
     store_mngr_block_write IoOk (Ptr s) (handler g) 4
        \<lparr>sd_data = Ptr [1, 2], sd_data_len = of_nat (length [1, 2 :: u8])\<rparr> empty_disk = (Ok (), d')"
proof -
  obtain g h b where b: "buddy_ok b" "g \<in> live_handles b" "h \<in> live_handles b" "g \<noteq> h"
    "pool_bytes b = 32" "8 \<le> block_len b g" by (rule sample_second_block)
  let ?s = "sample_store\<lparr>b_alloc := Ptr b\<rparr>"
  have "store_ok ?s" using b(1,5) by (simp add: store_ok_def sample_store_def sample_ram_file_def)
  moreover have "store_alloc ?s = b" by (simp add: store_alloc_def)
  ultimately have s: "store_ok ?s" "g \<in> store_blocks ?s" "h \<in> store_blocks ?s"
    "8 \<le> store_block_len ?s g" using b by (simp_all add: store_blocks_def store_block_len_def)
  have bs: "[1, 2 :: u8] \<noteq> []" "unat (4 :: u32) + length [1, 2 :: u8] \<le> store_block_len ?s g"
    using s(4) by simp_all
  from store_write_unconfined [OF s(1-3) bs, of empty_disk] s(1-3) b(4) show ?thesis by blast
qed

lemma store_alloc_update:
  "store_alloc (s\<lparr>b_alloc := Ptr b\<rparr>) = b" "store_file (s\<lparr>b_alloc := p\<rparr>) = store_file s"
  by (simp_all add: store_alloc_def store_file_def)

lemma same_reads:
  assumes s: "b_alloc s = Ptr b" and live: "buddy_ok b" "buddy_ok b'" "g \<in> live_handles b" "g \<in> live_handles b'"
    and rng: "block_range b' g = block_range b g"
  shows "store_mngr_block_read rio (Ptr (s\<lparr>b_alloc := Ptr b'\<rparr>)) (handler g) o2 n x y d =
           store_mngr_block_read rio (Ptr s) (handler g) o2 n x y d"
proof -
  have pos: "0 < block_len c g" if "buddy_ok c" "g \<in> live_handles c" for c
  proof -
    from that(1) obtain k L R T where inv: "buddy_inv k L c R T" by (auto simp: buddy_ok_def)
    have "Suc g \<in> R \<union> T" using inv_handles(1) [OF inv] that(2) by blast
    from inv_range(1) [OF inv this] show ?thesis by simp
  qed
  have "unat (blk_offset (blocks b' ! g)) = unat (blk_offset (blocks b ! g))"
    using rng pos [OF live(1,3)] pos [OF live(2,4)] unfolding block_range_def
    by (metis atLeastLessThan_eq_iff less_add_same_cancel1)
  then have "blk_offset (blocks b' ! g) = blk_offset (blocks b ! g)" by (simp only: unat_eq_iff)
  moreover have "g < length (blocks b)" "g < length (blocks b')"
    using live by (simp_all add: live_handles_def)
  ultimately show ?thesis
    using s by (simp add: store_mngr_block_read_def handler_offset_def handler_def
        buddy_alloc_get_block_offset_def get_blk_def)
qed

lemma store_ok_update:
  assumes "store_ok s" "buddy_ok b'" "pool_bytes b' = pool_bytes (store_alloc s)"
  shows "store_ok (s\<lparr>b_alloc := Ptr b'\<rparr>)"
  using assms by (auto simp: store_ok_def store_alloc_def)

lemma block_alloc_keeps:
  assumes "store_ok s"
  shows "case store_mngr_block_alloc True (Ptr s) sz OutAddr of
           (Ok p, Ptr s') \<Rightarrow> store_ok s' \<and>
              (\<exists>a. p = handler a \<and> a \<notin> store_blocks s \<and> store_blocks s' = insert a (store_blocks s) \<and>
                   unat sz \<le> store_block_len s' a) \<and>
              (\<forall>h\<in>store_blocks s. store_mngr_block_read rio (Ptr s') (handler h) o2 n x y d =
                store_mngr_block_read rio (Ptr s) (handler h) o2 n x y d)
         | (Err e, p) \<Rightarrow> p = Ptr s
         | _ \<Rightarrow> False"
proof -
  from assms(1) obtain b where s: "b_alloc s = Ptr b" "buddy_ok b" "store_alloc s = b" by (rule store_okE)
  from s(2) show ?thesis
  proof (cases rule: buddy.alloc_cases [where v = sz])
    case (Got a b')
    let ?s = "s\<lparr>b_alloc := Ptr b'\<rparr>"
    have run: "store_mngr_block_alloc True (Ptr s) sz OutAddr = (Ok (handler a), Ptr ?s)"
      using s(1) Got(1)
      by (simp add: store_mngr_block_alloc_def on_store_def public_allocate handler_def)
    have "store_ok ?s" using Got(2,6) s(3) by (intro store_ok_update [OF assms(1)]) simp_all
    moreover have "store_mngr_block_read rio (Ptr ?s) (handler h) o2 n x y d =
        store_mngr_block_read rio (Ptr s) (handler h) o2 n x y d" if "h \<in> store_blocks s" for h
    proof -
      have h: "h \<in> live_handles b" using that s(3) by (simp add: store_blocks_def)
      then show ?thesis using Got(4) Got(7) [OF h] by (intro same_reads [OF s(1,2) Got(2) h]) simp_all
    qed
    moreover have "unat sz \<le> store_block_len ?s a"
      using Got(5) by (simp add: store_block_len_def store_alloc_update block_range_def)
    moreover have "store_blocks ?s = insert a (store_blocks s)" "a \<notin> store_blocks s"
      using Got(3,4) s(3) by (simp_all add: store_blocks_def store_alloc_update)
    ultimately show ?thesis by (simp add: run) blast
  next
    case (Refused e)
    have "s\<lparr>b_alloc := Ptr b\<rparr> = s" using s(1) by simp
    then have "store_mngr_block_alloc True (Ptr s) sz OutAddr = (Err e, Ptr s)"
      using s(1) Refused by (simp add: store_mngr_block_alloc_def on_store_def public_allocate)
    then show ?thesis by simp
  qed
qed

lemma block_free_keeps:
  assumes "store_ok s" "h \<in> store_blocks s"
  shows "\<exists>s'. store_mngr_block_free (Ptr s) (handler h) = (Ok (), Ptr s', Freed) \<and> store_ok s' \<and>
           store_blocks s' = store_blocks s - {h} \<and>
           (\<forall>g\<in>store_blocks s'. store_mngr_block_read rio (Ptr s') (handler g) o2 n x y d =
              store_mngr_block_read rio (Ptr s) (handler g) o2 n x y d)"
proof -
  from assms(1) obtain b where s: "b_alloc s = Ptr b" "buddy_ok b" "store_alloc s = b" by (rule store_okE)
  have h: "h \<in> live_handles b" using assms(2) s(3) by (simp add: store_blocks_def)
  obtain b' where b': "free_body b h = (Ok (), b')" "buddy_ok b'" "live_handles b' = live_handles b - {h}"
    "pool_bytes b' = pool_bytes b" "\<forall>g\<in>live_handles b'. block_range b' g = block_range b g"
    using buddy.release_result [OF s(2) h] by blast
  let ?s = "s\<lparr>b_alloc := Ptr b'\<rparr>"
  have "store_mngr_block_free (Ptr s) (handler h) = (Ok (), Ptr ?s, Freed)"
    using s(1) b'(1) by (simp add: store_mngr_block_free_def on_store_def public_free handler_def)
  moreover have "store_ok ?s" using b'(2,4) s(3) by (intro store_ok_update [OF assms(1)]) simp_all
  moreover have "store_blocks ?s = store_blocks s - {h}"
    using b'(3) s(3) by (simp add: store_blocks_def store_alloc_update)
  moreover have "store_mngr_block_read rio (Ptr ?s) (handler g) o2 n x y d =
      store_mngr_block_read rio (Ptr s) (handler g) o2 n x y d" if "g \<in> store_blocks ?s" for g
  proof -
    have "g \<in> live_handles b'" using that by (simp add: store_blocks_def store_alloc_update)
    with b'(3,5) show ?thesis by (intro same_reads [OF s(1,2) b'(2)]) simp_all
  qed
  ultimately show ?thesis by blast
qed

text \<open>
  C14 (safety). On a store that satisfies the invariant, with or without blocks, allocating a
  block and releasing a live one keep the invariant and never change what a read through the
  handler of another block gives. A refused allocation, for want of a block or of memory, changes
  nothing, and a release succeeds.
\<close>

theorem store_alloc_free_keep_contents:
  assumes "store_ok s"
  shows "(case store_mngr_block_alloc calloc_ok (Ptr s) sz OutAddr of
           (Ok p, Ptr s') \<Rightarrow> store_ok s' \<and>
              (\<exists>a. p = handler a \<and> a \<notin> store_blocks s \<and> store_blocks s' = insert a (store_blocks s) \<and>
                   unat sz \<le> store_block_len s' a) \<and>
              (\<forall>h\<in>store_blocks s. store_mngr_block_read rio (Ptr s') (handler h) o2 n x y d =
                store_mngr_block_read rio (Ptr s) (handler h) o2 n x y d)
         | (Err e, p) \<Rightarrow> p = Ptr s
         | _ \<Rightarrow> False) \<and>
         (\<forall>h\<in>store_blocks s. \<exists>s'. store_mngr_block_free (Ptr s) (handler h) = (Ok (), Ptr s', Freed) \<and> store_ok s' \<and>
           store_blocks s' = store_blocks s - {h} \<and>
           (\<forall>g\<in>store_blocks s'. store_mngr_block_read rio (Ptr s') (handler g) o2 n x y d =
              store_mngr_block_read rio (Ptr s) (handler g) o2 n x y d))"
  using block_alloc_keeps [OF assms] block_free_keeps [OF assms]
  by (intro conjI ballI) (cases calloc_ok; simp add: store_mngr_block_alloc_def)

theorem store_alloc_free_keep_contents_witness:
  "\<exists>h s'. h \<in> store_blocks sample_store \<and>
     store_mngr_block_free (Ptr sample_store) (handler h) = (Ok (), Ptr s', Freed) \<and> store_ok s' \<and>
     store_blocks s' = store_blocks sample_store - {h}"
proof -
  obtain h where h: "store_ok sample_store" "h \<in> store_blocks sample_store"
    "8 \<le> store_block_len sample_store h" by (rule sample_store_facts)
  from store_alloc_free_keep_contents [OF h(1), where rio = ReadOk and x = OutAddr and y = "Ptr 1" and d = empty_disk] h(2)
  show ?thesis by blast
qed

end
