(* ===== verification/Stack.thy ===== *)
theory Stack
  imports C_Prelude
begin

text \<open>
  \<open>STACK/stack.c\<close>: a bounded stack of 16-bit values in a flexible array of \<open>int\<close>. A
  \<open>struct stack **\<close> is the pointer it points to, next to an \<open>out_arg\<close> that says whether it was
  \<open>NULL\<close>.
\<close>

section \<open>State and operations\<close>

record c_stack =
  num_Of_items :: u16
  stack_size :: u16
  stack_array :: "32 word list"

definition stack_create ::
  "bool \<Rightarrow> out_arg \<Rightarrow> u16 \<Rightarrow> c_stack cptr \<Rightarrow> unit res \<times> c_stack cptr" where
  "stack_create malloc_ok st sz old =
     (if st = OutNull \<or> sz = 0 then (Err EINVAL, old)
      else if \<not> malloc_ok then (Err ENOMEM, NULL)
      else (Ok (), Ptr \<lparr>num_Of_items = 0, stack_size = sz, stack_array = replicate (unat sz) 0\<rparr>))"

definition stackIsEmpty :: "c_stack \<Rightarrow> bool" where
  "stackIsEmpty st \<longleftrightarrow> num_Of_items st = 0"

definition stackIsFull :: "c_stack \<Rightarrow> bool" where
  "stackIsFull st \<longleftrightarrow> num_Of_items st = stack_size st"

definition stackPush :: "c_stack cptr \<Rightarrow> u16 \<Rightarrow> unit res \<times> c_stack cptr" where
  "stackPush st data =
     (if st = NULL then (Err EINVAL, st)
      else deref st (\<lambda>s.
        if stackIsFull s then (Err EINVAL, st)
        else and_then (array_write (stack_array s) (unat (num_Of_items s)) (ucast data), st) (\<lambda>arr _.
          (Ok (), Ptr (s\<lparr>stack_array := arr, num_Of_items := num_Of_items s + 1\<rparr>)))))"

definition stackPop :: "c_stack cptr \<Rightarrow> out_arg \<Rightarrow> u16 res \<times> c_stack cptr" where
  "stackPop st outData =
     (if st = NULL then (Err EINVAL, st)
      else if outData = OutNull then (Err EINVAL, st)
      else deref st (\<lambda>s.
        if stackIsEmpty s then (Err ENOENT, st)
        else
          let s = s\<lparr>num_Of_items := num_Of_items s - 1\<rparr>
          in and_then (array_read (stack_array s) (unat (num_Of_items s)), Ptr s) (\<lambda>v st.
               (Ok (ucast v), st))))"

definition stackFree :: "out_arg \<Rightarrow> c_stack cptr \<Rightarrow> unit res \<times> c_stack cptr" where
  "stackFree st_arg st =
     (if st_arg = OutNull \<or> st = NULL then (Err EINVAL, st)
      else and_then (c_free st) (\<lambda>_ _. (Ok (), NULL)))"

section \<open>The stack as a list\<close>

definition stack_inv :: "c_stack \<Rightarrow> bool" where
  "stack_inv s \<longleftrightarrow> num_Of_items s \<le> stack_size s \<and> length (stack_array s) = unat (stack_size s)"

definition stack_list :: "c_stack \<Rightarrow> u16 list" where
  "stack_list s = rev (map ucast (take (unat (num_Of_items s)) (stack_array s)))"

lemma length_stack_list: "stack_inv s \<Longrightarrow> length (stack_list s) = unat (num_Of_items s)"
  by (simp add: stack_list_def stack_inv_def word_le_nat_alt)

lemma full_iff: "stack_inv s \<Longrightarrow> stackIsFull s \<longleftrightarrow> length (stack_list s) = unat (stack_size s)"
  by (simp add: stackIsFull_def length_stack_list unat_eq_iff)

lemma empty_iff: "stack_inv s \<Longrightarrow> stackIsEmpty s \<longleftrightarrow> stack_list s = []"
  using length_stack_list [of s] by (auto simp: stackIsEmpty_def unat_eq_0 simp flip: length_0_conv)

lemma ucast_16_32: "ucast (ucast (d :: u16) :: 32 word) = d"
  by (rule bit_word_eqI) (simp add: bit_simps)

lemma push_Ok:
  assumes inv: "stack_inv s" and "\<not> stackIsFull s"
  shows "\<exists>s'. stackPush (Ptr s) d = (Ok (), Ptr s') \<and> stack_inv s' \<and>
           stack_size s' = stack_size s \<and> stack_list s' = d # stack_list s"
proof -
  let ?n = "unat (num_Of_items s)"
  let ?s = "s\<lparr>stack_array := (stack_array s)[?n := ucast d], num_Of_items := num_Of_items s + 1\<rparr>"
  have lt: "?n < unat (stack_size s)"
    using assms by (auto simp: stack_inv_def stackIsFull_def word_le_nat_alt le_less unat_eq_iff)
  have len: "length (stack_array s) = unat (stack_size s)" using inv by (simp add: stack_inv_def)
  have inc: "unat (num_Of_items s + 1) = Suc ?n"
    using lt unat_less [of "stack_size s"] by (simp add: unat_inc)
  have "stackPush (Ptr s) d = (Ok (), Ptr ?s)"
    using assms(2) lt len by (simp add: stackPush_def)
  moreover have "stack_inv ?s" using lt len inc by (simp add: stack_inv_def word_le_nat_alt)
  moreover have "stack_list ?s = d # stack_list s"
    using lt len by (simp add: stack_list_def inc take_Suc_conv_app_nth ucast_16_32)
  ultimately show ?thesis by auto
qed

lemma pop_Ok:
  assumes inv: "stack_inv s" and l: "stack_list s = d # xs"
  shows "\<exists>s'. stackPop (Ptr s) OutAddr = (Ok d, Ptr s') \<and> stack_inv s' \<and>
           stack_size s' = stack_size s \<and> stack_list s' = xs"
proof -
  let ?s = "s\<lparr>num_Of_items := num_Of_items s - 1\<rparr>"
  have n: "unat (num_Of_items s) = Suc (length xs)" using length_stack_list [OF inv] l by simp
  then have nz: "num_Of_items s \<noteq> 0" by auto
  have dec: "unat (num_Of_items s - 1) = length xs" using n nz by (simp add: unat_dec)
  have len: "length xs < length (stack_array s)" using inv n by (simp add: stack_inv_def word_le_nat_alt)
  have e: "ucast (stack_array s ! length xs) = d" "stack_list ?s = xs"
    using l len by (simp_all add: stack_list_def n dec take_Suc_conv_app_nth)
  have "stackPop (Ptr s) OutAddr = (Ok d, Ptr ?s)"
    using nz len dec e(1) by (simp add: stackPop_def stackIsEmpty_def)
  moreover have "stack_inv ?s" using inv n dec by (simp add: stack_inv_def word_le_nat_alt)
  ultimately show ?thesis using e(2) by auto
qed

section \<open>Runs\<close>

datatype stack_op = Push u16 | Pop

text \<open>What a run of the code answers, and what a bounded list answers.\<close>

fun run_stack :: "c_stack cptr \<Rightarrow> stack_op list \<Rightarrow> u16 option res list" where
  "run_stack st [] = []"
| "run_stack st (Push d # ops) =
     (case stackPush st d of (r, st') \<Rightarrow> res_bind r (\<lambda>_. Ok None) # run_stack st' ops)"
| "run_stack st (Pop # ops) =
     (case stackPop st OutAddr of (r, st') \<Rightarrow> res_bind r (\<lambda>d. Ok (Some d)) # run_stack st' ops)"

fun run_list :: "nat \<Rightarrow> u16 list \<Rightarrow> stack_op list \<Rightarrow> u16 option res list" where
  "run_list cap xs [] = []"
| "run_list cap xs (Push d # ops) =
     (if length xs = cap then Err EINVAL # run_list cap xs ops
      else Ok None # run_list cap (d # xs) ops)"
| "run_list cap xs (Pop # ops) =
     (case xs of
        [] \<Rightarrow> Err ENOENT # run_list cap [] ops
      | d # ys \<Rightarrow> Ok (Some d) # run_list cap ys ops)"

lemma run_stack_list:
  "stack_inv s \<Longrightarrow> run_stack (Ptr s) ops = run_list (unat (stack_size s)) (stack_list s) ops"
proof (induction ops arbitrary: s)
  case Nil
  then show ?case by simp
next
  case (Cons x ops)
  note inv = Cons.prems
  show ?case
  proof (cases x)
    case (Push d)
    show ?thesis
    proof (cases "stackIsFull s")
      case True
      with full_iff [OF inv] Push Cons.IH [OF inv] show ?thesis by (simp add: stackPush_def)
    next
      case False
      from push_Ok [OF inv this, of d] obtain s' where
        "stackPush (Ptr s) d = (Ok (), Ptr s')" "stack_inv s'" "stack_size s' = stack_size s"
        "stack_list s' = d # stack_list s" by blast
      with False full_iff [OF inv] Push Cons.IH [of s'] show ?thesis by simp
    qed
  next
    case Pop
    show ?thesis
    proof (cases "stack_list s")
      case Nil
      with empty_iff [OF inv] Pop Cons.IH [OF inv] show ?thesis by (simp add: stackPop_def)
    next
      case (Cons d xs)
      from pop_Ok [OF inv this] obtain s' where
        "stackPop (Ptr s) OutAddr = (Ok d, Ptr s')" "stack_inv s'" "stack_size s' = stack_size s"
        "stack_list s' = xs" by blast
      with Cons Pop Cons.IH [of s'] show ?thesis by simp
    qed
  qed
qed

section \<open>Properties\<close>

text \<open>
  C38 (refinement). From its creation on, the stack answers every sequence of pushes and pops
  like a list bounded by the size it was created with: last in first out, \<open>-EINVAL\<close> for a push on
  a full stack, \<open>-ENOENT\<close> for a pop on an empty one, no access outside the array.
\<close>

theorem stack_is_bounded_list:
  assumes "sz \<noteq> 0"
  shows "\<exists>st. stack_create True OutAddr sz old = (Ok (), st) \<and>
           run_stack st ops = run_list (unat sz) [] ops"
proof -
  let ?s = "\<lparr>num_Of_items = 0, stack_size = sz, stack_array = replicate (unat sz) 0\<rparr>"
  have "stack_inv ?s" "stack_list ?s = []" by (simp_all add: stack_inv_def stack_list_def)
  then have "run_stack (Ptr ?s) ops = run_list (unat sz) [] ops" using run_stack_list [of ?s ops] by simp
  with assms show ?thesis by (simp add: stack_create_def)
qed

theorem stack_is_bounded_list_witness:
  "\<exists>st. stack_create True OutAddr 2 NULL = (Ok (), st) \<and>
     run_stack st [Pop, Push 7, Push 65535, Push 9, Pop, Pop] =
       [Err ENOENT, Ok None, Ok None, Err EINVAL, Ok (Some 65535), Ok (Some 7)]"
  using stack_is_bounded_list [of 2 NULL "[Pop, Push 7, Push 65535, Push 9, Pop, Pop]"] by simp

end
