(* ===== verification/Infra_Log.thy ===== *)
theory Infra_Log
  imports C_Prelude
begin

text \<open>
  \<open>INFRA/src/infra_log.c\<close>: the level filter and the two printing functions. What they print is
  returned as a string; the message is the text \<open>vprintf\<close> makes of format and arguments.
\<close>

section \<open>Levels\<close>

text \<open>
  \<open>log_level_t\<close> with its enumerators in the order of \<open>infra_log.h\<close>; \<open>LOG_OTHER n\<close> is an integer
  \<open>4 + n\<close> passed as a level.
\<close>

datatype log_level = LOG_INFO | LOG_WARNING | LOG_DEBUG | LOG_ERROR | LOG_OTHER nat

primrec level_value :: "log_level \<Rightarrow> nat" where
  "level_value LOG_INFO = 0"
| "level_value LOG_WARNING = 1"
| "level_value LOG_DEBUG = 2"
| "level_value LOG_ERROR = 3"
| "level_value (LOG_OTHER n) = 4 + n"

lemma level_value_inj: "level_value x = level_value y \<longleftrightarrow> x = y"
  by (cases x; cases y) simp_all

text \<open>Levels are compared as the integers they are.\<close>

instantiation log_level :: linorder
begin

definition less_eq_log_level :: "log_level \<Rightarrow> log_level \<Rightarrow> bool" where
  "less_eq_log_level x y \<longleftrightarrow> level_value x \<le> level_value y"

definition less_log_level :: "log_level \<Rightarrow> log_level \<Rightarrow> bool" where
  "less_log_level x y \<longleftrightarrow> level_value x < level_value y"

instance
  by intro_classes (auto simp: less_eq_log_level_def less_log_level_def level_value_inj)

end

section \<open>Printing\<close>

fun digits :: "nat \<Rightarrow> string" where
  "digits n = (if n < 10 then [char_of (48 + n)] else digits (n div 10) @ [char_of (48 + n mod 10)])"

declare digits.simps [simp del]

definition print_int :: "int \<Rightarrow> string" where
  "print_int i = (if i < 0 then ''-'' @ digits (nat (- i)) else digits (nat i))"

definition newline :: string where
  "newline = [char_of (10 :: nat)]"

definition default_log_level :: log_level where
  "default_log_level = LOG_DEBUG"

definition net_infra_set_log_level :: "log_level \<Rightarrow> log_level \<Rightarrow> log_level" where
  "net_infra_set_log_level log_level current_log_level = log_level"

primrec level_str :: "log_level \<Rightarrow> string" where
  "level_str LOG_DEBUG = ''DEBUG''"
| "level_str LOG_INFO = ''INFO''"
| "level_str LOG_WARNING = ''WARNING''"
| "level_str LOG_ERROR = ''ERROR''"
| "level_str (LOG_OTHER n) = ''UNKNOWN''"

definition net_infra_log ::
  "log_level \<Rightarrow> log_level \<Rightarrow> string \<Rightarrow> int \<Rightarrow> string \<Rightarrow> string \<Rightarrow> string" where
  "net_infra_log current_log_level level file line func message =
     (if level < current_log_level then ''''
      else ''['' @ level_str level @ ''] ['' @ file @ '':'' @ print_int line @ '' - '' @ func @ ''] ''
           @ message @ newline)"

definition net_infra_log_data :: "u8 list \<Rightarrow> string" where
  "net_infra_log_data bytes =
     concat (map (\<lambda>b. '' '' @ print_int (uint b) @ '' '') bytes) @ newline"

section \<open>Properties\<close>

text \<open>
  C39 (functional). What a call prints: nothing when its level is below the current level, as the
  enumerators are numbered in the header; otherwise one line with the level's name (\<open>INFO\<close>,
  \<open>WARNING\<close>, \<open>DEBUG\<close>, \<open>ERROR\<close> for 0 to 3 and \<open>UNKNOWN\<close> for every other number), file, line and
  function in front of the message. In that order the default level \<open>LOG_DEBUG\<close> is above
  \<open>LOG_WARNING\<close>: of the four levels the default prints \<open>LOG_DEBUG\<close> and \<open>LOG_ERROR\<close> and drops
  information and warnings.
\<close>

theorem log_filter:
  "net_infra_log (net_infra_set_log_level cur old) lev file line func msg =
     (if level_value lev < level_value cur then ''''
      else ''['' @ (if level_value lev < 4
                    then [''INFO'', ''WARNING'', ''DEBUG'', ''ERROR''] ! level_value lev
                    else ''UNKNOWN'') @
           ''] ['' @ file @ '':'' @ print_int line @ '' - '' @ func @ ''] '' @ msg @ newline) \<and>
   {lev. net_infra_log default_log_level lev file line func msg \<noteq> ''''} =
     - {LOG_INFO, LOG_WARNING}"
proof -
  have run: "net_infra_log cur lev file line func msg =
     (if level_value lev < level_value cur then ''''
      else ''['' @ (if level_value lev < 4
                    then [''INFO'', ''WARNING'', ''DEBUG'', ''ERROR''] ! level_value lev
                    else ''UNKNOWN'') @
           ''] ['' @ file @ '':'' @ print_int line @ '' - '' @ func @ ''] '' @ msg @ newline)" for cur lev
    unfolding net_infra_log_def less_log_level_def by (cases lev) simp_all
  have "level_value LOG_DEBUG \<le> level_value lev \<longleftrightarrow> lev \<notin> {LOG_INFO, LOG_WARNING}" for lev
    by (cases lev) simp_all
  then show ?thesis
    unfolding run net_infra_set_log_level_def default_log_level_def by (auto simp: not_less)
qed

end
