(* ===== verification/Net.thy ===== *)
theory Net
  imports C_Prelude
begin

text \<open>
  \<open>CLIENT_SERVER/src/net_server.c\<close> and \<open>CLIENT_SERVER/src/net_client.c\<close>: the life cycle of a UDP
  server with one receiving thread and of a UDP client. The kernel is the set of open descriptors
  and the datagrams sent; the results of the system calls are arguments. \<open>None\<close> as the result of
  a call that may fail means success, \<open>Some e\<close> failure with \<open>errno\<close> set to \<open>e\<close>.
\<close>

datatype 'a sys = SysOk 'a | SysErr errno

record kernel =
  open_fds :: "int set"
  sent :: "u8 list list"

definition close_fd :: "int \<Rightarrow> kernel \<Rightarrow> kernel" where
  "close_fd fd k = k\<lparr>open_fds := open_fds k - {fd}\<rparr>"

definition open_fd :: "int \<Rightarrow> kernel \<Rightarrow> kernel" where
  "open_fd fd k = k\<lparr>open_fds := insert fd (open_fds k)\<rparr>"

section \<open>The server\<close>

text \<open>
  \<open>thread_alive\<close> says that the thread started by \<open>net_server_start\<close> may still use the server. The
  callback includes its user context; it is not initialised by \<open>net_server_create\<close>.
\<close>

record 'cb net_server =
  srv_port :: u16
  sock_fd :: int
  thread_alive :: bool
  receive_data_flag :: int
  callback :: "'cb option"

record net_server_cfg =
  local_port :: u16

definition SERVER_BUFFER_SIZE :: nat where
  "SERVER_BUFFER_SIZE = 10 * 1024"

definition set_receive_data_flag :: "int \<Rightarrow> 'cb net_server \<Rightarrow> 'cb net_server" where
  "set_receive_data_flag v s = s\<lparr>receive_data_flag := v\<rparr>"

definition get_receive_data_flag :: "'cb net_server \<Rightarrow> int" where
  "get_receive_data_flag s = receive_data_flag s"

text \<open>Freeing the server while its thread runs lets the thread read freed memory.\<close>

definition cleanup_server ::
  "'cb net_server cptr \<Rightarrow> kernel \<Rightarrow> unit res \<times> 'cb net_server cptr \<times> kernel" where
  "cleanup_server server k =
     (case server of
        NULL \<Rightarrow> (Err EINVAL, NULL, k)
      | Freed \<Rightarrow> (UB, Freed, k)
      | Ptr s \<Rightarrow>
          if thread_alive s then (UB, server, k)
          else (Ok (), Freed, if sock_fd s \<ge> 0 then close_fd (sock_fd s) k else k))"

text \<open>
  Results of the calls in their order: \<open>malloc\<close>, \<open>socket\<close>, the two \<open>setsockopt\<close> and \<open>bind\<close>. After
  a failure \<open>*server\<close> keeps the address of the freed server.
\<close>

definition net_server_create ::
  "bool \<Rightarrow> int sys \<Rightarrow> errno option \<Rightarrow> errno option \<Rightarrow> errno option \<Rightarrow> net_server_cfg cptr \<Rightarrow> out_arg
     \<Rightarrow> 'cb net_server cptr \<Rightarrow> kernel \<Rightarrow> unit res \<times> 'cb net_server cptr \<times> kernel" where
  "net_server_create malloc_ok socket_res reuse_res timeout_res bind_res server_cfg server old k =
     (if server_cfg = NULL \<or> server = OutNull then (Err EINVAL, old, k)
      else case load server_cfg of
        Ok cfg \<Rightarrow>
          if \<not> malloc_ok then (Err ENOMEM, NULL, k)
          else
            (let fail = (\<lambda>e s k. case cleanup_server (Ptr s) k of
                                   (UB, p, k) \<Rightarrow> (UB, p, k)
                                 | (_, p, k) \<Rightarrow> (Err e, p, k))
             in case socket_res of
                  SysErr e \<Rightarrow>
                    fail e \<lparr>srv_port = 0, sock_fd = -1, thread_alive = False,
                            receive_data_flag = 0, callback = None\<rparr> k
                | SysOk fd \<Rightarrow>
                    let k = open_fd fd k;
                        s = \<lparr>srv_port = local_port cfg, sock_fd = fd, thread_alive = False,
                             receive_data_flag = 0, callback = None\<rparr>
                    in (case reuse_res of
                          Some e \<Rightarrow> fail e s k
                        | None \<Rightarrow>
                            (case timeout_res of
                               Some e \<Rightarrow> fail e s k
                             | None \<Rightarrow>
                                 (case bind_res of
                                    Some e \<Rightarrow> fail e s k
                                  | None \<Rightarrow> (Ok (), Ptr s, k)))))
      | _ \<Rightarrow> (UB, old, k))"

text \<open>
  What one turn of the receiving loop meets: the value of the flag, then the result of
  \<open>recvfrom\<close>. The loop calls the callback with at most the bytes that fit its buffer (a callback returns nothing, so its
  result is \<open>Ok ()\<close> or \<open>UB\<close>); it ends when
  it reads a cleared flag or when \<open>recvfrom\<close> fails with something other than a timeout. The result
  says whether it is still running after the given turns.
\<close>

datatype recv_result = Received u32 u16 "u8 list" | TimedOut | RecvFails errno

fun recv_loop ::
  "(u32 \<Rightarrow> u16 \<Rightarrow> u8 list \<Rightarrow> 'w \<Rightarrow> unit res \<times> 'w) \<Rightarrow> (int \<times> recv_result) list \<Rightarrow> 'w \<Rightarrow> bool res \<times> 'w"
where
  "recv_loop cb [] w = (Ok True, w)"
| "recv_loop cb ((flag, r) # turns) w =
     (if flag = 0 then (Ok False, w)
      else case r of
        Received ip port bytes \<Rightarrow>
          if bytes \<noteq> []
          then and_then (cb ip port (take SERVER_BUFFER_SIZE bytes) w) (\<lambda>_ w. recv_loop cb turns w)
          else recv_loop cb turns w
      | TimedOut \<Rightarrow> recv_loop cb turns w
      | RecvFails e \<Rightarrow> (Ok False, w))"

definition net_server_recv_loop ::
  "(u32 \<Rightarrow> u16 \<Rightarrow> u8 list \<Rightarrow> 'w \<Rightarrow> unit res \<times> 'w) net_server cptr \<Rightarrow> (int \<times> recv_result) list \<Rightarrow> 'w
     \<Rightarrow> bool res \<times> 'w" where
  "net_server_recv_loop server_data turns w =
     (case server_data of
        NULL \<Rightarrow> (Ok False, w)
      | Freed \<Rightarrow> (UB, w)
      | Ptr s \<Rightarrow> (case callback s of Some cb \<Rightarrow> recv_loop cb turns w | None \<Rightarrow> (UB, w)))"

text \<open>
  \<open>pthread_create\<close> gives its error as its result and does not set \<open>errno\<close>; the code returns
  \<open>-errno\<close>, which is whatever an earlier call left there (\<open>None\<close> for 0). The caller's pointer then
  refers to freed memory.
\<close>

definition net_server_start ::
  "bool \<Rightarrow> errno option \<Rightarrow> 'cb net_server cptr \<Rightarrow> 'cb cptr \<Rightarrow> kernel
     \<Rightarrow> unit res \<times> 'cb net_server cptr \<times> kernel" where
  "net_server_start pthread_ok stale_errno server cb k =
     (if server = NULL \<or> cb = NULL then (Err EINVAL, server, k)
      else case (server, cb) of
        (Ptr s, Ptr f) \<Rightarrow>
          let s = (set_receive_data_flag 1 s)\<lparr>callback := Some f\<rparr>
          in if pthread_ok then (Ok (), Ptr (s\<lparr>thread_alive := True\<rparr>), k)
             else (case cleanup_server (Ptr s) k of
                     (UB, p, k) \<Rightarrow> (UB, p, k)
                   | (_, p, k) \<Rightarrow> (case stale_errno of None \<Rightarrow> Ok () | Some e \<Rightarrow> Err e, p, k))
      | _ \<Rightarrow> (UB, server, k))"

text \<open>\<open>pthread_join\<close> returns once the thread has seen the cleared flag.\<close>

definition net_server_stop :: "'cb net_server cptr \<Rightarrow> unit res \<times> 'cb net_server cptr" where
  "net_server_stop server =
     (case server of
        NULL \<Rightarrow> (Err EINVAL, NULL)
      | Freed \<Rightarrow> (UB, Freed)
      | Ptr s \<Rightarrow>
          if get_receive_data_flag s = 0 then (Err EINVAL, server)
          else (Ok (), Ptr ((set_receive_data_flag 0 s)\<lparr>thread_alive := False\<rparr>)))"

definition net_server_destroy ::
  "'cb net_server cptr \<Rightarrow> kernel \<Rightarrow> unit res \<times> 'cb net_server cptr \<times> kernel" where
  "net_server_destroy server k = cleanup_server server k"

text \<open>
  What the server asks of a callback: that it returns, and a relation it keeps between the worlds
  before and after a call. The receiving loop then returns as well and keeps the relation.
\<close>

locale receiver =
  fixes cb :: "u32 \<Rightarrow> u16 \<Rightarrow> u8 list \<Rightarrow> 'w \<Rightarrow> unit res \<times> 'w"
    and keeps :: "'w \<Rightarrow> 'w \<Rightarrow> bool"
  assumes cb_returns: "\<exists>w'. cb ip port bytes w = (Ok (), w') \<and> keeps w w'"
    and keeps_refl: "keeps w w"
    and keeps_trans: "keeps u v \<Longrightarrow> keeps v w \<Longrightarrow> keeps u w"
begin

lemma recv_loop_keeps: "\<exists>b w'. recv_loop cb turns w = (Ok b, w') \<and> keeps w w'"
proof (induction turns arbitrary: w)
  case Nil
  show ?case using keeps_refl by (intro exI [of _ True] exI [of _ w]) simp
next
  case (Cons t turns)
  obtain flag r where t: "t = (flag, r)" by (cases t)
  show ?case
  proof (cases "\<exists>ip port bytes. r = Received ip port bytes \<and> bytes \<noteq> [] \<and> flag \<noteq> 0")
    case True
    then obtain ip port bytes where r: "r = Received ip port bytes" "bytes \<noteq> []" "flag \<noteq> 0" by blast
    obtain v where v: "cb ip port (take SERVER_BUFFER_SIZE bytes) w = (Ok (), v)" "keeps w v"
      using cb_returns by blast
    from Cons.IH [of v] keeps_trans [OF v(2)] v(1) t r show ?thesis by auto
  next
    case False
    then show ?thesis using t Cons.IH [of w] keeps_refl by (cases r) auto
  qed
qed

end

section \<open>The client\<close>

record net_client =
  cl_port :: u16
  cl_ip :: u32
  cl_sock_fd :: int
  time_out :: int

record net_client_cfg =
  server_ip :: "string cptr"
  server_port :: u16

record net_client_iov =
  iov_data :: "u8 list cptr"
  data_len :: u64

record net_client_data =
  iov :: "net_client_iov list cptr"
  iov_count :: u64

text \<open>
  \<open>inet_aton_res\<close>: the address, or \<open>None\<close> for an invalid text; \<open>inet_aton\<close> must not be given a
  null pointer. When the text is invalid the client is freed but \<open>*client\<close> keeps its address and
  the socket stays open.
\<close>

definition net_client_create ::
  "bool \<Rightarrow> int sys \<Rightarrow> (string \<Rightarrow> u32 option) \<Rightarrow> net_client_cfg cptr \<Rightarrow> out_arg \<Rightarrow> net_client cptr \<Rightarrow> kernel
     \<Rightarrow> unit res \<times> net_client cptr \<times> kernel" where
  "net_client_create calloc_ok socket_res inet_aton_res cfg client old k =
     (if client = OutNull \<or> cfg = NULL then (Err EINVAL, old, k)
      else case load cfg of
        Ok c \<Rightarrow>
          if \<not> calloc_ok then (Err ENOMEM, NULL, k)
          else (case socket_res of
                  SysErr e \<Rightarrow> (Err e, Freed, k)
                | SysOk fd \<Rightarrow>
                    let k = open_fd fd k
                    in (case load (server_ip c) of
                          Ok txt \<Rightarrow>
                            (case inet_aton_res txt of
                               None \<Rightarrow> (Err EINVAL, Freed, k)
                             | Some ip \<Rightarrow>
                                 (Ok (), Ptr \<lparr>cl_port = server_port c, cl_ip = ip, cl_sock_fd = fd,
                                              time_out = 0\<rparr>, k))
                        | _ \<Rightarrow> (UB, old, k)))
      | _ \<Rightarrow> (UB, old, k))"

definition net_client_destroy ::
  "net_client cptr \<Rightarrow> kernel \<Rightarrow> unit res \<times> net_client cptr \<times> kernel" where
  "net_client_destroy client k =
     (case client of
        NULL \<Rightarrow> (Err EINVAL, NULL, k)
      | Freed \<Rightarrow> (UB, Freed, k)
      | Ptr c \<Rightarrow> (Ok (), Freed, if cl_sock_fd c \<ge> 0 then close_fd (cl_sock_fd c) k else k))"

text \<open>Only the first vector is sent, whatever \<open>iov_count\<close> is.\<close>

definition net_client_send ::
  "errno option \<Rightarrow> net_client cptr \<Rightarrow> net_client_data cptr \<Rightarrow> kernel \<Rightarrow> unit res \<times> kernel" where
  "net_client_send sendto_res client data k =
     (if client = NULL \<or> data = NULL then (Err EINVAL, k)
      else and_then (load data, k) (\<lambda>d k.
        and_then (load (iov d), k) (\<lambda>vs k.
        and_then (array_read vs 0, k) (\<lambda>v k.
        and_then (load (iov_data v), k) (\<lambda>buf k.
        if length buf < unat (data_len v) then (UB, k)
        else and_then (load client, k) (\<lambda>c k.
          case sendto_res of
            Some e \<Rightarrow> (Err e, k)
          | None \<Rightarrow> (Ok (), k\<lparr>sent := sent k @ [take (unat (data_len v)) buf]\<rparr>)))))))"

section \<open>Life cycles\<close>

lemma server_create_Ok:
  assumes "net_server_create True (SysOk fd) None None None (Ptr c) OutAddr old k = r"
  shows "r = (Ok (), Ptr \<lparr>srv_port = local_port c, sock_fd = fd, thread_alive = False,
                          receive_data_flag = 0, callback = None\<rparr>, open_fd fd k)"
  using assms by (simp add: net_server_create_def Let_def)

lemma close_open [simp]: "fd \<notin> open_fds k \<Longrightarrow> close_fd fd (open_fd fd k) = k"
  by (simp add: close_fd_def open_fd_def)

text \<open>
  A failure of \<open>net_server_create\<close> other than bad arguments or no memory closes what was opened
  and leaves a dangling pointer.
\<close>

lemma server_create_fails:
  assumes "\<forall>fd. so = SysOk fd \<longrightarrow> 0 \<le> fd \<and> fd \<notin> open_fds k"
    and "(\<exists>e. so = SysErr e) \<or> ru \<noteq> None \<or> ti \<noteq> None \<or> bi \<noteq> None"
  shows "\<exists>e. net_server_create True so ru ti bi (Ptr c) OutAddr old k = (Err e, Freed, k)"
  using assms
  by (cases so; cases ru; cases ti; cases bi)
    (simp_all add: net_server_create_def Let_def cleanup_server_def)

text \<open>
  C23 (error). Every failure of \<open>net_server_create\<close> after the allocation, whichever of its four
  system calls fails, and a failing \<open>pthread_create\<close> in \<open>net_server_start\<close>, close the socket and free
  the server but leave the caller's pointer set, so that stopping or destroying it is undefined.
  \<open>net_server_start\<close> returns the \<open>errno\<close> an earlier call left, because \<open>pthread_create\<close> does not set
  it, and so can even report success then. The descriptor of a new socket is not negative and was
  not open before.
\<close>

theorem net_server_dangling:
  assumes "\<forall>fd. so = SysOk fd \<longrightarrow> 0 \<le> fd \<and> fd \<notin> open_fds k"
  shows "((\<exists>e. so = SysErr e) \<or> ru \<noteq> None \<or> ti \<noteq> None \<or> bi \<noteq> None \<longrightarrow>
            (\<exists>e p. net_server_create True so ru ti bi (Ptr c) OutAddr old k = (Err e, p, k) \<and>
               fst (net_server_stop p) = UB \<and> fst (net_server_destroy p k) = UB)) \<and>
         (\<forall>q k2. net_server_create True so ru ti bi (Ptr c) OutAddr old k = (Ok (), q, k2) \<longrightarrow>
            (\<exists>p. net_server_start False stale q (Ptr cb) k2 =
                   (case stale of None \<Rightarrow> Ok () | Some e \<Rightarrow> Err e, p, k) \<and>
               fst (net_server_stop p) = UB \<and> fst (net_server_destroy p k) = UB))"
proof -
  have freed: "fst (net_server_stop (Freed :: 'a net_server cptr)) = UB"
    "fst (net_server_destroy (Freed :: 'a net_server cptr) k) = UB"
    by (simp_all add: net_server_stop_def net_server_destroy_def cleanup_server_def)
  have started: "net_server_start False stale q (Ptr cb) k2 =
      (case stale of None \<Rightarrow> Ok () | Some e \<Rightarrow> Err e, Freed, k)"
    if run: "net_server_create True so ru ti bi (Ptr c) OutAddr old k = (Ok (), q, k2)" for q k2
  proof -
    have "\<not> ((\<exists>e. so = SysErr e) \<or> ru \<noteq> None \<or> ti \<noteq> None \<or> bi \<noteq> None)"
    proof
      assume f: "(\<exists>e. so = SysErr e) \<or> ru \<noteq> None \<or> ti \<noteq> None \<or> bi \<noteq> None"
      from server_create_fails [OF assms f, of c old] run show False by simp
    qed
    then have calls: "ru = None" "ti = None" "bi = None" "\<nexists>e. so = SysErr e" by simp_all
    then obtain fd where "so = SysOk fd" by (cases so) simp_all
    with calls(1-3) assms run show ?thesis
      by (auto simp: net_server_create_def Let_def net_server_start_def cleanup_server_def
          set_receive_data_flag_def)
  qed
  show ?thesis
    using server_create_fails [OF assms, of ru ti bi c old] started freed by blast
qed

theorem net_server_dangling_witness:
  "(\<exists>e p. net_server_create True (SysErr EPERM) None None None (Ptr \<lparr>local_port = 54322\<rparr>) OutAddr
      (NULL :: (nat \<Rightarrow> nat) net_server cptr) \<lparr>open_fds = {}, sent = []\<rparr> =
        (Err e, p, \<lparr>open_fds = {}, sent = []\<rparr>) \<and>
      fst (net_server_stop p) = UB \<and>
      fst (net_server_destroy p \<lparr>open_fds = {}, sent = []\<rparr>) = UB) \<and>
   (\<exists>q k2 p. net_server_create True (SysOk 3) None None None (Ptr \<lparr>local_port = 54322\<rparr>) OutAddr
      (NULL :: (nat \<Rightarrow> nat) net_server cptr) \<lparr>open_fds = {}, sent = []\<rparr> = (Ok (), q, k2) \<and>
      net_server_start False None q (Ptr (\<lambda>x. x)) k2 = (Ok (), p, \<lparr>open_fds = {}, sent = []\<rparr>) \<and>
      fst (net_server_stop p) = UB)"
proof -
  let ?k = "\<lparr>open_fds = {}, sent = []\<rparr>" and ?c = "\<lparr>local_port = 54322\<rparr>"
  have h: "\<forall>fd. SysErr EPERM = SysOk fd \<longrightarrow> 0 \<le> fd \<and> fd \<notin> open_fds ?k"
    "\<forall>fd. SysOk 3 = SysOk fd \<longrightarrow> 0 \<le> fd \<and> fd \<notin> open_fds ?k" by simp_all
  have run: "net_server_create True (SysOk 3) None None None (Ptr ?c) OutAddr
      (NULL :: (nat \<Rightarrow> nat) net_server cptr) ?k =
      (Ok (), Ptr \<lparr>srv_port = 54322, sock_fd = 3, thread_alive = False, receive_data_flag = 0,
                  callback = None\<rparr>, open_fd 3 ?k)"
    by (simp add: net_server_create_def Let_def)
  have "\<exists>p. net_server_start False None (Ptr \<lparr>srv_port = 54322, sock_fd = 3, thread_alive = False,
      receive_data_flag = 0, callback = None\<rparr>) (Ptr (\<lambda>x :: nat. x)) (open_fd 3 ?k) = (Ok (), p, ?k) \<and>
      fst (net_server_stop p) = UB"
    using net_server_dangling [OF h(2), of None None None ?c "NULL :: (nat \<Rightarrow> nat) net_server cptr"
        None "\<lambda>x. x"] run by simp blast
  with run show ?thesis
    using net_server_dangling [OF h(1), of None None None ?c "NULL :: (nat \<Rightarrow> nat) net_server cptr"]
    by blast
qed

text \<open>
  An invalid address text makes \<open>net_client_create\<close> fail with the socket left open
  for good: the descriptor is in no object any more, and destroying the client through the
  pointer that was left is undefined.
\<close>

theorem net_client_leaks_socket:
  assumes "server_ip c = Ptr addr" "aton addr = None" "fd \<notin> open_fds k"
  shows "\<exists>p k'. net_client_create True (SysOk fd) aton (Ptr c) OutAddr old k = (Err EINVAL, p, k') \<and>
           open_fds k' = insert fd (open_fds k) \<and> fst (net_client_destroy p k') = UB"
  using assms by (simp add: net_client_create_def Let_def net_client_destroy_def open_fd_def)

theorem net_client_leaks_socket_witness:
  "\<exists>p k'. net_client_create True (SysOk 4) (\<lambda>_. None) (Ptr \<lparr>server_ip = Ptr ''localhost'', server_port = 1\<rparr>)
            OutAddr NULL \<lparr>open_fds = {}, sent = []\<rparr> = (Err EINVAL, p, k') \<and> open_fds k' = {4}"
proof -
  let ?c = "\<lparr>server_ip = Ptr ''localhost'', server_port = 1\<rparr>" and ?k = "\<lparr>open_fds = {}, sent = []\<rparr>"
  have h: "server_ip ?c = Ptr ''localhost''" "(\<lambda>_. None) ''localhost'' = None"
    "(4 :: int) \<notin> open_fds ?k" by simp_all
  from net_client_leaks_socket [where aton = "\<lambda>_. None" and c = ?c, OF h, of NULL] show ?thesis by auto
qed

end
