(* ===== verification/Transfer_Protocol.thy ===== *)
theory Transfer_Protocol
  imports Ram_File Net
begin

text \<open>
  \<open>APPS/FILE_TRANSFER_INFRA/file_transfer_protocol.h\<close>: the layout of a datagram. Under LP64 a
  \<open>data_chunk_protocol\<close> is 16 bytes: the flags at 0, four bytes of padding, the offset at 8;
  the file bytes follow. Integers are little-endian, as on the machines the code is built for,
  because the structure is sent as it lies in memory. The theory also holds what the two
  programs share: their world and their exit status.
\<close>

section \<open>Little-endian integers\<close>

primrec le_bytes :: "nat \<Rightarrow> nat \<Rightarrow> u8 list" where
  "le_bytes 0 v = []"
| "le_bytes (Suc n) v = of_nat (v mod 256) # le_bytes n (v div 256)"

primrec le_value :: "u8 list \<Rightarrow> nat" where
  "le_value [] = 0"
| "le_value (b # bs) = unat b + 256 * le_value bs"

lemma length_le_bytes [simp]: "length (le_bytes n v) = n"
  by (induction n arbitrary: v) simp_all

lemma le_value_bytes: "v < 256 ^ n \<Longrightarrow> le_value (le_bytes n v) = v"
proof (induction n arbitrary: v)
  case (Suc n)
  have "v div 256 < 256 ^ n"
    using Suc.prems by (simp add: less_mult_imp_div_less mult.commute)
  moreover have "unat (of_nat (v mod 256) :: u8) = v mod 256"
    by (rule unat_of_nat_lt) simp
  ultimately show ?case using Suc.IH [of "v div 256"] by (simp del: unsigned_of_nat)
qed simp

section \<open>The header\<close>

record data_chunk_protocol =
  flags :: u32
  offset :: u64

definition sizeof_data_chunk :: nat where
  "sizeof_data_chunk = 16"

definition put_bytes :: "u8 list \<Rightarrow> nat \<Rightarrow> u8 list \<Rightarrow> u8 list" where
  "put_bytes buf i bs = take i buf @ bs @ drop (i + length bs) buf"

text \<open>Writing the header into a buffer leaves the padding as it is.\<close>

definition put_header :: "data_chunk_protocol \<Rightarrow> u8 list \<Rightarrow> u8 list" where
  "put_header h buf =
     put_bytes (put_bytes buf 0 (le_bytes 4 (unat (flags h)))) 8 (le_bytes 8 (unat (offset h)))"

definition get_header :: "u8 list \<Rightarrow> data_chunk_protocol" where
  "get_header buf = \<lparr>flags = of_nat (le_value (take 4 buf)),
                     offset = of_nat (le_value (take 8 (drop 8 buf)))\<rparr>"

lemma length_put_bytes: "i + length bs \<le> length buf \<Longrightarrow> length (put_bytes buf i bs) = length buf"
  by (simp add: put_bytes_def)

lemma get_put_header:
  assumes "16 \<le> length buf"
  shows "get_header (put_header h buf) = h \<and> length (put_header h buf) = length buf \<and>
         drop 16 (put_header h buf) = drop 16 buf"
proof -
  have f: "le_value (le_bytes 4 (unat (flags h))) = unat (flags h)"
    using unat_less [of "flags h"] by (intro le_value_bytes) simp
  have o: "le_value (le_bytes 8 (unat (offset h))) = unat (offset h)"
    using unat_less [of "offset h"] by (intro le_value_bytes) simp
  show ?thesis
    using assms f o
    by (simp add: get_header_def put_header_def put_bytes_def del: le_bytes.simps)
qed

lemma put_bytes_drop: "i \<le> length buf \<Longrightarrow> drop i (put_bytes buf i bs) = bs @ drop (i + length bs) buf"
  by (simp add: put_bytes_def)

text \<open>A datagram that carries the bytes \<open>bs\<close> for position \<open>off\<close>.\<close>

definition carries :: "u8 list \<Rightarrow> nat \<Rightarrow> u8 list \<Rightarrow> bool" where
  "carries dg off bs \<longleftrightarrow> length dg = sizeof_data_chunk + length bs \<and>
     offset (get_header dg) = of_nat off \<and> drop sizeof_data_chunk dg = bs"

section \<open>The world of the two programs\<close>

text \<open>
  Each write takes the next of the given outcomes for its \<open>fseek\<close>, \<open>fwrite\<close> and \<open>fflush\<close> and
  succeeds when none is left.
\<close>

record app_world =
  app_disk :: disk
  app_kernel :: kernel
  write_outcomes :: "io_outcome list"

definition first_or :: "'a \<Rightarrow> 'a list \<Rightarrow> 'a" where
  "first_or x xs = (case xs of [] \<Rightarrow> x | y # ys \<Rightarrow> y)"

text \<open>
  How a program ends: status 0, \<open>EXIT_FAILURE\<close>, a negative error number, or in undefined
  behaviour.
\<close>

datatype exit_status = Success | Failure | ReturnsErr errno | Undefined

definition status_of :: "unit res \<Rightarrow> exit_status" where
  "status_of r = (case r of Ok _ \<Rightarrow> Success | Err e \<Rightarrow> ReturnsErr e | UB \<Rightarrow> Undefined)"

lemma status_of_simps [simp]:
  "status_of (Ok u) = Success" "status_of (Err e) = ReturnsErr e" "status_of UB = Undefined"
  by (simp_all add: status_of_def)

end
