(* ===== verification/File_Sender_Client.thy ===== *)
theory File_Sender_Client
  imports Transfer_Protocol
begin

text \<open>
  \<open>APPS/FILE_SENDER_CLIENT_APP/file_sender_client.c\<close>: the program that sends a file in chunks of
  at most 1024 bytes.
\<close>

definition MAX_FILE_CHUNK_SIZE :: u64 where
  "MAX_FILE_CHUNK_SIZE = 1024"

definition SERVER_IP :: string where
  "SERVER_IP = ''127.0.0.1''"

definition SERVER_PORT :: u16 where
  "SERVER_PORT = 54322"

section \<open>The program\<close>

text \<open>
  One turn reads a chunk behind the header, fills in the header and sends both. The outcomes of
  the reads and the results of the \<open>sendto\<close> calls are given in their order.
\<close>

definition chunk_size :: "u64 \<Rightarrow> u64 \<Rightarrow> u64" where
  "chunk_size file_size file_offset =
     (if file_size - file_offset < MAX_FILE_CHUNK_SIZE then file_size - file_offset
      else MAX_FILE_CHUNK_SIZE)"

lemma chunk_size_unat:
  assumes "off < fsz"
  shows "unat (chunk_size fsz off) = min (unat fsz - unat off) 1024 \<and>
         unat (off + chunk_size fsz off) = unat off + min (unat fsz - unat off) 1024"
proof -
  have lt: "unat off < unat fsz" using assms by (simp add: word_less_nat_alt)
  then have d: "unat (fsz - off) = unat fsz - unat off" by (simp add: unat_sub word_le_nat_alt)
  then have c: "unat (chunk_size fsz off) = min (unat fsz - unat off) 1024"
    by (simp add: chunk_size_def MAX_FILE_CHUNK_SIZE_def word_less_nat_alt min_def)
  have "unat off + unat (chunk_size fsz off) < 2 ^ LENGTH(64)"
    using c lt unat_less [of fsz] by simp
  then show ?thesis using c by (simp add: unat_add_lem [THEN iffD1])
qed

function send_loop ::
  "ram_file cptr \<Rightarrow> net_client cptr \<Rightarrow> u64 \<Rightarrow> u64 \<Rightarrow> u8 list \<Rightarrow> read_outcome list \<Rightarrow> errno option list
     \<Rightarrow> app_world \<Rightarrow> unit res \<times> app_world"
where
  "send_loop file_mngr client file_size file_offset data_chunk reads sends w =
     (if file_offset < file_size
      then
        let n = chunk_size file_size file_offset
        in and_then (ram_file_read (first_or ReadOk reads) (app_disk w) file_mngr file_offset
                       (Ptr (length data_chunk - sizeof_data_chunk)) n, w) (\<lambda>bs w.
             let data_chunk = put_header \<lparr>flags = 0, offset = file_offset\<rparr>
                                (put_bytes data_chunk sizeof_data_chunk bs);
                 iov = \<lparr>iov_data = Ptr data_chunk, data_len = n + of_nat sizeof_data_chunk\<rparr>
             in case net_client_send (first_or None sends) client
                       (Ptr \<lparr>iov = Ptr [iov], iov_count = 1\<rparr>) (app_kernel w) of
                  (r, k) \<Rightarrow>
                    and_then (r, w\<lparr>app_kernel := k\<rparr>) (\<lambda>_ w.
                      send_loop file_mngr client file_size (file_offset + n) data_chunk
                        (tl reads) (tl sends) w))
      else (Ok (), w))"
  by pat_completeness auto
termination
  by (relation "measure (\<lambda>(f, c, fsz, off, _). unat fsz - unat off)")
    (auto simp: chunk_size_unat word_less_nat_alt)

declare send_loop.simps [simp del]

record client_env =
  stat_err :: "errno option"
  cl_file_env :: "bool \<times> bool \<times> bool"
  cl_calloc_ok :: bool
  cl_socket :: "int sys"
  cl_inet_aton :: "string \<Rightarrow> u32 option"
  cl_reads :: "read_outcome list"
  cl_sends :: "errno option list"

text \<open>
  The three ways out of the loop destroy the file manager and the client and return the status.
\<close>

definition client_cleanup ::
  "unit res \<Rightarrow> ram_file cptr \<Rightarrow> net_client cptr \<Rightarrow> app_world \<Rightarrow> exit_status \<times> app_world" where
  "client_cleanup rc file_mngr client w =
     (case ram_file_destroy None file_mngr (app_disk w) of
        (UB, _, d) \<Rightarrow> (Undefined, w\<lparr>app_disk := d\<rparr>)
      | (_, _, d) \<Rightarrow>
          (case net_client_destroy client (app_kernel w) of
             (UB, _, k) \<Rightarrow> (Undefined, w\<lparr>app_disk := d, app_kernel := k\<rparr>)
           | (_, _, k) \<Rightarrow> (status_of rc, w\<lparr>app_disk := d, app_kernel := k\<rparr>)))"

definition client_main :: "client_env \<Rightarrow> string list \<Rightarrow> app_world \<Rightarrow> exit_status \<times> app_world" where
  "client_main env argv w =
     (if length argv \<noteq> 2 then (ReturnsErr EINVAL, w)
      else
        let path = argv ! 1
        in case ram_file_exist (Ptr path) (app_disk w) of
             Ok _ \<Rightarrow>
               (case ram_file_size_in_bytes (stat_err env) (Ptr path) (app_disk w) of
                  Ok fsz \<Rightarrow>
                    let file_config = \<lparr>cfg_file_path = Ptr path, cfg_max_file_size = of_int fsz,
                                       cfg_delete_files = False\<rparr>
                    in (case cl_file_env env of (f1, f2, f3) \<Rightarrow>
                         (case ram_file_create f1 f2 f3 (Ptr file_config) OutAddr (app_disk w) of
                            (Ok file_mngr, d) \<Rightarrow>
                              let w = w\<lparr>app_disk := d\<rparr>
                              in (case net_client_create (cl_calloc_ok env) (cl_socket env)
                                       (cl_inet_aton env)
                                       (Ptr \<lparr>server_ip = Ptr SERVER_IP, server_port = SERVER_PORT\<rparr>)
                                       OutAddr NULL (app_kernel w) of
                                    (Ok _, client, k) \<Rightarrow>
                                      (case send_loop file_mngr client (of_int fsz) 0
                                              (replicate (sizeof_data_chunk + unat MAX_FILE_CHUNK_SIZE) 0)
                                              (cl_reads env) (cl_sends env) (w\<lparr>app_kernel := k\<rparr>) of
                                         (UB, w) \<Rightarrow> (Undefined, w)
                                       | (rc, w) \<Rightarrow> client_cleanup rc file_mngr client w)
                                  | (r, _, k) \<Rightarrow>
                                      (case ram_file_destroy None file_mngr (app_disk w) of
                                         (UB, _, d) \<Rightarrow> (Undefined, w\<lparr>app_disk := d, app_kernel := k\<rparr>)
                                       | (_, _, d) \<Rightarrow>
                                           (status_of r, w\<lparr>app_disk := d, app_kernel := k\<rparr>)))
                          | (r, d) \<Rightarrow> (status_of (res_bind r (\<lambda>_. Ok ())), w\<lparr>app_disk := d\<rparr>)))
                | r \<Rightarrow> (status_of (res_bind r (\<lambda>_. Ok ())), w))
           | r \<Rightarrow> (status_of r, w))"

section \<open>One turn of the loop\<close>

definition chunk_of :: "u64 \<Rightarrow> u8 list \<Rightarrow> u8 list \<Rightarrow> u8 list" where
  "chunk_of off buf bs =
     put_header \<lparr>flags = 0, offset = off\<rparr> (put_bytes buf sizeof_data_chunk bs)"

lemma chunk_of_props:
  assumes "length buf = 1040" "length bs \<le> 1024"
  shows "length (chunk_of off buf bs) = 1040"
    and "carries (take (length bs + 16) (chunk_of off buf bs)) (unat off) bs"
proof -
  let ?b = "put_bytes buf 16 bs"
  let ?c = "put_header \<lparr>flags = 0, offset = off\<rparr> ?b"
  have l: "length ?b = 1040" using assms by (simp add: length_put_bytes)
  then have h: "get_header ?c = \<lparr>flags = 0, offset = off\<rparr>" "length ?c = 1040" "drop 16 ?c = drop 16 ?b"
    using get_put_header [of ?b "\<lparr>flags = 0, offset = off\<rparr>"] by simp_all
  have d: "drop 16 ?b = bs @ drop (16 + length bs) buf"
    using assms by (intro put_bytes_drop) simp
  have t: "get_header (take (length bs + 16) ?c) = get_header ?c"
    using h(2) by (simp add: get_header_def min_def drop_take)
  show "length (chunk_of off buf bs) = 1040" using h(2) by (simp add: chunk_of_def sizeof_data_chunk_def)
  show "carries (take (length bs + 16) (chunk_of off buf bs)) (unat off) bs"
    using h t d assms by (simp add: carries_def chunk_of_def sizeof_data_chunk_def drop_take)
qed

text \<open>The loop with its body written over \<open>chunk_of\<close>.\<close>

lemma send_loop_step:
  assumes "off < fsz" "length buf = 1040"
    and "ram_file_read (first_or ReadOk reads) (app_disk w) f off (Ptr 1024) (chunk_size fsz off) = Ok bs"
    and "length bs = unat (chunk_size fsz off)"
  shows "send_loop f (Ptr c) fsz off buf reads sends w =
     (case first_or None sends of
        Some e \<Rightarrow> (Err e, w)
      | None \<Rightarrow> send_loop f (Ptr c) fsz (off + chunk_size fsz off) (chunk_of off buf bs) (tl reads)
                  (tl sends) (w\<lparr>app_kernel := (app_kernel w)\<lparr>sent := sent (app_kernel w) @
                       [take (length bs + 16) (chunk_of off buf bs)]\<rparr>\<rparr>))"
proof -
  have b: "length bs \<le> 1024" using assms(4) chunk_size_unat [OF assms(1)] by simp
  have n: "unat (chunk_size fsz off + of_nat sizeof_data_chunk) = length bs + 16"
  proof -
    have "unat (chunk_size fsz off) + 16 < 2 ^ LENGTH(64)" using assms(4) b by simp
    then have "unat (chunk_size fsz off + 16) = unat (chunk_size fsz off) + 16"
      by (simp add: unat_add_lem [THEN iffD1])
    then show ?thesis using assms(4) by (simp add: sizeof_data_chunk_def)
  qed
  have l: "length (chunk_of off buf bs) = 1040" by (rule chunk_of_props [OF assms(2) b])
  have s: "net_client_send r (Ptr c) (Ptr \<lparr>iov = Ptr [\<lparr>iov_data = Ptr (chunk_of off buf bs),
             data_len = chunk_size fsz off + of_nat sizeof_data_chunk\<rparr>], iov_count = 1\<rparr>) k =
           (case r of Some e \<Rightarrow> (Err e, k)
            | None \<Rightarrow> (Ok (), k\<lparr>sent := sent k @ [take (length bs + 16) (chunk_of off buf bs)]\<rparr>))" for r k
  proof -
    have "\<not> length (chunk_of off buf bs) < unat (chunk_size fsz off + of_nat sizeof_data_chunk)"
      using n l b by simp
    then show ?thesis using n by (simp add: net_client_send_def split: option.splits)
  qed
  have room: "length buf - sizeof_data_chunk = 1024" using assms(2) by (simp add: sizeof_data_chunk_def)
  show ?thesis
    using assms(1,3)
    by (subst send_loop.simps)
      (auto simp: Let_def room chunk_of_def [symmetric] s split: option.splits)
qed

lemma send_loop_unread:
  assumes "off < fsz" "length buf = 1040"
    and "ram_file_read (first_or ReadOk reads) (app_disk w) f off (Ptr 1024) (chunk_size fsz off) = Err e"
  shows "send_loop f c fsz off buf reads sends w = (Err e, w)"
proof -
  have room: "length buf - sizeof_data_chunk = 1024" using assms(2) by (simp add: sizeof_data_chunk_def)
  show ?thesis using assms(1,3) by (subst send_loop.simps) (simp add: Let_def room)
qed

lemma send_loop_done: "\<not> off < fsz \<Longrightarrow> send_loop f c fsz off buf reads sends w = (Ok (), w)"
  by (simp add: send_loop.simps)

lemma read_length:
  assumes "ram_file_read io d f off out n = Ok bs"
  shows "length bs = unat n"
  using assms by (cases f) (auto simp: ram_file_read_def Let_def res_bind_eq_Ok split: if_splits)

text \<open>A read that could be carried out fails with \<open>-EIO\<close> when it is not.\<close>

lemma read_carried_out:
  assumes "ram_file_read ReadOk d (Ptr m) off (Ptr room) n = Ok bs"
  shows "ram_file_read io d (Ptr m) off (Ptr room) n = Ok bs \<or>
         ram_file_read io d (Ptr m) off (Ptr room) n = Err EIO"
proof -
  obtain i where "file_handle m = Ptr i"
    using assms by (cases "file_handle m") (auto simp: ram_file_read_def split: if_splits)
  then show ?thesis
    using assms
    by (cases io) (auto simp: ram_file_read_def Let_def length_bytes_at min_def split: if_splits)
qed

section \<open>The loop\<close>

text \<open>The datagrams that carry a file from a position on.\<close>

definition transmits :: "u8 list list \<Rightarrow> nat \<Rightarrow> u8 list \<Rightarrow> bool" where
  "transmits dgs off c \<longleftrightarrow> length dgs = (length c - off + 1023) div 1024 \<and>
     (\<forall>j < length dgs. carries (dgs ! j) (off + 1024 * j) (take 1024 (drop (off + 1024 * j) c)))"

lemma transmits_Nil: "length c \<le> off \<Longrightarrow> transmits [] off c"
  by (simp add: transmits_def)

lemma chunk_count:
  assumes "off < n"
  shows "(n - off + 1023) div 1024 = Suc ((n - (off + min (n - off) 1024) + 1023) div 1024)"
  using assms by (cases "n - off \<le> 1024") (auto simp: min_def)

lemma transmits_Cons:
  assumes "off < length c" "carries dg off (take 1024 (drop off c))"
    and "transmits dgs (off + min (length c - off) 1024) c"
  shows "transmits (dg # dgs) off c"
proof -
  let ?next = "off + min (length c - off) 1024"
  have n: "length dgs = (length c - ?next + 1023) div 1024"
    and at: "\<forall>j < length dgs. carries (dgs ! j) (?next + 1024 * j) (take 1024 (drop (?next + 1024 * j) c))"
    using assms(3) unfolding transmits_def by blast+
  have "carries ((dg # dgs) ! j) (off + 1024 * j) (take 1024 (drop (off + 1024 * j) c))"
    if j: "j < Suc (length dgs)" for j
  proof (cases j)
    case (Suc k)
    then have "k < length dgs" using j by simp
    moreover from this n have "?next = off + 1024" by (cases "length c - off \<le> 1024") auto
    ultimately show ?thesis using at Suc by (simp add: algebra_simps)
  qed (use assms(2) in simp)
  moreover have "length (dg # dgs) = (length c - off + 1023) div 1024"
    unfolding chunk_count [OF assms(1)] n [symmetric] by simp
  ultimately show ?thesis unfolding transmits_def by simp
qed

lemma first_or_all: "\<forall>x \<in> set xs. x = a \<Longrightarrow> first_or a xs = a \<and> (\<forall>x \<in> set (tl xs). x = a)"
  by (cases xs) (simp_all add: first_or_def)

text \<open>
  However the reads and the sends turn out, the loop is defined and changes nothing but the list of
  datagrams sent; if it ends well the whole rest of the file has been sent, and it ends well if no
  read and no send fails.
\<close>

lemma send_loop_result:
  assumes "file_handle m = Ptr i" "length c < 2 ^ 63" "length c \<le> unat (max_file_size m)"
    and "length buf = 1040" "contents (app_disk w) i = c"
  shows "\<exists>r dgs. send_loop (Ptr m) (Ptr cl) (of_nat (length c)) off buf reads sends w =
           (r, w\<lparr>app_kernel := (app_kernel w)\<lparr>sent := sent (app_kernel w) @ dgs\<rparr>\<rparr>) \<and>
           r \<noteq> UB \<and> (r = Ok () \<longrightarrow> transmits dgs (unat off) c) \<and>
           ((\<forall>x \<in> set reads. x = ReadOk) \<and> (\<forall>s \<in> set sends. s = None) \<longrightarrow> r = Ok ())"
  using assms(4,5)
proof (induction "length c - unat off" arbitrary: off buf reads sends w rule: less_induct)
  case less
  let ?fsz = "of_nat (length c) :: u64"
  have u: "unat ?fsz = length c" using assms(2) by (intro unat_of_nat_lt) simp
  show ?case
  proof (cases "off < ?fsz")
    case True
    let ?n = "min (length c - unat off) 1024"
    let ?bs = "take 1024 (drop (unat off) c)"
    have lt: "unat off < length c" using True u by (simp add: word_less_nat_alt del: unsigned_of_nat)
    note cs = chunk_size_unat [OF True, unfolded u]
    have "bytes_at c (unat off) ?n = ?bs" by (simp add: bytes_at_def min_def)
    moreover have "chunk_size ?fsz off \<noteq> 0"
    proof
      assume "chunk_size ?fsz off = 0"
      then have "min (length c - unat off) 1024 = 0" using cs by simp
      then show False using lt by (simp add: min_def split: if_splits)
    qed
    moreover have "off + chunk_size ?fsz off \<le> max_file_size m"
      using cs lt assms(3) by (simp add: word_le_nat_alt)
    moreover have "seek_ok off" using seek_small [of "unat off"] lt assms(2) by simp
    ultimately have full: "ram_file_read ReadOk (app_disk w) (Ptr m) off (Ptr 1024) (chunk_size ?fsz off) = Ok ?bs"
      using cs less.prems(2) unfolding file_read_Ok [OF assms(1)] by (simp add: min_def)
    let ?b = "chunk_of off buf ?bs"
    let ?w = "w\<lparr>app_kernel := (app_kernel w)\<lparr>sent := sent (app_kernel w) @ [take (length ?bs + 16) ?b]\<rparr>\<rparr>"
    have l: "length ?bs \<le> 1024" by simp
    note b = chunk_of_props [OF less.prems(1) l, of off]
    have dec: "length c - unat (off + chunk_size ?fsz off) < length c - unat off" using cs lt by simp
    consider (failed) "ram_file_read (first_or ReadOk reads) (app_disk w) (Ptr m) off (Ptr 1024)
         (chunk_size ?fsz off) = Err EIO" "\<not> (\<forall>x \<in> set reads. x = ReadOk)"
      | (unsent) e where "ram_file_read (first_or ReadOk reads) (app_disk w) (Ptr m) off (Ptr 1024)
         (chunk_size ?fsz off) = Ok ?bs" "first_or None sends = Some e"
      | (sent) "ram_file_read (first_or ReadOk reads) (app_disk w) (Ptr m) off (Ptr 1024)
         (chunk_size ?fsz off) = Ok ?bs" "first_or None sends = None"
    proof (cases "ram_file_read (first_or ReadOk reads) (app_disk w) (Ptr m) off (Ptr 1024)
        (chunk_size ?fsz off) = Ok ?bs")
      case True
      with unsent sent show ?thesis by (cases "first_or None sends") blast+
    next
      case False
      moreover from this have "\<not> (\<forall>x \<in> set reads. x = ReadOk)"
        using full first_or_all [of reads ReadOk] by metis
      ultimately show ?thesis using failed read_carried_out [OF full] by blast
    qed
    then show ?thesis
    proof cases
      case failed
      with send_loop_unread [OF True less.prems(1)] show ?thesis
        by (intro exI [of _ "Err EIO"] exI [of _ "[]"]) simp
    next
      case sent
      note None = sent(2) and rd = sent(1)
      note step = send_loop_step [OF True less.prems(1) rd read_length [OF rd], of cl sends]
      have "contents (app_disk ?w) i = c" using less.prems(2) by simp
      from less.hyps [OF dec b(1) this, of "tl reads" "tl sends"] obtain r dgs where
        rest: "send_loop (Ptr m) (Ptr cl) ?fsz (off + chunk_size ?fsz off) ?b (tl reads) (tl sends) ?w =
          (r, ?w\<lparr>app_kernel := (app_kernel ?w)\<lparr>sent := sent (app_kernel ?w) @ dgs\<rparr>\<rparr>)"
        "r \<noteq> UB" "(\<forall>x \<in> set (tl reads). x = ReadOk) \<and> (\<forall>s \<in> set (tl sends). s = None) \<longrightarrow> r = Ok ()"
        and tr: "r = Ok () \<longrightarrow> transmits dgs (unat off + ?n) c"
        using cs by auto
      have "r = Ok () \<longrightarrow> transmits (take (length ?bs + 16) ?b # dgs) (unat off) c"
        using transmits_Cons [OF lt b(2)] tr by blast
      moreover have "(\<forall>x \<in> set reads. x = ReadOk) \<and> (\<forall>s \<in> set sends. s = None) \<longrightarrow> r = Ok ()"
        using rest(3) first_or_all [of sends None] first_or_all [of reads ReadOk] by blast
      ultimately show ?thesis
        using step None rest(1,2)
        by (intro exI [of _ r] exI [of _ "take (length ?bs + 16) ?b # dgs"]) simp
    next
      case (unsent e)
      note rd = unsent(1)
      note step = send_loop_step [OF True less.prems(1) rd read_length [OF rd], of cl sends]
      have "\<not> (\<forall>s \<in> set sends. s = None)"
        using unsent(2) first_or_all [of sends None] by (metis option.distinct(1))
      with unsent(2) step show ?thesis by (intro exI [of _ "Err e"] exI [of _ "[]"]) simp
    qed
  next
    case False
    then have "length c \<le> unat off" using u by (simp add: word_less_nat_alt del: unsigned_of_nat)
    then have "transmits [] (unat off) c" by (rule transmits_Nil)
    with send_loop_done [OF False] show ?thesis by (intro exI [of _ "Ok ()"] exI [of _ "[]"]) simp
  qed
qed

section \<open>The whole program\<close>

lemma client_cleanup_Ptr:
  assumes "delete_files m = False" "0 \<le> cl_sock_fd c" "r \<noteq> UB"
  shows "client_cleanup r (Ptr m) (Ptr c) w =
           (status_of r, w\<lparr>app_kernel := close_fd (cl_sock_fd c) (app_kernel w)\<rparr>)"
  using assms by (simp add: client_cleanup_def ram_file_destroy_def net_client_destroy_def)

lemma close_sent [simp]:
  "fd \<notin> open_fds k \<Longrightarrow> close_fd fd (open_fd fd k\<lparr>sent := ds\<rparr>) = k\<lparr>sent := ds\<rparr>"
  by (simp add: close_fd_def open_fd_def)

lemma client_create_file:
  assumes "directory d path = Some i"
    and "n < 2 ^ 63"
  obtains m where "ram_file_create True True True (Ptr \<lparr>cfg_file_path = Ptr path,
      cfg_max_file_size = of_nat n, cfg_delete_files = False\<rparr>) OutAddr d = (Ok (Ptr m), d)"
    "file_handle m = Ptr i" "delete_files m = False" "n \<le> unat (max_file_size m)"
proof -
  let ?m = "\<lparr>file_handle = Ptr i, file_path = Ptr path, max_file_size =
      (if of_nat n = (0 :: u64) then DEFAULT_MAX_FILE_SIZE else of_nat n), delete_files = False\<rparr>"
  have u: "unat (of_nat n :: u64) = n" using assms(2) by (intro unat_of_nat_lt) simp
  then have "n \<le> unat (max_file_size ?m)"
    by (cases "of_nat n = (0 :: u64)") (simp_all del: unsigned_of_nat)
  then show thesis
    using assms(1) by (intro that [of ?m]) (simp_all add: ram_file_create_def check_if_file_exist_def)
qed

lemma client_main_complete:
  assumes "directory (app_disk w) path = Some i" "contents (app_disk w) i = c" "length c < 2 ^ 63"
    and "stat_err env = None" "cl_file_env env = (True, True, True)" "cl_calloc_ok env"
    and "cl_socket env = SysOk fd" "0 \<le> fd" "fd \<notin> open_fds (app_kernel w)"
    and "cl_inet_aton env SERVER_IP = Some ip"
    and "\<forall>x \<in> set (cl_reads env). x = ReadOk" "\<forall>s \<in> set (cl_sends env). s = None"
  shows "\<exists>dgs. client_main env [prog, path] w =
           (Success, w\<lparr>app_kernel := (app_kernel w)\<lparr>sent := sent (app_kernel w) @ dgs\<rparr>\<rparr>) \<and>
           transmits dgs 0 c"
proof -
  let ?sz = "of_nat (length c) :: u64"
  obtain m where m: "ram_file_create True True True (Ptr \<lparr>cfg_file_path = Ptr path,
      cfg_max_file_size = ?sz, cfg_delete_files = False\<rparr>) OutAddr (app_disk w) = (Ok (Ptr m), app_disk w)"
    "file_handle m = Ptr i" "delete_files m = False" "length c \<le> unat (max_file_size m)"
    by (rule client_create_file [OF assms(1,3)])
  let ?cl = "\<lparr>cl_port = SERVER_PORT, cl_ip = ip, cl_sock_fd = fd, time_out = 0\<rparr>"
  let ?w = "w\<lparr>app_kernel := open_fd fd (app_kernel w)\<rparr>"
  let ?buf = "replicate (sizeof_data_chunk + unat MAX_FILE_CHUNK_SIZE) 0 :: u8 list"
  have buf: "length ?buf = 1040" by (simp add: sizeof_data_chunk_def MAX_FILE_CHUNK_SIZE_def)
  from assms(2) have "contents (app_disk ?w) i = c" by simp
  from send_loop_result [OF m(2) assms(3) m(4) buf this, of ?cl 0 "cl_reads env" "cl_sends env"] assms(11,12)
  obtain dgs where run: "send_loop (Ptr m) (Ptr ?cl) ?sz 0 ?buf (cl_reads env) (cl_sends env) ?w =
      (Ok (), ?w\<lparr>app_kernel := (app_kernel ?w)\<lparr>sent := sent (app_kernel ?w) @ dgs\<rparr>\<rparr>)"
    and tr: "transmits dgs 0 c" by auto
  have "client_main env [prog, path] w =
      (Success, w\<lparr>app_kernel := (app_kernel w)\<lparr>sent := sent (app_kernel w) @ dgs\<rparr>\<rparr>)"
    using assms(1,2,4-10) m(1,3) run
    by (simp add: client_main_def Let_def ram_file_exist_def check_if_file_exist_def
        ram_file_size_in_bytes_def net_client_create_def client_cleanup_Ptr open_fd_def close_fd_def)
  with tr show ?thesis by blast
qed

text \<open>
  C16 (functional). When no call fails, the client sends the whole file and nothing else: the
  number of datagrams is the length over 1024 rounded up, and the \<open>j\<close>-th carries the bytes
  from \<open>1024 * j\<close> on, at most 1024 of them, with that position in its header. It returns 0, leaves
  every file as it was and closes its socket.
\<close>

theorem client_sends_file:
  assumes "directory (app_disk w) path = Some i" "contents (app_disk w) i = c" "length c < 2 ^ 63"
    and "stat_err env = None" "cl_file_env env = (True, True, True)" "cl_calloc_ok env"
    and "cl_socket env = SysOk fd" "0 \<le> fd" "fd \<notin> open_fds (app_kernel w)"
    and "cl_inet_aton env SERVER_IP = Some ip"
    and "\<forall>x \<in> set (cl_reads env). x = ReadOk" "\<forall>s \<in> set (cl_sends env). s = None"
  shows "\<exists>dgs. client_main env [prog, path] w =
           (Success, w\<lparr>app_kernel := (app_kernel w)\<lparr>sent := sent (app_kernel w) @ dgs\<rparr>\<rparr>) \<and>
           transmits dgs 0 c"
  by (rule client_main_complete [OF assms])

definition sample_client_env :: client_env where
  "sample_client_env = \<lparr>stat_err = None, cl_file_env = (True, True, True), cl_calloc_ok = True,
     cl_socket = SysOk 3, cl_inet_aton = (\<lambda>_. Some 0x0100007F), cl_reads = [], cl_sends = []\<rparr>"

definition sample_client_world :: app_world where
  "sample_client_world = \<lparr>app_disk = \<lparr>directory = [''a.bin'' \<mapsto> 0], contents = (\<lambda>_. [7, 8, 9]),
     next_file = 1\<rparr>, app_kernel = \<lparr>open_fds = {0, 1, 2}, sent = []\<rparr>, write_outcomes = []\<rparr>"

lemma sample_client_run:
  "\<exists>cw' dgs. client_main sample_client_env [''client'', ''a.bin''] sample_client_world = (Success, cw') \<and>
     sent (app_kernel cw') = sent (app_kernel sample_client_world) @ dgs"
proof -
  have h: "directory (app_disk sample_client_world) ''a.bin'' = Some 0"
    "contents (app_disk sample_client_world) 0 = [7, 8, 9]" "length [7, 8, 9 :: u8] < 2 ^ 63"
    "stat_err sample_client_env = None" "cl_file_env sample_client_env = (True, True, True)"
    "cl_calloc_ok sample_client_env" "cl_socket sample_client_env = SysOk 3" "0 \<le> (3 :: int)"
    "3 \<notin> open_fds (app_kernel sample_client_world)"
    "cl_inet_aton sample_client_env SERVER_IP = Some 0x0100007F"
    "\<forall>x \<in> set (cl_reads sample_client_env). x = ReadOk" "\<forall>s \<in> set (cl_sends sample_client_env). s = None"
    by (simp_all add: sample_client_env_def sample_client_world_def)
  from client_main_complete [OF h, of "''client''"] show ?thesis by auto
qed

theorem client_sends_file_witness:
  "\<exists>dgs. client_main sample_client_env [''client'', ''a.bin''] sample_client_world =
     (Success, sample_client_world\<lparr>app_kernel := \<lparr>open_fds = {0, 1, 2}, sent = dgs\<rparr>\<rparr>) \<and>
     transmits dgs 0 [7, 8, 9]"
proof -
  have h: "directory (app_disk sample_client_world) ''a.bin'' = Some 0"
    "contents (app_disk sample_client_world) 0 = [7, 8, 9]" "length [7, 8, 9 :: u8] < 2 ^ 63"
    "stat_err sample_client_env = None" "cl_file_env sample_client_env = (True, True, True)"
    "cl_calloc_ok sample_client_env" "cl_socket sample_client_env = SysOk 3" "0 \<le> (3 :: int)"
    "3 \<notin> open_fds (app_kernel sample_client_world)"
    "cl_inet_aton sample_client_env SERVER_IP = Some 0x0100007F"
    "\<forall>x \<in> set (cl_reads sample_client_env). x = ReadOk" "\<forall>s \<in> set (cl_sends sample_client_env). s = None"
    by (simp_all add: sample_client_env_def sample_client_world_def)
  from client_sends_file [OF h, of "''client''"] show ?thesis
    by (simp add: sample_client_world_def)
qed

lemma client_main_result:
  assumes "\<forall>fd. cl_socket env = SysOk fd \<longrightarrow> 0 \<le> fd \<and> fd \<notin> open_fds (app_kernel w)"
    and "\<forall>i. length (contents (app_disk w) i) < 2 ^ 63"
  shows "\<exists>st fds dgs. client_main env argv w =
           (st, w\<lparr>app_kernel := \<lparr>open_fds = fds, sent = sent (app_kernel w) @ dgs\<rparr>\<rparr>) \<and>
           st \<noteq> Undefined \<and>
           (fds = open_fds (app_kernel w) \<or> cl_inet_aton env SERVER_IP = None) \<and>
           (st = Success \<longrightarrow> (\<exists>prog path i. argv = [prog, path] \<and>
              directory (app_disk w) path = Some i \<and> transmits dgs 0 (contents (app_disk w) i)))"
proof -
  have early: ?thesis if "client_main env argv w = (st, w)" "st \<noteq> Undefined" "st \<noteq> Success" for st
    using that by (intro exI [of _ st] exI [of _ "open_fds (app_kernel w)"] exI [of _ "[]"]) simp
  show ?thesis
  proof (cases "length argv = 2")
    case False
    then show ?thesis by (intro early [of "ReturnsErr EINVAL"]) (simp_all add: client_main_def)
  next
    case True
    then obtain prog path where argc: "argv = [prog, path]"
      by (metis length_0_conv length_Suc_conv numeral_2_eq_2)
    obtain f1 f2 f3 where fe: "cl_file_env env = (f1, f2, f3)" by (cases "cl_file_env env")
    note defs = client_main_def Let_def ram_file_exist_def check_if_file_exist_def
      ram_file_size_in_bytes_def
    show ?thesis
    proof (cases "directory (app_disk w) path")
      case None
      with argc show ?thesis by (intro early [of "ReturnsErr ENOENT"]) (simp_all add: defs)
    next
      case (Some i)
      let ?sz = "of_nat (length (contents (app_disk w) i)) :: u64"
      let ?cfg = "\<lparr>cfg_file_path = Ptr path, cfg_max_file_size = ?sz, cfg_delete_files = False\<rparr>"
      obtain m where m: "ram_file_create True True True (Ptr ?cfg) OutAddr (app_disk w) =
          (Ok (Ptr m), app_disk w)" "file_handle m = Ptr i" "delete_files m = False"
        "length (contents (app_disk w) i) \<le> unat (max_file_size m)"
        by (rule client_create_file [OF Some, of "length (contents (app_disk w) i)"])
          (use assms(2) in auto)
      have bad: "\<exists>e. ram_file_create f1 f2 f3 (Ptr ?cfg) OutAddr (app_disk w) = (Err e, app_disk w)"
        if "\<not> (f1 \<and> f2 \<and> f3)" using that by (auto simp: ram_file_create_def)
      show ?thesis
      proof (cases "stat_err env = None \<and> f1 \<and> f2 \<and> f3")
        case False
        show ?thesis
        proof (cases "stat_err env")
          case None
          with False bad obtain e where
            "ram_file_create f1 f2 f3 (Ptr ?cfg) OutAddr (app_disk w) = (Err e, app_disk w)" by blast
          with None Some argc fe show ?thesis
            by (intro early [of "ReturnsErr e"]) (simp_all add: defs)
        next
          case (Some e)
          with \<open>directory (app_disk w) path = Some i\<close> argc show ?thesis
            by (intro early [of "ReturnsErr e"]) (simp_all add: defs)
        qed
      next
        case ok: True
        note defs = defs Some argc fe m(1) net_client_create_def
        consider "\<not> cl_calloc_ok env" | e where "cl_socket env = SysErr e"
          | fd where "cl_calloc_ok env" "cl_socket env = SysOk fd" "cl_inet_aton env SERVER_IP = None"
          | fd ip where "cl_calloc_ok env" "cl_socket env = SysOk fd" "cl_inet_aton env SERVER_IP = Some ip"
          by (cases "cl_socket env"; cases "cl_inet_aton env SERVER_IP") auto
        then show ?thesis
        proof cases
          case 1
          with ok m(3) show ?thesis
            by (intro early [of "ReturnsErr ENOMEM"]) (simp_all add: defs ram_file_destroy_def)
        next
          case (2 e)
          with ok m(3) show ?thesis
            by (intro early [of "ReturnsErr (if cl_calloc_ok env then e else ENOMEM)"])
              (simp_all add: defs ram_file_destroy_def)
        next
          case (3 fd)
          with ok m(3) show ?thesis
            by (intro exI [of _ "ReturnsErr EINVAL"] exI [of _ "insert fd (open_fds (app_kernel w))"]
                exI [of _ "[]"]) (simp add: defs ram_file_destroy_def open_fd_def)
        next
          case (4 fd ip)
          let ?cl = "\<lparr>cl_port = SERVER_PORT, cl_ip = ip, cl_sock_fd = fd, time_out = 0\<rparr>"
          let ?buf = "replicate (sizeof_data_chunk + unat MAX_FILE_CHUNK_SIZE) 0 :: u8 list"
          let ?w = "w\<lparr>app_kernel := open_fd fd (app_kernel w)\<rparr>"
          have buf: "length ?buf = 1040" by (simp add: sizeof_data_chunk_def MAX_FILE_CHUNK_SIZE_def)
          have c: "length (contents (app_disk w) i) < 2 ^ 63"
            "contents (app_disk ?w) i = contents (app_disk w) i" using assms(2) by simp_all
          obtain r dgs where run: "send_loop (Ptr m) (Ptr ?cl) ?sz 0 ?buf (cl_reads env) (cl_sends env) ?w =
              (r, ?w\<lparr>app_kernel := (app_kernel ?w)\<lparr>sent := sent (app_kernel ?w) @ dgs\<rparr>\<rparr>)"
            "r \<noteq> UB" and tr: "r = Ok () \<longrightarrow> transmits dgs 0 (contents (app_disk w) i)"
            using send_loop_result [OF m(2) c(1) m(4) buf c(2), of ?cl 0 "cl_reads env" "cl_sends env"] by auto
          have fd: "0 \<le> fd" "fd \<notin> open_fds (app_kernel w)" using assms(1) 4 by simp_all
          have "client_main env argv w =
              (status_of r, w\<lparr>app_kernel := (app_kernel w)\<lparr>sent := sent (app_kernel w) @ dgs\<rparr>\<rparr>)"
            using ok 4 m(3) run fd
            by (cases r) (simp_all add: defs client_cleanup_Ptr open_fd_def close_fd_def)
          with run(2) tr argc Some show ?thesis
            by (intro exI [of _ "status_of r"] exI [of _ "open_fds (app_kernel w)"] exI [of _ dgs])
              (cases r; simp)
        qed
      qed
    qed
  qed
qed

text \<open>
  C9 (safety). Whatever the arguments, the files and the results of the library and system calls
  (a missing file, no memory, a failing or short read of any chunk, a failing send of any chunk),
  the client stays defined, writes no file and only adds to the datagrams sent; its socket is closed
  again on every path except the one on which the address of the server is not accepted; and status
  0 means that the whole file named by its argument has been sent. Files are smaller than
  \<open>2 ^ 63\<close> bytes, and the descriptor of a new socket is not negative and was not open before.
\<close>

theorem client_always_defined:
  assumes "\<forall>fd. cl_socket env = SysOk fd \<longrightarrow> 0 \<le> fd \<and> fd \<notin> open_fds (app_kernel w)"
    and "\<forall>i. length (contents (app_disk w) i) < 2 ^ 63"
  shows "\<exists>st fds dgs. client_main env argv w =
           (st, w\<lparr>app_kernel := \<lparr>open_fds = fds, sent = sent (app_kernel w) @ dgs\<rparr>\<rparr>) \<and>
           st \<noteq> Undefined \<and>
           (fds = open_fds (app_kernel w) \<or> cl_inet_aton env SERVER_IP = None) \<and>
           (st = Success \<longrightarrow> (\<exists>prog path i. argv = [prog, path] \<and>
              directory (app_disk w) path = Some i \<and> transmits dgs 0 (contents (app_disk w) i)))"
  by (rule client_main_result [OF assms])

text \<open>The concrete case of a read that gives one byte of three.\<close>

theorem client_always_defined_witness:
  "\<exists>st fds dgs. client_main (sample_client_env\<lparr>cl_reads := [ReadShort 1]\<rparr>) [''client'', ''a.bin'']
      sample_client_world = (st, sample_client_world\<lparr>app_kernel := \<lparr>open_fds = fds, sent = dgs\<rparr>\<rparr>) \<and>
     st \<noteq> Undefined \<and> fds = {0, 1, 2}"
proof -
  let ?env = "sample_client_env\<lparr>cl_reads := [ReadShort 1]\<rparr>"
  have h: "\<forall>fd. cl_socket ?env = SysOk fd \<longrightarrow> 0 \<le> fd \<and> fd \<notin> open_fds (app_kernel sample_client_world)"
    by (simp add: sample_client_env_def sample_client_world_def)
  have h2: "\<forall>i. length (contents (app_disk sample_client_world) i) < 2 ^ 63"
    by (simp add: sample_client_world_def)
  from client_always_defined [OF h h2, of "[''client'', ''a.bin'']"] show ?thesis
    by (auto simp: sample_client_world_def sample_client_env_def)
qed

end
