(* ===== verification/Chunk_File.thy ===== *)
theory Chunk_File
  imports Ram_File
begin

text \<open>
  Putting a file together from chunks that come in any order: the interface between a file that is
  written at positions and a protocol whose messages carry bytes for a position.
\<close>

text \<open>\<open>decode\<close> gives the position and the bytes of a message that is not refused.\<close>

definition put_chunk :: "('d \<Rightarrow> (nat \<times> u8 list) option) \<Rightarrow> u8 list \<Rightarrow> 'd \<Rightarrow> u8 list" where
  "put_chunk decode c dg = (case decode dg of None \<Rightarrow> c | Some (off, bs) \<Rightarrow> write_at c off bs)"

abbreviation assemble :: "('d \<Rightarrow> (nat \<times> u8 list) option) \<Rightarrow> u8 list \<Rightarrow> 'd list \<Rightarrow> u8 list" where
  "assemble decode \<equiv> foldl (put_chunk decode)"

lemma put_chunk_simps:
  "decode dg = None \<Longrightarrow> put_chunk decode c dg = c"
  "decode dg = Some (off, bs) \<Longrightarrow> put_chunk decode c dg = write_at c off bs"
  by (simp_all add: put_chunk_def)

text \<open>Pieces of \<open>c\<close> that end by \<open>n\<close>, applied in any order to a file \<open>c0\<close>.\<close>

definition piece :: "('d \<Rightarrow> (nat \<times> u8 list) option) \<Rightarrow> u8 list \<Rightarrow> nat \<Rightarrow> 'd \<Rightarrow> bool" where
  "piece decode c n dg \<longleftrightarrow> (\<forall>off bs. decode dg = Some (off, bs) \<longrightarrow>
     off + length bs \<le> n \<and> bs = take (length bs) (drop off c))"

definition in_place ::
  "('d \<Rightarrow> (nat \<times> u8 list) option) \<Rightarrow> u8 list \<Rightarrow> u8 list \<Rightarrow> 'd \<Rightarrow> bool" where
  "in_place decode c r dg \<longleftrightarrow> (\<forall>off bs. decode dg = Some (off, bs) \<longrightarrow>
     off + length bs \<le> length r \<and> (\<forall>k. off \<le> k \<and> k < off + length bs \<longrightarrow> r ! k = c ! k))"

lemma piece_nth:
  assumes "bs = take (length bs) (drop off c)" "off \<le> k" "k < off + length bs"
  shows "bs ! (k - off) = c ! k"
proof -
  have "length bs \<le> length c - off" using assms(1) by (metis length_drop length_take min.cobounded1)
  moreover have "bs ! (k - off) = take (length bs) (drop off c) ! (k - off)"
    using assms(1) by simp
  ultimately show ?thesis using assms(2,3) by simp
qed

text \<open>Messages that are accepted carry at least a byte and stay below a limit.\<close>

locale chunk_source =
  fixes decode :: "'d \<Rightarrow> (nat \<times> u8 list) option"
    and limit :: nat
  assumes decode_bounded: "decode dg = Some (off, bs) \<Longrightarrow> bs \<noteq> [] \<and> off + length bs \<le> limit"
begin

text \<open>Whatever arrives, the file is not cut and does not grow past the limit.\<close>

lemma assemble_bounded:
  "length c0 \<le> length (assemble decode c0 dgs) \<and>
   length (assemble decode c0 dgs) \<le> max (length c0) limit"
proof (induction dgs rule: rev_induct)
  case (snoc dg dgs)
  show ?case
  proof (cases "decode dg")
    case (Some p)
    then obtain off bs where "decode dg = Some (off, bs)" by (cases p) simp
    with snoc decode_bounded [OF this] show ?thesis
      by (auto simp: put_chunk_simps length_write_at)
  qed (use snoc in \<open>simp add: put_chunk_simps\<close>)
qed simp

lemma apply_pieces:
  assumes "n \<le> length c" "\<forall>dg \<in> set dgs. piece decode c n dg"
  shows "(\<forall>dg \<in> set dgs. in_place decode c (assemble decode c0 dgs) dg) \<and>
         length c0 \<le> length (assemble decode c0 dgs) \<and>
         length (assemble decode c0 dgs) \<le> max (length c0) n \<and>
         (\<forall>k. n \<le> k \<and> k < length c0 \<longrightarrow> assemble decode c0 dgs ! k = c0 ! k)"
  using assms(2)
proof (induction dgs rule: rev_induct)
  case (snoc dg dgs)
  let ?r = "assemble decode c0 dgs"
  from snoc have ih: "\<forall>dg \<in> set dgs. in_place decode c ?r dg" "length c0 \<le> length ?r"
    "length ?r \<le> max (length c0) n" "\<forall>k. n \<le> k \<and> k < length c0 \<longrightarrow> ?r ! k = c0 ! k"
    by auto
  show ?case
  proof (cases "decode dg")
    case None
    then have "in_place decode c ?r dg" by (simp add: in_place_def)
    with None ih show ?thesis by (simp add: put_chunk_simps)
  next
    case (Some p)
    then obtain off bs where p: "decode dg = Some (off, bs)" by (cases p) simp
    with snoc.prems have pc: "off + length bs \<le> n" "bs = take (length bs) (drop off c)"
      by (auto simp: piece_def)
    let ?s = "write_at ?r off bs"
    have at: "?s ! k = (if off \<le> k \<and> k < off + length bs then c ! k else ?r ! k)"
      if "k < length ?r \<or> off \<le> k \<and> k < off + length bs" for k
      using that piece_nth [OF pc(2), of k] by (auto simp: nth_write_at length_write_at)
    have "in_place decode c ?s x" if x: "x = dg \<or> x \<in> set dgs" for x
      unfolding in_place_def
    proof (intro allI impI)
      fix o2 b2 assume a: "decode x = Some (o2, b2)"
      show "o2 + length b2 \<le> length ?s \<and> (\<forall>k. o2 \<le> k \<and> k < o2 + length b2 \<longrightarrow> ?s ! k = c ! k)"
      proof (cases "x = dg")
        case True
        with a p at show ?thesis by (simp add: length_write_at)
      next
        case False
        with x ih(1) a have "o2 + length b2 \<le> length ?r"
          "\<forall>k. o2 \<le> k \<and> k < o2 + length b2 \<longrightarrow> ?r ! k = c ! k"
          by (auto simp: in_place_def)
        with at show ?thesis by (auto simp: length_write_at)
      qed
    qed
    moreover have "\<forall>k. n \<le> k \<and> k < length c0 \<longrightarrow> ?s ! k = c0 ! k"
      using at ih(2,4) pc(1) by simp
    moreover have "assemble decode c0 (dgs @ [dg]) = ?s" by (simp add: put_chunk_simps p)
    ultimately show ?thesis using ih(2,3) pc(1) by (auto simp: length_write_at)
  qed
qed simp

text \<open>Each byte is the piece's, or the old one, or zero where the file was extended over a gap.\<close>

lemma pieces_bytes:
  assumes "n \<le> length c" "\<forall>dg \<in> set dgs. piece decode c n dg" "k < length (assemble decode c0 dgs)"
  shows "k < n \<and> assemble decode c0 dgs ! k = c ! k \<or>
         assemble decode c0 dgs ! k = (if k < length c0 then c0 ! k else 0)"
  using assms(2,3)
proof (induction dgs rule: rev_induct)
  case (snoc dg dgs)
  let ?r = "assemble decode c0 dgs"
  show ?case
  proof (cases "decode dg")
    case None
    with snoc show ?thesis by (simp add: put_chunk_simps)
  next
    case (Some p)
    then obtain off bs where p: "decode dg = Some (off, bs)" by (cases p) simp
    with snoc.prems(1) have pc: "off + length bs \<le> n" "bs = take (length bs) (drop off c)"
      by (auto simp: piece_def)
    have w: "assemble decode c0 (dgs @ [dg]) = write_at ?r off bs" by (simp add: put_chunk_simps p)
    have "length c0 \<le> length ?r" using apply_pieces [OF assms(1)] snoc.prems(1) by simp
    then show ?thesis
      using snoc nth_write_at [of k ?r off bs] piece_nth [OF pc(2), of k] pc(1) unfolding w
      by (cases "off \<le> k \<and> k < off + length bs"; cases "k < length ?r") auto
  qed
qed simp

text \<open>When every position below \<open>n\<close> is in some piece, the file starts with \<open>c\<close> up to \<open>n\<close>.\<close>

lemma pieces_complete:
  assumes "n \<le> length c" "\<forall>dg \<in> set dgs. piece decode c n dg"
    and "\<forall>k < n. \<exists>dg \<in> set dgs. \<exists>off bs. decode dg = Some (off, bs) \<and> off \<le> k \<and> k < off + length bs"
  shows "assemble decode c0 dgs = take n c @ drop n c0"
proof -
  let ?r = "assemble decode c0 dgs"
  note ap = apply_pieces [OF assms(1,2), of c0]
  have low: "k < length ?r \<and> ?r ! k = c ! k" if k: "k < n" for k
  proof -
    from assms(3) k obtain dg off bs where "dg \<in> set dgs" "decode dg = Some (off, bs)"
      "off \<le> k" "k < off + length bs" by blast
    with ap show ?thesis unfolding in_place_def by (meson order_less_le_trans)
  qed
  have len: "length ?r = max (length c0) n"
  proof (cases n)
    case (Suc k)
    with low [of k] ap show ?thesis by auto
  qed (use ap in auto)
  show ?thesis
  proof (rule nth_equalityI)
    show l: "length ?r = length (take n c @ drop n c0)" using len assms(1) by (simp add: max_def min_def)
    fix k assume k: "k < length ?r"
    show "?r ! k = (take n c @ drop n c0) ! k"
    proof (cases "k < n")
      case True
      with low [OF True] assms(1) show ?thesis by (simp add: nth_append)
    next
      case False
      with k len have kc: "n \<le> k" "k < length c0" by (auto simp: max_def split: if_splits)
      then have "(take n c @ drop n c0) ! k = c0 ! (n + (k - n))"
        using assms(1) by (subst nth_append) simp
      with kc ap show ?thesis by simp
    qed
  qed
qed

end

end
