(* ===== verification/File_Sender_Server.thy ===== *)
theory File_Sender_Server
  imports Transfer_Protocol Chunk_File
begin

text \<open>
  \<open>APPS/FILE_SENDER_SERVER_APP/file_sender_server.c\<close>: the program that writes the chunks it
  receives to a file until a signal stops it.
\<close>

definition MAX_FILE_SIZE :: u64 where
  "MAX_FILE_SIZE = 1 * 1024 * 1024"

definition MAX_FILE_BUFFER_SIZE :: nat where
  "MAX_FILE_BUFFER_SIZE = 1024"

definition FILE_PATH :: string where
  "FILE_PATH = ''/tmp/received_ram_file_ctrl.bin''"

definition LOCAL_SERVER_PORT :: u16 where
  "LOCAL_SERVER_PORT = 54322"

section \<open>The program\<close>

type_synonym server_callback = "u32 \<Rightarrow> u16 \<Rightarrow> u8 list \<Rightarrow> app_world \<Rightarrow> unit res \<times> app_world"

text \<open>Errors of the write are only logged.\<close>

definition server_data_to_file_callback :: "ram_file cptr \<Rightarrow> server_callback" where
  "server_data_to_file_callback file_manager client_ip client_port data w =
     (if length data < sizeof_data_chunk then (Ok (), w)
      else
        let file_data_size = length data - sizeof_data_chunk
        in if file_data_size > MAX_FILE_BUFFER_SIZE then (Ok (), w)
           else
             (case ram_file_write (first_or IoOk (write_outcomes w)) file_manager
                     (offset (get_header data)) (Ptr (drop sizeof_data_chunk data))
                     (of_nat file_data_size) (app_disk w) of
                (r, d) \<Rightarrow>
                  ((if r = UB then UB else Ok ()),
                   w\<lparr>app_disk := d, write_outcomes := tl (write_outcomes w)\<rparr>)))"

record file_sender_server =
  srv_file_mngr :: "ram_file cptr"
  srv_net_server :: "server_callback net_server cptr"

record server_env =
  sigint_ok :: bool
  sigterm_ok :: bool
  srv_file_env :: "bool \<times> bool \<times> bool"
  srv_malloc_ok :: bool
  srv_socket :: "int sys"
  srv_reuse :: "errno option"
  srv_timeout :: "errno option"
  srv_bind :: "errno option"
  srv_pthread_ok :: bool
  srv_stale_errno :: "errno option"
  srv_received :: "recv_result list"

text \<open>Whether the program goes on; otherwise it calls \<open>exit (EXIT_FAILURE)\<close>.\<close>

definition register_signal_handlers :: "server_env \<Rightarrow> bool" where
  "register_signal_handlers env \<longleftrightarrow> sigint_ok env \<and> sigterm_ok env"

definition app_teardown ::
  "file_sender_server \<Rightarrow> app_world \<Rightarrow> unit res \<times> file_sender_server \<times> app_world" where
  "app_teardown fs w =
     (case net_server_stop (srv_net_server fs) of
        (UB, p) \<Rightarrow> (UB, fs\<lparr>srv_net_server := p\<rparr>, w)
      | (_, p) \<Rightarrow>
          (case net_server_destroy p (app_kernel w) of
             (UB, p, k) \<Rightarrow> (UB, fs\<lparr>srv_net_server := p\<rparr>, w\<lparr>app_kernel := k\<rparr>)
           | (_, p, k) \<Rightarrow>
               (case ram_file_destroy None (srv_file_mngr fs) (app_disk w) of
                  (r, m, d) \<Rightarrow>
                    ((if r = UB then UB else Ok ()),
                     fs\<lparr>srv_file_mngr := m, srv_net_server := p\<rparr>,
                     w\<lparr>app_disk := d, app_kernel := k\<rparr>))))"

text \<open>\<open>None\<close>: the process has exited.\<close>

definition app_setup ::
  "server_env \<Rightarrow> file_sender_server \<Rightarrow> app_world
     \<Rightarrow> unit res option \<times> file_sender_server \<times> app_world" where
  "app_setup env fs w =
     (if \<not> register_signal_handlers env then (None, fs, w)
      else
        let file_config = \<lparr>cfg_file_path = Ptr FILE_PATH, cfg_max_file_size = MAX_FILE_SIZE,
                           cfg_delete_files = False\<rparr>
        in case srv_file_env env of (f1, f2, f3) \<Rightarrow>
             (case ram_file_create f1 f2 f3 (Ptr file_config) OutAddr (app_disk w) of
                (Ok m, d) \<Rightarrow>
                  let fs = fs\<lparr>srv_file_mngr := m\<rparr>; w = w\<lparr>app_disk := d\<rparr>
                  in (case net_server_create (srv_malloc_ok env) (srv_socket env) (srv_reuse env)
                           (srv_timeout env) (srv_bind env) (Ptr \<lparr>local_port = LOCAL_SERVER_PORT\<rparr>) OutAddr
                           (srv_net_server fs) (app_kernel w) of
                        (r, p, k) \<Rightarrow>
                          (Some r, fs\<lparr>srv_net_server := p\<rparr>, w\<lparr>app_kernel := k\<rparr>))
              | (r, d) \<Rightarrow> (Some (res_bind r (\<lambda>_. Ok ())), fs, w\<lparr>app_disk := d\<rparr>)))"

definition app_run ::
  "server_env \<Rightarrow> file_sender_server \<Rightarrow> app_world \<Rightarrow> unit res \<times> file_sender_server \<times> app_world" where
  "app_run env fs w =
     (case net_server_start (srv_pthread_ok env) (srv_stale_errno env) (srv_net_server fs)
             (Ptr (server_data_to_file_callback (srv_file_mngr fs))) (app_kernel w) of
        (r, p, k) \<Rightarrow> (r, fs\<lparr>srv_net_server := p\<rparr>, w\<lparr>app_kernel := k\<rparr>))"

text \<open>
  \<open>main\<close>, with the globals zero at the start. If the thread runs, it meets the given results of
  \<open>recvfrom\<close> while the flag is set and then reads the flag cleared by \<open>net_server_stop\<close>, which
  waits for it. That a signal ends the wait in \<open>pause\<close> is taken as given.
\<close>

definition server_main :: "server_env \<Rightarrow> app_world \<Rightarrow> exit_status \<times> app_world" where
  "server_main env w =
     (case app_setup env \<lparr>srv_file_mngr = NULL, srv_net_server = NULL\<rparr> w of
        (None, fs, w) \<Rightarrow> (Failure, w)
      | (Some UB, fs, w) \<Rightarrow> (Undefined, w)
      | (Some (Err e), fs, w) \<Rightarrow>
          (case app_teardown fs w of (t, _, w) \<Rightarrow> (if t = UB then Undefined else ReturnsErr e, w))
      | (Some (Ok _), fs, w) \<Rightarrow>
          (case app_run env fs w of
             (UB, fs, w) \<Rightarrow> (Undefined, w)
           | (Err e, fs, w) \<Rightarrow>
               (case app_teardown fs w of (t, _, w) \<Rightarrow> (if t = UB then Undefined else ReturnsErr e, w))
           | (Ok _, fs, w) \<Rightarrow>
               (case (case srv_net_server fs of
                        Ptr s \<Rightarrow>
                          if thread_alive s
                          then net_server_recv_loop (Ptr s)
                                 (map (Pair 1) (srv_received env) @ [(0, TimedOut)]) w
                          else (Ok False, w)
                      | _ \<Rightarrow> (Ok False, w)) of
                  (r, w) \<Rightarrow>
                    (case app_teardown fs w of
                       (t, _, w) \<Rightarrow> (if r = UB \<or> t = UB then Undefined else Success, w)))))"

section \<open>The callback\<close>

text \<open>The chunk that a datagram brings to a file of the server, if it brings one.\<close>

definition accepted :: "u8 list \<Rightarrow> (nat \<times> u8 list) option" where
  "accepted dg =
     (let off = offset (get_header dg); bs = drop sizeof_data_chunk dg
      in if bs = [] \<or> MAX_FILE_BUFFER_SIZE < length bs \<or> unat MAX_FILE_SIZE < unat off + length bs
         then None else Some (unat off, bs))"

interpretation chunks: chunk_source accepted "unat MAX_FILE_SIZE"
  by unfold_locales (auto simp: accepted_def Let_def split: if_splits)

lemma write_no_ub:
  assumes "file_handle m = Ptr i" "unat sz \<le> length buf"
  shows "fst (ram_file_write io (Ptr m) off (Ptr buf) sz d) \<noteq> UB"
  using assms by (simp add: ram_file_write_def Let_def split: io_outcome.splits)

text \<open>A write that fails may still have written, but never past the limit and to no other file.\<close>

lemma write_effect:
  assumes "file_handle m = Ptr i" "unat sz \<le> length buf" "length buf < 2 ^ 63"
    and "ram_file_write io (Ptr m) off (Ptr buf) sz d = (r, d')"
  shows "d' = d \<or> (\<exists>n \<le> unat sz. unat off + unat sz \<le> unat (max_file_size m) \<and>
           d' = d\<lparr>contents := (contents d)(i := write_at (contents d i) (unat off) (take n buf))\<rparr>)"
proof (cases "sz = 0 \<or> off + sz > max_file_size m \<or> \<not> seek_ok off \<or> (\<exists>e. io = SeekFails e)")
  case True
  then have "ram_file_write io (Ptr m) off (Ptr buf) sz d = (fst (ram_file_write io (Ptr m) off (Ptr buf) sz d), d)"
    using assms(1) by (elim disjE exE) (simp_all add: ram_file_write_def Let_def)
  with assms(4) show ?thesis by (metis prod.inject)
next
  case False
  then have g: "sz \<noteq> 0" "off + sz \<le> max_file_size m" "seek_ok off" "\<forall>e. io \<noteq> SeekFails e" by auto
  have fit: "unat off + unat sz \<le> unat (max_file_size m)"
    using g assms(2,3) by (intro seek_end) auto
  let ?n = "bytes_out io (unat sz)"
  have "d' = put_bytes_at i (unat off) (take ?n buf) d"
    using write_run [OF assms(1) g(1-3) assms(2) g(4), of d] assms(4) by simp
  moreover have "?n \<le> unat sz" by (simp add: bytes_out_def split: io_outcome.splits)
  ultimately show ?thesis using fit by (auto simp: put_bytes_at_def)
qed

text \<open>
  What the server may do to the disk: only the file \<open>i\<close> changes, it keeps its bytes from 1 MB on,
  and it does not grow past 1 MB.
\<close>

definition server_writes :: "nat \<Rightarrow> disk \<Rightarrow> disk \<Rightarrow> bool" where
  "server_writes i d d' \<longleftrightarrow>
     directory d' = directory d \<and> next_file d' = next_file d \<and>
     (\<forall>j. j \<noteq> i \<longrightarrow> contents d' j = contents d j) \<and>
     length (contents d i) \<le> length (contents d' i) \<and>
     length (contents d' i) \<le> max (length (contents d i)) (unat MAX_FILE_SIZE) \<and>
     drop (unat MAX_FILE_SIZE) (contents d' i) = drop (unat MAX_FILE_SIZE) (contents d i)"

lemma server_writes_refl [simp]: "server_writes i d d"
  by (simp add: server_writes_def)

lemma server_writes_trans:
  "server_writes i d1 d2 \<Longrightarrow> server_writes i d2 d3 \<Longrightarrow> server_writes i d1 d3"
  by (auto simp: server_writes_def)

lemma drop_write_at:
  assumes "off + length bs \<le> n"
  shows "drop n (write_at c off bs) = drop n c"
proof -
  have "length (take off (c @ replicate (off - length c) 0)) = off" by simp
  then show ?thesis using assms unfolding write_at_def by simp
qed

lemma write_at_server:
  assumes "off + length bs \<le> unat MAX_FILE_SIZE"
  shows "server_writes i d (d\<lparr>contents := (contents d)(i := write_at (contents d i) off bs)\<rparr>)"
  using assms drop_write_at [OF assms] by (simp add: server_writes_def length_write_at)

lemma callback_safe:
  assumes "file_handle m = Ptr i" "max_file_size m = MAX_FILE_SIZE"
  shows "\<exists>d os. server_data_to_file_callback (Ptr m) ip port dg w =
           (Ok (), w\<lparr>app_disk := d, write_outcomes := os\<rparr>) \<and> server_writes i (app_disk w) d"
proof (cases "length dg < 16 \<or> 1040 < length dg")
  case True
  then show ?thesis
    by (intro exI [of _ "app_disk w"] exI [of _ "write_outcomes w"])
      (auto simp: server_data_to_file_callback_def sizeof_data_chunk_def MAX_FILE_BUFFER_SIZE_def
        Let_def)
next
  case False
  let ?off = "offset (get_header dg)" and ?io = "first_or IoOk (write_outcomes w)"
  let ?bs = "drop 16 dg" and ?sz = "of_nat (length dg - 16) :: u64"
  have sz: "unat ?sz = length ?bs" using False by (subst unat_of_nat_lt) auto
  obtain r d where rd: "ram_file_write ?io (Ptr m) ?off (Ptr ?bs) ?sz (app_disk w) = (r, d)"
    by (metis surj_pair)
  have "r \<noteq> UB"
    using write_no_ub [OF assms(1), of ?sz ?bs ?io ?off "app_disk w"] rd sz by simp
  moreover have "server_writes i (app_disk w) d"
  proof -
    have "unat ?sz \<le> length ?bs" "length ?bs < 2 ^ 63" using sz False by auto
    from write_effect [OF assms(1) this rd] show ?thesis
    proof (elim disjE exE conjE)
      fix n assume n: "n \<le> unat ?sz" "unat ?off + unat ?sz \<le> unat (max_file_size m)"
        "d = (app_disk w)\<lparr>contents := (contents (app_disk w))
               (i := write_at (contents (app_disk w) i) (unat ?off) (take n ?bs))\<rparr>"
      then have "unat ?off + length (take n ?bs) \<le> unat MAX_FILE_SIZE"
        using assms(2) sz by simp
      from write_at_server [OF this] n(3) show ?thesis by simp
    qed simp
  qed
  moreover have "\<not> length dg < 16" "\<not> 1024 < length dg - 16" using False by auto
  ultimately show ?thesis
    using rd
    by (intro exI [of _ d] exI [of _ "tl (write_outcomes w)"])
      (simp add: server_data_to_file_callback_def sizeof_data_chunk_def MAX_FILE_BUFFER_SIZE_def
        Let_def del: of_nat_diff)
qed

section \<open>The whole program\<close>

definition received_file :: "disk \<Rightarrow> nat" where
  "received_file d = (case directory d FILE_PATH of Some i \<Rightarrow> i | None \<Rightarrow> next_file d)"

text \<open>The disk after the file is opened: unchanged, or with a new empty file.\<close>

definition with_received_file :: "disk \<Rightarrow> disk" where
  "with_received_file d =
     (case directory d FILE_PATH of Some i \<Rightarrow> d | None \<Rightarrow> snd (open_new FILE_PATH d))"

definition no_failure :: "server_env \<Rightarrow> int \<Rightarrow> bool" where
  "no_failure env fd \<longleftrightarrow> sigint_ok env \<and> sigterm_ok env \<and> srv_file_env env = (True, True, True) \<and>
     srv_malloc_ok env \<and> srv_socket env = SysOk fd \<and> srv_reuse env = None \<and>
     srv_timeout env = None \<and> srv_bind env = None \<and> srv_pthread_ok env"

definition server_turns :: "server_env \<Rightarrow> (int \<times> recv_result) list" where
  "server_turns env = map (Pair 1) (srv_received env) @ [(0, TimedOut)]"

definition server_file_mngr :: "disk \<Rightarrow> ram_file" where
  "server_file_mngr d = \<lparr>file_handle = Ptr (received_file d), file_path = Ptr FILE_PATH,
                         max_file_size = MAX_FILE_SIZE, delete_files = False\<rparr>"

lemma server_create_file:
  "ram_file_create True True True (Ptr \<lparr>cfg_file_path = Ptr FILE_PATH,
     cfg_max_file_size = MAX_FILE_SIZE, cfg_delete_files = False\<rparr>) OutAddr d =
   (Ok (Ptr (server_file_mngr d)), with_received_file d)"
  by (cases "directory d FILE_PATH")
    (simp_all add: ram_file_create_def check_if_file_exist_def open_new_def received_file_def
      with_received_file_def server_file_mngr_def MAX_FILE_SIZE_def)

text \<open>The callback does what the server asks of it.\<close>

definition file_written :: "disk \<Rightarrow> app_world \<Rightarrow> app_world \<Rightarrow> bool" where
  "file_written d w w' \<longleftrightarrow> app_kernel w' = app_kernel w \<and>
     server_writes (received_file d) (app_disk w) (app_disk w')"

interpretation file_cb: receiver "server_data_to_file_callback (Ptr (server_file_mngr d))" "file_written d"
  for d
proof
  show "\<exists>w'. server_data_to_file_callback (Ptr (server_file_mngr d)) ip port bytes w = (Ok (), w') \<and>
      file_written d w w'" for ip port bytes w
    using callback_safe [of "server_file_mngr d" "received_file d" ip port bytes w]
    by (auto simp: server_file_mngr_def file_written_def)
qed (auto simp: file_written_def intro: server_writes_trans)

text \<open>Without failures the program is the receiving loop between opening and closing.\<close>

lemma server_main_clean:
  assumes "no_failure env fd" "0 \<le> fd"
  shows "server_main env w =
     (case recv_loop (server_data_to_file_callback (Ptr (server_file_mngr (app_disk w)))) (server_turns env)
             (w\<lparr>app_disk := with_received_file (app_disk w),
                app_kernel := open_fd fd (app_kernel w)\<rparr>) of
        (r, w) \<Rightarrow> (if r = UB then Undefined else Success,
                   w\<lparr>app_kernel := close_fd fd (app_kernel w)\<rparr>))"
  using assms
  by (simp add: no_failure_def server_main_def app_setup_def register_signal_handlers_def
      server_create_file net_server_create_def app_run_def net_server_start_def
      set_receive_data_flag_def net_server_recv_loop_def server_turns_def app_teardown_def
      net_server_stop_def get_receive_data_flag_def net_server_destroy_def cleanup_server_def
      ram_file_destroy_def server_file_mngr_def Let_def split: prod.split)

lemma server_main_success:
  assumes "no_failure env fd" "0 \<le> fd" "fd \<notin> open_fds (app_kernel w)"
  shows "\<exists>w'. server_main env w = (Success, w') \<and> app_kernel w' = app_kernel w \<and>
           server_writes (received_file (app_disk w)) (with_received_file (app_disk w)) (app_disk w')"
proof -
  let ?w = "w\<lparr>app_disk := with_received_file (app_disk w), app_kernel := open_fd fd (app_kernel w)\<rparr>"
  obtain b w' where "recv_loop (server_data_to_file_callback (Ptr (server_file_mngr (app_disk w))))
      (server_turns env) ?w = (Ok b, w')" "file_written (app_disk w) ?w w'"
    using file_cb.recv_loop_keeps by blast
  with assms show ?thesis by (simp add: server_main_clean file_written_def)
qed

text \<open>The ways in which the program can fail to start.\<close>

lemma server_main_not_started:
  assumes "\<not> (sigint_ok env \<and> sigterm_ok env \<and> srv_file_env env = (True, True, True) \<and> srv_malloc_ok env)"
  shows "fst (server_main env w) \<noteq> Undefined"
proof -
  obtain f1 f2 f3 where fe: "srv_file_env env = (f1, f2, f3)" by (cases "srv_file_env env")
  have bad: "\<exists>e. ram_file_create f1 f2 f3 (Ptr \<lparr>cfg_file_path = Ptr FILE_PATH,
      cfg_max_file_size = MAX_FILE_SIZE, cfg_delete_files = False\<rparr>) OutAddr d = (Err e, d)"
    if "\<not> (f1 \<and> f2 \<and> f3)" for d using that by (auto simp: ram_file_create_def)
  note defs = server_main_def app_setup_def app_teardown_def net_server_stop_def
    net_server_destroy_def cleanup_server_def ram_file_destroy_def register_signal_handlers_def Let_def
  consider "\<not> register_signal_handlers env" | "register_signal_handlers env" "\<not> (f1 \<and> f2 \<and> f3)"
    | "register_signal_handlers env" "f1 \<and> f2 \<and> f3" "\<not> srv_malloc_ok env"
    using assms fe by (auto simp: register_signal_handlers_def)
  then show ?thesis
  proof cases
    case 1
    then show ?thesis by (simp add: defs)
  next
    case 2
    from bad [OF 2(2), of "app_disk w"] obtain e where
      "ram_file_create f1 f2 f3 (Ptr \<lparr>cfg_file_path = Ptr FILE_PATH,
         cfg_max_file_size = MAX_FILE_SIZE, cfg_delete_files = False\<rparr>) OutAddr (app_disk w) =
       (Err e, app_disk w)" by blast
    with 2(1) fe have
      "app_setup env \<lparr>srv_file_mngr = NULL, srv_net_server = NULL\<rparr> w =
         (Some (Err e), \<lparr>srv_file_mngr = NULL, srv_net_server = NULL\<rparr>, w)"
      by (simp add: app_setup_def Let_def)
    then show ?thesis by (simp add: defs)
  next
    case 3
    with fe have "app_setup env \<lparr>srv_file_mngr = NULL, srv_net_server = NULL\<rparr> w =
         (Some (Err ENOMEM), \<lparr>srv_file_mngr = Ptr (server_file_mngr (app_disk w)), srv_net_server = NULL\<rparr>,
          w\<lparr>app_disk := with_received_file (app_disk w)\<rparr>)"
      by (simp add: app_setup_def Let_def server_create_file net_server_create_def)
    then show ?thesis by (simp add: defs server_file_mngr_def)
  qed
qed

lemma server_main_dangling:
  assumes "sigint_ok env" "sigterm_ok env" "srv_file_env env = (True, True, True)" "srv_malloc_ok env"
    and "\<forall>fd. srv_socket env = SysOk fd \<longrightarrow> 0 \<le> fd \<and> fd \<notin> open_fds (app_kernel w)"
    and "\<forall>fd. \<not> no_failure env fd"
  shows "fst (server_main env w) = Undefined"
proof -
  note defs = server_main_def app_teardown_def net_server_stop_def app_setup_def
    register_signal_handlers_def server_create_file Let_def
  show ?thesis
  proof (cases "(\<exists>e. srv_socket env = SysErr e) \<or> srv_reuse env \<noteq> None \<or> srv_timeout env \<noteq> None \<or>
      srv_bind env \<noteq> None")
    case True
    from server_create_fails [OF assms(5) True] obtain e where
      "net_server_create True (srv_socket env) (srv_reuse env) (srv_timeout env) (srv_bind env)
         (Ptr \<lparr>local_port = LOCAL_SERVER_PORT\<rparr>) OutAddr (NULL :: server_callback net_server cptr) (app_kernel w) =
       (Err e, Freed, app_kernel w)" by blast
    with assms(1-4) show ?thesis by (simp add: defs)
  next
    case False
    then obtain fd where so: "srv_socket env = SysOk fd" "srv_reuse env = None" "srv_timeout env = None"
      "srv_bind env = None" by (cases "srv_socket env") auto
    with assms(1-4,6) have "\<not> srv_pthread_ok env" by (simp add: no_failure_def)
    with assms(1-4) so show ?thesis
      by (simp add: defs net_server_create_def app_run_def net_server_start_def cleanup_server_def
          set_receive_data_flag_def split: option.split)
  qed
qed

text \<open>
  C10 (safety). Whatever datagrams arrive, well-formed or not, and however the writes turn out, a
  server that could start stays defined, ends with status 0 and its socket closed, changes only
  the one file it writes, and neither grows that file past 1 MB nor touches bytes behind 1 MB.
\<close>

theorem server_confined:
  assumes "no_failure env fd" "0 \<le> fd" "fd \<notin> open_fds (app_kernel w)"
  shows "\<exists>w'. server_main env w = (Success, w') \<and> app_kernel w' = app_kernel w \<and>
           server_writes (received_file (app_disk w)) (with_received_file (app_disk w)) (app_disk w')"
  by (rule server_main_success [OF assms])

definition sample_server_env :: "recv_result list \<Rightarrow> server_env" where
  "sample_server_env rs = \<lparr>sigint_ok = True, sigterm_ok = True, srv_file_env = (True, True, True),
     srv_malloc_ok = True, srv_socket = SysOk 3, srv_reuse = None, srv_timeout = None,
     srv_bind = None, srv_pthread_ok = True, srv_stale_errno = None, srv_received = rs\<rparr>"

definition sample_server_world :: app_world where
  "sample_server_world = \<lparr>app_disk = \<lparr>directory = Map.empty, contents = (\<lambda>_. []), next_file = 0\<rparr>,
     app_kernel = \<lparr>open_fds = {0, 1, 2}, sent = []\<rparr>, write_outcomes = []\<rparr>"

theorem server_confined_witness:
  "\<exists>w'. server_main (sample_server_env [Received 0 0 [1, 2, 3], TimedOut, RecvFails EIO])
          sample_server_world = (Success, w') \<and> app_kernel w' = app_kernel sample_server_world"
proof -
  let ?e = "sample_server_env [Received 0 0 [1, 2, 3], TimedOut, RecvFails EIO]"
  have h: "no_failure ?e 3" "0 \<le> (3 :: int)" "3 \<notin> open_fds (app_kernel sample_server_world)"
    by (simp_all add: no_failure_def sample_server_env_def sample_server_world_def)
  from server_confined [OF h] show ?thesis by blast
qed

text \<open>
  C17 (error). The server program runs into undefined behaviour exactly when its file could be
  opened and the server was allocated, but the socket could not be made, configured or bound or the
  thread could not be started: \<open>app_teardown\<close> then stops and destroys a server that the failing
  call has freed.
\<close>

theorem server_undefined_iff:
  assumes "\<forall>fd. srv_socket env = SysOk fd \<longrightarrow> 0 \<le> fd \<and> fd \<notin> open_fds (app_kernel w)"
  shows "fst (server_main env w) = Undefined \<longleftrightarrow>
           sigint_ok env \<and> sigterm_ok env \<and> srv_file_env env = (True, True, True) \<and> srv_malloc_ok env \<and>
           \<not> (\<exists>fd. no_failure env fd)"
proof (cases "\<exists>fd. no_failure env fd")
  case True
  then obtain fd where nf: "no_failure env fd" by blast
  then have "0 \<le> fd" "fd \<notin> open_fds (app_kernel w)" using assms by (auto simp: no_failure_def)
  from server_main_success [OF nf this] nf show ?thesis by auto
next
  case False
  then show ?thesis using server_main_not_started server_main_dangling [OF _ _ _ _ assms] by blast
qed

theorem server_undefined_iff_witness:
  "fst (server_main (sample_server_env [] \<lparr>srv_bind := Some EACCES\<rparr>) sample_server_world) = Undefined"
proof -
  let ?e = "sample_server_env [] \<lparr>srv_bind := Some EACCES\<rparr>"
  have h: "\<forall>fd. srv_socket ?e = SysOk fd \<longrightarrow> 0 \<le> fd \<and> fd \<notin> open_fds (app_kernel sample_server_world)"
    by (simp add: sample_server_env_def sample_server_world_def)
  show ?thesis
    using server_undefined_iff [OF h] by (simp add: sample_server_env_def no_failure_def)
qed

end
