(* ===== verification/File_Transfer.thy ===== *)
theory File_Transfer
  imports File_Sender_Client File_Sender_Server
begin

text \<open>
  The client and the server program together, over a network that may reorder and duplicate
  datagrams: what the server's file holds after a transfer.
\<close>

section \<open>What a datagram does to the file\<close>

abbreviation apply_chunk :: "u8 list \<Rightarrow> u8 list \<Rightarrow> u8 list" where
  "apply_chunk \<equiv> put_chunk accepted"

lemma callback_applies:
  assumes "file_handle m = Ptr i" "max_file_size m = MAX_FILE_SIZE" "write_outcomes w = []"
  shows "server_data_to_file_callback (Ptr m) ip port dg w =
           (Ok (), w\<lparr>app_disk := (app_disk w)\<lparr>contents := (contents (app_disk w))
                     (i := apply_chunk (contents (app_disk w) i) dg)\<rparr>\<rparr>)"
proof (cases "accepted dg")
  case (Some p)
  then obtain off bs where p: "accepted dg = Some (off, bs)" by (cases p) simp
  then have a: "bs = drop 16 dg" "off = unat (offset (get_header dg))" "bs \<noteq> []" "length bs \<le> 1024"
    "off + length bs \<le> unat (max_file_size m)"
    using assms(2) by (auto simp: accepted_def Let_def sizeof_data_chunk_def MAX_FILE_BUFFER_SIZE_def
        split: if_splits)
  have "unat (max_file_size m) < 2 ^ 63" using assms(2) by (simp add: MAX_FILE_SIZE_def)
  note wr = file_write_in [OF assms(1) this a(3,5), of "app_disk w"]
  have "length bs = length dg - 16" using a(1) by simp
  moreover have "\<not> length dg < 16" using a(1,3) by simp
  ultimately show ?thesis
    using wr a(1,2,4) assms(3) p
    by (simp add: server_data_to_file_callback_def sizeof_data_chunk_def MAX_FILE_BUFFER_SIZE_def
        Let_def first_or_def put_chunk_def del: of_nat_diff)
next
  case None
  let ?bs = "drop 16 dg" and ?off = "offset (get_header dg)"
  have same: "w = w\<lparr>app_disk := (app_disk w)\<lparr>contents := (contents (app_disk w))
                     (i := apply_chunk (contents (app_disk w) i) dg)\<rparr>\<rparr>"
    using None by (simp add: put_chunk_def)
  have "server_data_to_file_callback (Ptr m) ip port dg w = (Ok (), w)"
  proof (cases "length dg < 16 \<or> 1024 < length dg - 16")
    case True
    then show ?thesis
      by (auto simp: server_data_to_file_callback_def sizeof_data_chunk_def
          MAX_FILE_BUFFER_SIZE_def Let_def)
  next
    case False
    let ?sz = "of_nat (length dg - 16) :: u64"
    have sz: "unat ?sz = length ?bs" using False by (subst unat_of_nat_lt) auto
    obtain r d where rd: "ram_file_write IoOk (Ptr m) ?off (Ptr ?bs) ?sz (app_disk w) = (r, d)"
      by (metis surj_pair)
    have "r \<noteq> UB" using write_no_ub [OF assms(1), of ?sz ?bs IoOk ?off "app_disk w"] rd sz by simp
    moreover have "d = app_disk w"
    proof (cases "?bs = []")
      case True
      with rd assms(1) show ?thesis by (simp add: ram_file_write_def del: of_nat_diff)
    next
      case ne: False
      have "\<not> unat ?off + unat ?sz \<le> unat (max_file_size m)"
        using None ne False sz assms(2)
        by (auto simp: accepted_def Let_def sizeof_data_chunk_def MAX_FILE_BUFFER_SIZE_def)
      moreover have "unat ?sz \<le> length ?bs" "length ?bs < 2 ^ 63" using sz False by auto
      ultimately show ?thesis using write_effect [OF assms(1) _ _ rd] by blast
    qed
    ultimately show ?thesis
      using rd False assms(3)
      by (simp add: server_data_to_file_callback_def sizeof_data_chunk_def MAX_FILE_BUFFER_SIZE_def
          Let_def first_or_def del: of_nat_diff)
  qed
  with same show ?thesis by (simp only:)
qed

text \<open>The datagrams among the results of \<open>recvfrom\<close>; too long ones are refused cut or uncut.\<close>

fun payload :: "recv_result \<Rightarrow> u8 list list" where
  "payload (Received ip port bytes) = [bytes]"
| "payload r = []"

lemma accepted_cut: "accepted (take SERVER_BUFFER_SIZE dg) = accepted dg"
proof (cases "length dg \<le> SERVER_BUFFER_SIZE")
  case False
  then show ?thesis
    by (auto simp: accepted_def Let_def SERVER_BUFFER_SIZE_def sizeof_data_chunk_def
        MAX_FILE_BUFFER_SIZE_def)
qed simp

lemma accepted_Nil [simp]: "accepted [] = None"
  by (simp add: accepted_def Let_def)

lemma recv_loop_applies:
  assumes "file_handle m = Ptr i" "max_file_size m = MAX_FILE_SIZE"
    and "\<forall>e. RecvFails e \<notin> set rs" "write_outcomes w = []"
  shows "recv_loop (server_data_to_file_callback (Ptr m)) (map (Pair 1) rs @ [(0, TimedOut)]) w =
           (Ok False, w\<lparr>app_disk := (app_disk w)\<lparr>contents := (contents (app_disk w))
              (i := foldl apply_chunk (contents (app_disk w) i) (concat (map payload rs)))\<rparr>\<rparr>)"
  using assms(3,4)
proof (induction rs arbitrary: w)
  case (Cons r rs)
  have e: "\<forall>e. RecvFails e \<notin> set rs" using Cons.prems(1) by simp
  show ?case
  proof (cases r)
    case (Received ip port bytes)
    show ?thesis
    proof (cases "bytes = []")
      case True
      have "apply_chunk c [] = c" for c by (simp add: put_chunk_def)
      with True Received Cons.IH [OF e Cons.prems(2)] show ?thesis by simp
    next
      case False
      let ?w = "w\<lparr>app_disk := (app_disk w)\<lparr>contents := (contents (app_disk w))
        (i := apply_chunk (contents (app_disk w) i) bytes)\<rparr>\<rparr>"
      have "apply_chunk c (take SERVER_BUFFER_SIZE bytes) = apply_chunk c bytes" for c
        by (simp add: put_chunk_def accepted_cut)
      with callback_applies [OF assms(1,2) Cons.prems(2)]
      have "server_data_to_file_callback (Ptr m) ip port (take SERVER_BUFFER_SIZE bytes) w = (Ok (), ?w)"
        by simp
      with False Received Cons.IH [OF e, of ?w] Cons.prems(2) show ?thesis
        by (simp cong: if_cong)
    qed
  qed (use Cons e in auto)
qed simp

section \<open>The transfer\<close>

text \<open>What the server accepts of a datagram of the client.\<close>

lemma accepted_chunk:
  assumes "carries dg off bs" "bs \<noteq> []" "length bs \<le> 1024" "off < 2 ^ 64"
  shows "accepted dg = (if off + length bs \<le> unat MAX_FILE_SIZE then Some (off, bs) else None)"
proof -
  have "unat (offset (get_header dg)) = off"
    using assms(1,4) unat_of_nat_lt [of off, where 'a = 64] by (simp add: carries_def del: unsigned_of_nat)
  with assms show ?thesis
    by (simp add: accepted_def carries_def MAX_FILE_BUFFER_SIZE_def not_less [symmetric])
qed

lemma transmitted_chunk:
  assumes "transmits dgs 0 c" "length c < 2 ^ 63" "j < length dgs"
  shows "accepted (dgs ! j) = (if 1024 * j + min 1024 (length c - 1024 * j) \<le> unat MAX_FILE_SIZE
           then Some (1024 * j, take 1024 (drop (1024 * j) c)) else None) \<and> 1024 * j < length c"
proof -
  have lt: "1024 * j < length c" using assms(1,3) by (simp add: transmits_def)
  have "carries (dgs ! j) (1024 * j) (take 1024 (drop (1024 * j) c))"
    using assms(1,3) by (simp add: transmits_def)
  from accepted_chunk [OF this] lt assms(2) show ?thesis by (simp add: min.commute)
qed

lemma transfer_pieces:
  assumes "transmits dgs 0 c" "length c < 2 ^ 63" "dg \<in> set dgs"
    and "n = min (length c) (unat MAX_FILE_SIZE)"
  shows "piece accepted c n dg"
proof -
  obtain j where j: "j < length dgs" "dg = dgs ! j" using assms(3) by (metis in_set_conv_nth)
  from transmitted_chunk [OF assms(1,2) j(1)] j(2) assms(4) show ?thesis
    by (auto simp: piece_def min_def split: if_splits)
qed

lemma transfer_content:
  assumes "transmits dgs 0 c" "length c < 2 ^ 63" "set received = set dgs"
    and "n = min (length c) (unat MAX_FILE_SIZE)"
  shows "foldl apply_chunk c0 received = take n c @ drop n c0"
proof (rule chunks.pieces_complete)
  show "n \<le> length c" using assms(4) by simp
  show "\<forall>dg \<in> set received. piece accepted c n dg"
    using transfer_pieces [OF assms(1,2) _ assms(4)] assms(3) by blast
  show "\<forall>k < n. \<exists>dg \<in> set received. \<exists>off bs. accepted dg = Some (off, bs) \<and> off \<le> k \<and> k < off + length bs"
  proof (intro allI impI)
    fix k assume k: "k < n"
    let ?j = "k div 1024"
    have kc: "k < length c" "k < 1048576" using k assms(4) by (simp_all add: MAX_FILE_SIZE_def)
    have j: "?j < 1024" using kc(2) by (intro less_mult_imp_div_less) simp
    have fit: "1024 * ?j + min 1024 (length c - 1024 * ?j) \<le> unat MAX_FILE_SIZE"
      by (rule order_trans [of _ "1024 * ?j + 1024"]) (use j in \<open>simp_all add: MAX_FILE_SIZE_def\<close>)
    have jd: "?j < length dgs" using assms(1) kc(1) by (simp add: transmits_def)
    note transmitted_chunk [OF assms(1,2) jd, unfolded if_P [OF fit], THEN conjunct1]
    moreover have "1024 * ?j \<le> k" "k < 1024 * ?j + length (take 1024 (drop (1024 * ?j) c))"
      using kc(1) by (auto simp: min_def)
    ultimately show "\<exists>dg \<in> set received. \<exists>off bs.
        accepted dg = Some (off, bs) \<and> off \<le> k \<and> k < off + length bs"
      using assms(3) jd nth_mem [OF jd] by blast
  qed
qed

text \<open>
  C2 (functional). After a client has sent a file, a server that receives some of its datagrams, in
  any order, any of them any number of times and with time-outs between them, ends with a file in
  which every byte is the client's byte for that position or what was there before (zero where
  the file had to be extended over a gap). If none is lost the file is delivered: the client's
  bytes up to 1 MB, followed by what the server's file held behind them, because the file is not
  truncated; bytes of a longer file are dropped.
\<close>

theorem file_transfer_delivers:
  assumes "client_main cenv [prog, path] cw = (Success, cw')"
    and "\<forall>fd. cl_socket cenv = SysOk fd \<longrightarrow> 0 \<le> fd \<and> fd \<notin> open_fds (app_kernel cw)"
    and "\<forall>i. length (contents (app_disk cw) i) < 2 ^ 63"
    and "directory (app_disk cw) path = Some i" "contents (app_disk cw) i = c"
    and "sent (app_kernel cw') = sent (app_kernel cw) @ dgs"
    and "no_failure env fd" "0 \<le> fd" "write_outcomes w = []"
    and "\<forall>e. RecvFails e \<notin> set (srv_received env)"
    and "concat (map payload (srv_received env)) = ds" "set ds \<subseteq> set dgs"
    and "contents (with_received_file (app_disk w)) (received_file (app_disk w)) = c0"
    and "n = min (length c) (unat MAX_FILE_SIZE)"
  shows "\<exists>w' r. server_main env w = (Success, w') \<and>
           directory (app_disk w') FILE_PATH = Some (received_file (app_disk w)) \<and>
           contents (app_disk w') (received_file (app_disk w)) = r \<and>
           length c0 \<le> length r \<and> length r \<le> max (length c0) n \<and>
           (\<forall>k < length r. k < n \<and> r ! k = c ! k \<or> r ! k = (if k < length c0 then c0 ! k else 0)) \<and>
           (set ds = set dgs \<longrightarrow> r = take n c @ drop n c0)"
proof -
  let ?i = "received_file (app_disk w)" and ?m = "server_file_mngr (app_disk w)"
  let ?w = "w\<lparr>app_disk := with_received_file (app_disk w), app_kernel := open_fd fd (app_kernel w)\<rparr>"
  from client_main_result [OF assms(2,3), of "[prog, path]"] assms(1,4-6)
  have tr: "transmits dgs 0 c" by auto
  have "length c < 2 ^ 63" using assms(3,5) by blast
  note len = this
  have n: "n \<le> length c" using assms(14) by simp
  let ?r = "foldl apply_chunk c0 ds"
  have pieces: "\<forall>dg \<in> set ds. piece accepted c n dg"
    using transfer_pieces [OF tr len _ assms(14)] assms(12) by blast
  note content = transfer_content [OF tr len _ assms(14), of ds c0]
  have m: "file_handle ?m = Ptr ?i" "max_file_size ?m = MAX_FILE_SIZE"
    by (simp_all add: server_file_mngr_def)
  have "recv_loop (server_data_to_file_callback (Ptr ?m)) (server_turns env) ?w =
      (Ok False, ?w\<lparr>app_disk := (app_disk ?w)\<lparr>contents := (contents (app_disk ?w))(?i := ?r)\<rparr>\<rparr>)"
    using recv_loop_applies [OF m assms(10), of ?w] assms(9,11,13) by (simp add: server_turns_def)
  moreover have "directory (with_received_file (app_disk w)) FILE_PATH = Some ?i"
    by (simp add: with_received_file_def received_file_def open_new_def split: option.split)
  ultimately obtain w' where w': "server_main env w = (Success, w')"
    "directory (app_disk w') FILE_PATH = Some ?i" "contents (app_disk w') ?i = ?r"
    using server_main_clean [OF assms(7,8), of w] by simp
  have bytes: "\<forall>k < length ?r. k < n \<and> ?r ! k = c ! k \<or> ?r ! k = (if k < length c0 then c0 ! k else 0)"
    using chunks.pieces_bytes [OF n pieces] by blast
  note bytes w' chunks.apply_pieces [OF n pieces, of c0] content
  then show ?thesis
    by (intro exI [of _ w'] exI [of _ ?r] conjI impI) (simp_all only:)
qed

text \<open>
  The instance: a client with a file of three bytes, and a server that gets its datagram twice
  with a time-out between, over an old file of five bytes.
\<close>

definition old_server_world :: app_world where
  "old_server_world = sample_server_world\<lparr>app_disk := \<lparr>directory = [FILE_PATH \<mapsto> 0],
     contents = (\<lambda>_. [1, 2, 3, 4, 5]), next_file = 1\<rparr>\<rparr>"

theorem file_transfer_delivers_witness:
  "\<exists>rs w'. server_main (sample_server_env rs) old_server_world = (Success, w') \<and>
           contents (app_disk w') 0 = [7, 8, 9, 4, 5]"
proof -
  let ?cw = sample_client_world and ?w = old_server_world
  have h: "\<forall>fd. cl_socket sample_client_env = SysOk fd \<longrightarrow> 0 \<le> fd \<and> fd \<notin> open_fds (app_kernel ?cw)"
    "\<forall>i. length (contents (app_disk ?cw) i) < 2 ^ 63"
    "directory (app_disk ?cw) ''a.bin'' = Some 0" "contents (app_disk ?cw) 0 = [7, 8, 9]"
    by (simp_all add: sample_client_env_def sample_client_world_def)
  obtain cw' dgs where run: "client_main sample_client_env [''client'', ''a.bin''] ?cw = (Success, cw')"
    "sent (app_kernel cw') = sent (app_kernel ?cw) @ dgs"
    using sample_client_run by blast
  let ?rs = "map (Received 0 0) dgs @ [TimedOut] @ map (Received 0 0) dgs"
  let ?e = "sample_server_env ?rs"
  have pl: "concat (map payload (map (Received 0 0) xs)) = xs" for xs by (induction xs) simp_all
  have e: "no_failure ?e 3" "0 \<le> (3 :: int)" "write_outcomes ?w = []"
    "\<forall>e. RecvFails e \<notin> set (srv_received ?e)"
    "concat (map payload (srv_received ?e)) = dgs @ dgs" "set (dgs @ dgs) \<subseteq> set dgs"
    "contents (with_received_file (app_disk ?w)) (received_file (app_disk ?w)) = [1, 2, 3, 4, 5]"
    "(3 :: nat) = min (length [7, 8, 9 :: u8]) (unat MAX_FILE_SIZE)"
    using pl [of dgs]
    by (auto simp: no_failure_def sample_server_env_def old_server_world_def sample_server_world_def
        with_received_file_def received_file_def MAX_FILE_SIZE_def)
  from file_transfer_delivers [OF run(1) h run(2) e] show ?thesis
    by (auto simp: old_server_world_def received_file_def)
qed

end
