(* ===== verification/Server_Threads.thy ===== *)
theory Server_Threads
  imports File_Sender_Server
begin

text \<open>
  The server program as two threads. \<open>File_Sender_Server\<close> runs the receiving thread between the start
  and the stop of the server; here the thread and the main thread take their steps in any order on
  the shared server and file objects. The step relation shows that the order does not matter: no
  run touches freed memory, every run that ends has the outcome of the sequential program, and
  after the signal every run ends.
\<close>

section \<open>The threads\<close>

text \<open>
  Where the receiving thread of \<open>_net_server_recv_loop\<close> stands: before the test of the flag, before
  \<open>recvfrom\<close>, before the callback, or at its end.
\<close>

datatype thread_pc = AtFlag | AtRecv | AtCallback u32 u16 "u8 list" | ThreadDone

text \<open>
  Where \<open>main\<close> stands: in \<open>pause\<close>, before the flag is cleared in \<open>net_server_stop\<close>, before
  \<open>pthread_join\<close>, before \<open>net_server_destroy\<close>, before \<open>ram_file_destroy\<close>, or at its end.
\<close>

datatype main_pc = Pausing | Stopping | Joining | Destroying | ClosingFile | Exited

text \<open>\<open>received\<close> records what \<open>recvfrom\<close> gave; no step depends on it.\<close>

record server_sys =
  mpc :: main_pc
  tpc :: thread_pc
  app :: file_sender_server
  world :: app_world
  received :: "recv_result list"
  crashed :: bool

text \<open>
  A step of the receiving thread, with the result of \<open>recvfrom\<close> if that is the step. It crashes if
  the server is freed or its socket closed, or if the callback is undefined, as it is on a freed
  file manager.
\<close>

definition thread_step :: "recv_result \<Rightarrow> server_sys \<Rightarrow> server_sys" where
  "thread_step r s =
     (case srv_net_server (app s) of
        Ptr srv \<Rightarrow>
          (case tpc s of
             AtFlag \<Rightarrow> s\<lparr>tpc := (if get_receive_data_flag srv = 0 then ThreadDone else AtRecv)\<rparr>
           | AtRecv \<Rightarrow>
               if sock_fd srv \<notin> open_fds (app_kernel (world s)) then s\<lparr>crashed := True\<rparr>
               else s\<lparr>tpc := (case r of
                                Received ip port bytes \<Rightarrow>
                                  if bytes \<noteq> [] then AtCallback ip port (take SERVER_BUFFER_SIZE bytes)
                                  else AtFlag
                              | TimedOut \<Rightarrow> AtFlag
                              | RecvFails e \<Rightarrow> ThreadDone),
                      received := received s @ [r]\<rparr>
           | AtCallback ip port bytes \<Rightarrow>
               (case server_data_to_file_callback (srv_file_mngr (app s)) ip port bytes (world s) of
                  (res, w) \<Rightarrow> s\<lparr>tpc := AtFlag, world := w, crashed := (crashed s \<or> res = UB)\<rparr>)
           | ThreadDone \<Rightarrow> s)
      | _ \<Rightarrow> s\<lparr>crashed := True\<rparr>)"

text \<open>
  A step of \<open>main\<close> after the signal: the parts of \<open>app_teardown\<close>, with \<open>net_server_stop\<close> cut in two at
  \<open>pthread_join\<close>, which waits for the thread. \<open>None\<close>: the thread waits or is at its end.
\<close>

definition main_step :: "server_sys \<Rightarrow> server_sys option" where
  "main_step s =
     (case mpc s of
        Pausing \<Rightarrow> None
      | Stopping \<Rightarrow>
          Some (case srv_net_server (app s) of
                  Ptr srv \<Rightarrow>
                    if get_receive_data_flag srv = 0 then s\<lparr>mpc := Destroying\<rparr>
                    else s\<lparr>mpc := Joining,
                           app := (app s)\<lparr>srv_net_server := Ptr (set_receive_data_flag 0 srv)\<rparr>\<rparr>
                | NULL \<Rightarrow> s\<lparr>mpc := Destroying\<rparr>
                | Freed \<Rightarrow> s\<lparr>crashed := True\<rparr>)
      | Joining \<Rightarrow>
          if tpc s \<noteq> ThreadDone then None
          else (case srv_net_server (app s) of
                  Ptr srv \<Rightarrow> Some (s\<lparr>mpc := Destroying, app := (app s)\<lparr>srv_net_server :=
                                      Ptr (srv\<lparr>thread_alive := False\<rparr>)\<rparr>\<rparr>)
                | _ \<Rightarrow> Some (s\<lparr>crashed := True\<rparr>))
      | Destroying \<Rightarrow>
          (case net_server_destroy (srv_net_server (app s)) (app_kernel (world s)) of
             (r, p, k) \<Rightarrow> Some (s\<lparr>mpc := ClosingFile, app := (app s)\<lparr>srv_net_server := p\<rparr>,
                                world := (world s)\<lparr>app_kernel := k\<rparr>,
                                crashed := (crashed s \<or> r = UB)\<rparr>))
      | ClosingFile \<Rightarrow>
          (case ram_file_destroy None (srv_file_mngr (app s)) (app_disk (world s)) of
             (r, m, d) \<Rightarrow> Some (s\<lparr>mpc := Exited, app := (app s)\<lparr>srv_file_mngr := m\<rparr>,
                                world := (world s)\<lparr>app_disk := d\<rparr>,
                                crashed := (crashed s \<or> r = UB)\<rparr>))
      | Exited \<Rightarrow> None)"

text \<open>Any thread that can move may move; a signal may end the wait of \<open>main\<close>.\<close>

inductive app_step :: "server_sys \<Rightarrow> server_sys \<Rightarrow> bool" where
  thread: "tpc s \<noteq> ThreadDone \<Longrightarrow> app_step s (thread_step r s)"
| signal: "mpc s = Pausing \<Longrightarrow> app_step s (s\<lparr>mpc := Stopping\<rparr>)"
| main: "main_step s = Some t \<Longrightarrow> app_step s t"

inductive_cases app_stepE: "app_step s t"

text \<open>The state in which \<open>main\<close> first waits, after \<open>app_setup\<close> and \<open>app_run\<close>.\<close>

definition sys_start :: "server_env \<Rightarrow> app_world \<Rightarrow> server_sys" where
  "sys_start env w =
     (case app_setup env \<lparr>srv_file_mngr = NULL, srv_net_server = NULL\<rparr> w of
        (_, fs, w) \<Rightarrow>
          (case app_run env fs w of
             (_, fs, w) \<Rightarrow> \<lparr>mpc = Pausing, tpc = AtFlag, app = fs, world = w, received = [],
                           crashed = False\<rparr>))"

section \<open>The receiving loop in pieces\<close>

lemma recv_loop_append:
  "recv_loop cb (xs @ ys) w =
     (case recv_loop cb xs w of (Ok True, w) \<Rightarrow> recv_loop cb ys w | r \<Rightarrow> r)"
proof (induction xs arbitrary: w)
  case (Cons x xs)
  obtain flag r where "x = (flag, r)" by (cases x)
  with Cons show ?case
    by (cases r) (auto simp: and_then_def split: prod.splits res.splits)
qed simp

lemma recv_loop_snoc:
  assumes "recv_loop cb (map (Pair 1) rs) w = (Ok True, w')"
  shows "recv_loop cb (map (Pair 1) (rs @ [r])) w = recv_loop cb [(1, r)] w'"
    and "recv_loop cb (map (Pair 1) rs @ [(0, TimedOut)]) w = (Ok False, w')"
  using assms by (simp_all add: recv_loop_append)

section \<open>The invariant\<close>

text \<open>
  \<open>start_world\<close> is the world when the thread starts and \<open>shared_server\<close> the server object with the
  given flag. Up to its current position the thread has done what the sequential loop does on the
  results received so far; only \<open>main\<close> closes the socket, after the thread has ended.
\<close>

definition start_world :: "int \<Rightarrow> app_world \<Rightarrow> app_world" where
  "start_world fd w = w\<lparr>app_disk := with_received_file (app_disk w),
                        app_kernel := open_fd fd (app_kernel w)\<rparr>"

definition shared_server :: "app_world \<Rightarrow> int \<Rightarrow> int \<Rightarrow> bool \<Rightarrow> server_callback net_server" where
  "shared_server w fd flag alive =
     \<lparr>srv_port = LOCAL_SERVER_PORT, sock_fd = fd, thread_alive = alive, receive_data_flag = flag,
      callback = Some (server_data_to_file_callback (Ptr (server_file_mngr (app_disk w))))\<rparr>"

definition the_callback :: "app_world \<Rightarrow> server_callback" where
  "the_callback w = server_data_to_file_callback (Ptr (server_file_mngr (app_disk w)))"

definition thread_done_so_far :: "int \<Rightarrow> app_world \<Rightarrow> server_sys \<Rightarrow> app_world \<Rightarrow> bool" where
  "thread_done_so_far fd w s w' \<longleftrightarrow>
     (case tpc s of
        AtCallback ip port bytes \<Rightarrow>
          (\<exists>rs full. received s = rs @ [Received ip port full] \<and> full \<noteq> [] \<and>
             bytes = take SERVER_BUFFER_SIZE full \<and>
             recv_loop (the_callback w) (map (Pair 1) rs) (start_world fd w) = (Ok True, w'))
      | ThreadDone \<Rightarrow>
          recv_loop (the_callback w) (map (Pair 1) (received s) @ [(0, TimedOut)]) (start_world fd w) =
            (Ok False, w')
      | _ \<Rightarrow> recv_loop (the_callback w) (map (Pair 1) (received s)) (start_world fd w) = (Ok True, w'))"

definition sys_inv :: "int \<Rightarrow> app_world \<Rightarrow> server_sys \<Rightarrow> bool" where
  "sys_inv fd w s \<longleftrightarrow> \<not> crashed s \<and>
     thread_done_so_far fd w s ((world s)\<lparr>app_kernel := open_fd fd (app_kernel w)\<rparr>) \<and>
     srv_file_mngr (app s) = (if mpc s = Exited then Freed else Ptr (server_file_mngr (app_disk w))) \<and>
     srv_net_server (app s) =
       (case mpc s of
          Pausing \<Rightarrow> Ptr (shared_server w fd 1 True)
        | Stopping \<Rightarrow> Ptr (shared_server w fd 1 True)
        | Joining \<Rightarrow> Ptr (shared_server w fd 0 True)
        | Destroying \<Rightarrow> Ptr (shared_server w fd 0 False)
        | _ \<Rightarrow> Freed) \<and>
     (mpc s \<in> {Destroying, ClosingFile, Exited} \<longrightarrow> tpc s = ThreadDone) \<and>
     app_kernel (world s) =
       (if mpc s \<in> {ClosingFile, Exited} then app_kernel w else open_fd fd (app_kernel w))"

lemma sys_start_eq:
  assumes "no_failure env fd"
  shows "sys_start env w =
     \<lparr>mpc = Pausing, tpc = AtFlag,
      app = \<lparr>srv_file_mngr = Ptr (server_file_mngr (app_disk w)),
             srv_net_server = Ptr (shared_server w fd 1 True)\<rparr>,
      world = start_world fd w, received = [], crashed = False\<rparr>"
  using assms
  by (simp add: sys_start_def no_failure_def app_setup_def register_signal_handlers_def Let_def
      server_create_file net_server_create_def app_run_def net_server_start_def
      set_receive_data_flag_def shared_server_def start_world_def)

lemma sys_inv_start: "no_failure env fd \<Longrightarrow> sys_inv fd w (sys_start env w)"
  by (simp add: sys_start_eq sys_inv_def thread_done_so_far_def start_world_def)

lemma done_so_far_frame [simp]:
  "thread_done_so_far fd w (s\<lparr>mpc := x\<rparr>) = thread_done_so_far fd w s"
  "thread_done_so_far fd w (s\<lparr>app := a\<rparr>) = thread_done_so_far fd w s"
  "thread_done_so_far fd w (s\<lparr>world := v\<rparr>) = thread_done_so_far fd w s"
  "thread_done_so_far fd w (s\<lparr>crashed := c\<rparr>) = thread_done_so_far fd w s"
  by (rule ext; cases "tpc s"; simp add: thread_done_so_far_def)+

text \<open>While the thread runs, \<open>main\<close> has not joined it: the server is there and its socket open.\<close>

lemma inv_running:
  assumes "sys_inv fd w s" "tpc s \<noteq> ThreadDone"
  obtains flag where "srv_net_server (app s) = Ptr (shared_server w fd flag True)"
    "srv_file_mngr (app s) = Ptr (server_file_mngr (app_disk w))"
    "app_kernel (world s) = open_fd fd (app_kernel w)" "mpc s \<in> {Pausing, Stopping, Joining}"
    "thread_done_so_far fd w s (world s)"
proof -
  have k: "app_kernel (world s) = open_fd fd (app_kernel w)" "mpc s \<in> {Pausing, Stopping, Joining}"
    using assms by (cases "mpc s"; simp add: sys_inv_def)+
  then have "(world s)\<lparr>app_kernel := open_fd fd (app_kernel w)\<rparr> = world s" by simp
  with assms(1) have "thread_done_so_far fd w s (world s)" by (simp add: sys_inv_def)
  with k assms(1) that show thesis by (auto simp: sys_inv_def)
qed

lemma inv_keep:
  assumes "sys_inv fd w s" "tpc s \<noteq> ThreadDone" "\<not> c" "app_kernel w' = open_fd fd (app_kernel w)"
    and "thread_done_so_far fd w (s\<lparr>tpc := p, received := rs\<rparr>) w'"
  shows "sys_inv fd w (s\<lparr>tpc := p, received := rs, world := w', crashed := c\<rparr>)"
proof -
  have k: "mpc s \<in> {Pausing, Stopping, Joining}"
    using assms(1,2) by (cases "mpc s"; simp add: sys_inv_def)
  have "w'\<lparr>app_kernel := open_fd fd (app_kernel w)\<rparr> = w'" using assms(4) by simp
  with assms(5) have "thread_done_so_far fd w (s\<lparr>tpc := p, received := rs\<rparr>)
      (w'\<lparr>app_kernel := open_fd fd (app_kernel w)\<rparr>)" by (simp only:)
  moreover have "thread_done_so_far fd w (s\<lparr>tpc := p, received := rs, world := w', crashed := c\<rparr>) =
      thread_done_so_far fd w (s\<lparr>tpc := p, received := rs\<rparr>)" by simp
  ultimately show ?thesis using assms k by (auto simp: sys_inv_def)
qed

lemma the_callback_safe:
  "\<exists>d os. the_callback w ip port bytes v = (Ok (), v\<lparr>app_disk := d, write_outcomes := os\<rparr>)"
  using callback_safe [of "server_file_mngr (app_disk w)" "received_file (app_disk w)"]
  by (force simp: the_callback_def server_file_mngr_def)

lemma sys_inv_thread_step:
  assumes inv: "sys_inv fd w s" and run: "tpc s \<noteq> ThreadDone"
  shows "sys_inv fd w (thread_step r s)"
proof -
  obtain flag where st: "srv_net_server (app s) = Ptr (shared_server w fd flag True)"
    "srv_file_mngr (app s) = Ptr (server_file_mngr (app_disk w))"
    "app_kernel (world s) = open_fd fd (app_kernel w)"
    and sofar: "thread_done_so_far fd w s (world s)"
    by (rule inv_running [OF inv run])
  have nc: "\<not> crashed s" using inv by (simp add: sys_inv_def)
  show ?thesis
  proof (cases "tpc s")
    case AtFlag
    let ?p = "if flag = 0 then ThreadDone else AtRecv"
    have "recv_loop (the_callback w) (map (Pair 1) (received s)) (start_world fd w) = (Ok True, world s)"
      using sofar AtFlag by (simp add: thread_done_so_far_def)
    note this recv_loop_snoc(2) [OF this]
    then have "thread_done_so_far fd w (s\<lparr>tpc := ?p, received := received s\<rparr>) (world s)"
      by (simp add: thread_done_so_far_def)
    from inv_keep [OF inv run nc st(3) this] AtFlag st(1) show ?thesis
      by (simp add: thread_step_def shared_server_def get_receive_data_flag_def)
  next
    case AtRecv
    let ?p = "case r of Received ip port bytes \<Rightarrow>
        if bytes \<noteq> [] then AtCallback ip port (take SERVER_BUFFER_SIZE bytes) else AtFlag
      | TimedOut \<Rightarrow> AtFlag | RecvFails e \<Rightarrow> ThreadDone"
    have so: "recv_loop (the_callback w) (map (Pair 1) (received s)) (start_world fd w) = (Ok True, world s)"
      using sofar AtRecv by (simp add: thread_done_so_far_def)
    have "thread_done_so_far fd w (s\<lparr>tpc := ?p, received := received s @ [r]\<rparr>) (world s)"
      using recv_loop_snoc(1) [OF so, of r] so
      by (cases r) (auto simp: thread_done_so_far_def recv_loop_append)
    from inv_keep [OF inv run nc st(3) this] AtRecv st(1,3) show ?thesis
      by (simp add: thread_step_def shared_server_def open_fd_def)
  next
    case (AtCallback ip port bytes)
    then obtain rs full where h: "received s = rs @ [Received ip port full]" "full \<noteq> []"
      "bytes = take SERVER_BUFFER_SIZE full"
      "recv_loop (the_callback w) (map (Pair 1) rs) (start_world fd w) = (Ok True, world s)"
      using sofar by (auto simp: thread_done_so_far_def)
    obtain d os where cb: "the_callback w ip port bytes (world s) =
        (Ok (), (world s)\<lparr>app_disk := d, write_outcomes := os\<rparr>)"
      using the_callback_safe by blast
    let ?w = "(world s)\<lparr>app_disk := d, write_outcomes := os\<rparr>"
    have "thread_done_so_far fd w (s\<lparr>tpc := AtFlag, received := received s\<rparr>) ?w"
      using recv_loop_snoc(1) [OF h(4), of "Received ip port full"] h cb
      by (simp add: thread_done_so_far_def)
    from inv_keep [OF inv run _ _ this, of "crashed s"] nc st AtCallback cb show ?thesis
      by (simp add: thread_step_def the_callback_def)
  qed (use run in simp)
qed

lemma sys_inv_main_step:
  assumes "sys_inv fd w s" "main_step s = Some t" "0 \<le> fd" "fd \<notin> open_fds (app_kernel w)"
  shows "sys_inv fd w t"
proof (cases "mpc s")
  case Stopping
  with assms show ?thesis
    by (auto simp: main_step_def sys_inv_def shared_server_def get_receive_data_flag_def
        set_receive_data_flag_def)
next
  case Joining
  with assms show ?thesis
    by (auto simp: main_step_def sys_inv_def shared_server_def split: if_splits)
next
  case Destroying
  with assms show ?thesis
    by (auto simp: main_step_def sys_inv_def shared_server_def
        net_server_destroy_def cleanup_server_def)
next
  case ClosingFile
  with assms show ?thesis
    by (auto simp: main_step_def sys_inv_def ram_file_destroy_def
        server_file_mngr_def)
qed (use assms in \<open>simp_all add: main_step_def\<close>)

lemma sys_inv_step:
  assumes "app_step s t" "sys_inv fd w s" "0 \<le> fd" "fd \<notin> open_fds (app_kernel w)"
  shows "sys_inv fd w t"
  using assms
proof (cases rule: app_step.cases)
  case signal
  with assms(2) show ?thesis by (auto simp: sys_inv_def)
qed (use assms sys_inv_thread_step sys_inv_main_step in blast)+

lemma reachable_inv:
  assumes "app_step\<^sup>*\<^sup>* (sys_start env w) s" "no_failure env fd" "0 \<le> fd"
    and "fd \<notin> open_fds (app_kernel w)"
  shows "sys_inv fd w s"
  using assms(1)
  by (induction rule: rtranclp_induct) (use assms sys_inv_start sys_inv_step in blast)+

section \<open>The end of the program\<close>

text \<open>After the flag is cleared every step brings the end nearer.\<close>

primrec main_rank :: "main_pc \<Rightarrow> nat" where
  "main_rank Pausing = 5"
| "main_rank Stopping = 4"
| "main_rank Joining = 3"
| "main_rank Destroying = 2"
| "main_rank ClosingFile = 1"
| "main_rank Exited = 0"

primrec thread_rank :: "thread_pc \<Rightarrow> nat" where
  "thread_rank AtRecv = 3"
| "thread_rank (AtCallback ip port bytes) = 2"
| "thread_rank AtFlag = 1"
| "thread_rank ThreadDone = 0"

definition stop_rank :: "server_sys \<Rightarrow> nat" where
  "stop_rank s = main_rank (mpc s) + thread_rank (tpc s)"

lemma stop_rank_thread:
  assumes "sys_inv fd w s" "tpc s \<noteq> ThreadDone" "main_rank (mpc s) \<le> 3"
  shows "stop_rank (thread_step r s) < stop_rank s \<and> mpc (thread_step r s) = mpc s"
proof -
  have "mpc s = Joining"
    using assms by (cases "mpc s") (simp_all add: sys_inv_def)
  then have st: "srv_net_server (app s) = Ptr (shared_server w fd 0 True)"
    "app_kernel (world s) = open_fd fd (app_kernel w)"
    using assms(1) by (simp_all add: sys_inv_def)
  show ?thesis
    using st assms(2)
    by (cases "tpc s")
      (simp_all add: thread_step_def stop_rank_def shared_server_def get_receive_data_flag_def
        open_fd_def split: prod.split recv_result.split)
qed

lemma stop_rank_main:
  assumes "sys_inv fd w s" "main_step s = Some t"
  shows "stop_rank t < stop_rank s \<and> main_rank (mpc t) \<le> 3"
  using assms
  by (cases "mpc s")
    (auto simp: main_step_def sys_inv_def stop_rank_def shared_server_def get_receive_data_flag_def
      split: if_splits prod.splits)

lemma stop_rank_step:
  assumes "app_step s t" "sys_inv fd w s" "main_rank (mpc s) \<le> 3"
  shows "stop_rank t < stop_rank s \<and> main_rank (mpc t) \<le> 3"
  using assms(1)
proof (cases rule: app_step.cases)
  case (thread r)
  with stop_rank_thread [OF assms(2) thread(2) assms(3), of r] assms(3) show ?thesis by simp
next
  case signal
  with assms(3) show ?thesis by simp
next
  case main
  with stop_rank_main [OF assms(2)] show ?thesis by blast
qed

lemma stop_rank_steps:
  assumes "(app_step ^^ n) s t" "sys_inv fd w s" "main_rank (mpc s) \<le> 3"
    and "0 \<le> fd" "fd \<notin> open_fds (app_kernel w)"
  shows "n + stop_rank t \<le> stop_rank s \<and> main_rank (mpc t) \<le> 3 \<and> sys_inv fd w t"
  using assms(1)
proof (induction n arbitrary: t)
  case (Suc n)
  then obtain u where u: "(app_step ^^ n) s u" "app_step u t" by auto
  note ih = Suc.IH [OF u(1)]
  with stop_rank_step [OF u(2)] sys_inv_step [OF u(2)] assms(4,5) show ?case by fastforce
qed (use assms in simp)

lemma app_step_progress:
  assumes "sys_inv fd w s" "mpc s \<noteq> Exited"
  shows "\<exists>t. app_step s t"
proof (cases "tpc s = ThreadDone")
  case False
  then show ?thesis by (blast intro: app_step.thread)
next
  case True
  show ?thesis
  proof (cases "mpc s = Pausing")
    case False
    then have "main_step s \<noteq> None"
      using True assms by (cases "mpc s") (auto simp: main_step_def sys_inv_def split: prod.splits)
    then show ?thesis by (blast intro: app_step.main)
  qed (blast intro: app_step.signal)
qed

lemma reaches_exit:
  assumes "sys_inv fd w s" "main_rank (mpc s) \<le> 3" "0 \<le> fd" "fd \<notin> open_fds (app_kernel w)"
  shows "\<exists>t. app_step\<^sup>*\<^sup>* s t \<and> mpc t = Exited"
  using assms(1,2)
proof (induction "stop_rank s" arbitrary: s rule: less_induct)
  case less
  show ?case
  proof (cases "mpc s = Exited")
    case False
    then obtain t where t: "app_step s t" using app_step_progress [OF less.prems(1)] by blast
    note d = stop_rank_step [OF t less.prems]
    from less.hyps [of t] d sys_inv_step [OF t less.prems(1) assms(3,4)] t show ?thesis
      by (meson converse_rtranclp_into_rtranclp)
  qed blast
qed

lemma signal_steps:
  assumes "sys_inv fd w s" "mpc s = Pausing"
  shows "app_step\<^sup>*\<^sup>* s (s\<lparr>mpc := Joining,
           app := (app s)\<lparr>srv_net_server := Ptr (shared_server w fd 0 True)\<rparr>\<rparr>)"
proof -
  have "app_step s (s\<lparr>mpc := Stopping\<rparr>)" using assms(2) by (rule app_step.signal)
  moreover have "app_step (s\<lparr>mpc := Stopping\<rparr>) (s\<lparr>mpc := Joining,
      app := (app s)\<lparr>srv_net_server := Ptr (shared_server w fd 0 True)\<rparr>\<rparr>)"
    using assms by (intro app_step.main)
      (simp add: main_step_def sys_inv_def shared_server_def get_receive_data_flag_def
        set_receive_data_flag_def)
  ultimately show ?thesis by (meson converse_rtranclp_into_rtranclp r_into_rtranclp)
qed

lemma reaches_exit_any:
  assumes "sys_inv fd w s" "0 \<le> fd" "fd \<notin> open_fds (app_kernel w)"
  shows "\<exists>t. app_step\<^sup>*\<^sup>* s t \<and> mpc t = Exited"
proof -
  have from_stop: "\<exists>t. app_step\<^sup>*\<^sup>* u t \<and> mpc t = Exited" if u: "sys_inv fd w u" "mpc u = Stopping" for u
  proof -
    obtain t where t: "main_step u = Some t" using u(2) by (simp add: main_step_def)
    then have st: "app_step u t" by (rule app_step.main)
    from reaches_exit [OF sys_inv_step [OF st u(1) assms(2,3)] _ assms(2,3)] stop_rank_main [OF u(1) t]
      st show ?thesis by (meson converse_rtranclp_into_rtranclp)
  qed
  show ?thesis
  proof (cases "mpc s")
    case Pausing
    then have st: "app_step s (s\<lparr>mpc := Stopping\<rparr>)" by (rule app_step.signal)
    from from_stop [OF sys_inv_step [OF st assms]] st show ?thesis
      by (metis converse_rtranclp_into_rtranclp server_sys.select_convs(1) server_sys.surjective
          server_sys.update_convs(1))
  qed (use from_stop reaches_exit assms in simp_all)
qed

section \<open>Every sequential run is a run of the threads\<close>

lemma thread_steps:
  assumes "sys_inv fd w s" "mpc s = Pausing" "tpc s = AtFlag"
  shows "\<exists>t. app_step\<^sup>*\<^sup>* s t \<and> mpc t = Pausing \<and> tpc t \<in> {AtFlag, ThreadDone} \<and>
           recv_loop (the_callback w) [(1, r)] (world s) = (Ok (tpc t = AtFlag), world t)"
proof -
  have st: "srv_net_server (app s) = Ptr (shared_server w fd 1 True)"
    "srv_file_mngr (app s) = Ptr (server_file_mngr (app_disk w))"
    "fd \<in> open_fds (app_kernel (world s))" "\<not> crashed s"
    using assms by (simp_all add: sys_inv_def open_fd_def)
  let ?u = "s\<lparr>tpc := AtRecv\<rparr>"
  have u: "app_step s ?u"
    using app_step.thread [of s TimedOut] assms(3) st(1)
    by (simp add: thread_step_def shared_server_def get_receive_data_flag_def)
  have v: "app_step ?u (thread_step r ?u)" by (rule app_step.thread) simp
  have uv: "app_step\<^sup>*\<^sup>* s (thread_step r ?u)" using u v by (meson r_into_rtranclp rtranclp_trans)
  have step: "thread_step r ?u = s\<lparr>tpc := (case r of
      Received ip port bytes \<Rightarrow>
        if bytes \<noteq> [] then AtCallback ip port (take SERVER_BUFFER_SIZE bytes) else AtFlag
    | TimedOut \<Rightarrow> AtFlag | RecvFails e \<Rightarrow> ThreadDone), received := received s @ [r]\<rparr>"
    using st(1,3) by (simp add: thread_step_def shared_server_def)
  show ?thesis
  proof (cases "\<exists>ip port bytes. r = Received ip port bytes \<and> bytes \<noteq> []")
    case True
    then obtain ip port bytes where r: "r = Received ip port bytes" "bytes \<noteq> []" by blast
    let ?b = "take SERVER_BUFFER_SIZE bytes"
    obtain d os where cb: "the_callback w ip port ?b (world s) =
        (Ok (), (world s)\<lparr>app_disk := d, write_outcomes := os\<rparr>)"
      using the_callback_safe by blast
    let ?t = "thread_step TimedOut (thread_step r ?u)"
    have "app_step (thread_step r ?u) ?t"
      by (rule app_step.thread) (use step r in simp)
    with uv have "app_step\<^sup>*\<^sup>* s ?t" by simp
    moreover have "mpc ?t = Pausing" "tpc ?t = AtFlag"
      "world ?t = (world s)\<lparr>app_disk := d, write_outcomes := os\<rparr>"
      using step r cb st(1,2) assms(2)
      by (simp_all add: thread_step_def shared_server_def the_callback_def)
    ultimately show ?thesis using r cb by (intro exI [of _ ?t]) simp
  next
    case False
    then show ?thesis
      using uv step assms(2)
      by (intro exI [of _ "thread_step r ?u"]) (cases r; simp)
  qed
qed

lemma thread_runs:
  assumes "sys_inv fd w s" "mpc s = Pausing" "tpc s = AtFlag" "0 \<le> fd" "fd \<notin> open_fds (app_kernel w)"
  shows "\<exists>t. app_step\<^sup>*\<^sup>* s t \<and> mpc t = Pausing \<and> tpc t \<in> {AtFlag, ThreadDone} \<and>
           recv_loop (the_callback w) (map (Pair 1) rs) (world s) = (Ok (tpc t = AtFlag), world t)"
  using assms(1-3)
proof (induction rs arbitrary: s)
  case Nil
  then show ?case by (intro exI [of _ s]) simp
next
  case (Cons r rs)
  from thread_steps [OF Cons.prems, of r] obtain u where u: "app_step\<^sup>*\<^sup>* s u" "mpc u = Pausing"
    "tpc u \<in> {AtFlag, ThreadDone}"
    "recv_loop (the_callback w) [(1, r)] (world s) = (Ok (tpc u = AtFlag), world u)" by blast
  have inv: "sys_inv fd w u"
    using u(1) by (induction rule: rtranclp_induct) (use Cons.prems(1) sys_inv_step assms(4,5) in blast)+
  have app: "recv_loop (the_callback w) (map (Pair 1) (r # rs)) (world s) =
      (case recv_loop (the_callback w) [(1, r)] (world s) of
         (Ok True, w') \<Rightarrow> recv_loop (the_callback w) (map (Pair 1) rs) w' | x \<Rightarrow> x)"
    using recv_loop_append [of "the_callback w" "[(1, r)]" "map (Pair 1) rs"] by simp
  show ?case
  proof (cases "tpc u = AtFlag")
    case True
    from Cons.IH [OF inv u(2) True] u(1,4) app True show ?thesis
      by (auto intro: rtranclp_trans)
  next
    case False
    with u app show ?thesis by (intro exI [of _ u]) simp
  qed
qed

lemma main_finishes:
  assumes "sys_inv fd w s" "mpc s = Joining" "tpc s = ThreadDone" "0 \<le> fd"
    and "fd \<notin> open_fds (app_kernel w)"
  shows "\<exists>t. app_step\<^sup>*\<^sup>* s t \<and> mpc t = Exited \<and> world t = (world s)\<lparr>app_kernel := app_kernel w\<rparr>"
proof -
  let ?a = "s\<lparr>mpc := Destroying, app := (app s)\<lparr>srv_net_server := Ptr (shared_server w fd 0 False)\<rparr>\<rparr>"
  let ?w = "(world s)\<lparr>app_kernel := app_kernel w\<rparr>"
  let ?b = "?a\<lparr>mpc := ClosingFile, app := (app s)\<lparr>srv_net_server := Freed\<rparr>, world := ?w\<rparr>"
  let ?c = "?b\<lparr>mpc := Exited, app := (app s)\<lparr>srv_file_mngr := Freed, srv_net_server := Freed\<rparr>\<rparr>"
  have st: "srv_net_server (app s) = Ptr (shared_server w fd 0 True)"
    "srv_file_mngr (app s) = Ptr (server_file_mngr (app_disk w))"
    "app_kernel (world s) = open_fd fd (app_kernel w)" "\<not> crashed s"
    using assms by (simp_all add: sys_inv_def)
  have "main_step s = Some ?a"
    using assms(2,3) st(1) by (simp add: main_step_def shared_server_def)
  moreover have "main_step ?a = Some ?b"
    using st(3,4) assms(4,5)
    by (simp add: main_step_def net_server_destroy_def cleanup_server_def shared_server_def)
  moreover have "main_step ?b = Some ?c"
    using st(2,4) by (simp add: main_step_def ram_file_destroy_def server_file_mngr_def)
  ultimately have "app_step\<^sup>*\<^sup>* s ?c"
    by (meson app_step.main converse_rtranclp_into_rtranclp rtranclp.rtrancl_refl)
  then show ?thesis by (intro exI [of _ ?c]) simp
qed

text \<open>The outcome of the sequential program in terms of the loop.\<close>

lemma server_main_recv:
  assumes "no_failure env fd" "0 \<le> fd" "fd \<notin> open_fds (app_kernel w)"
    and "recv_loop (the_callback w) (map (Pair 1) rs @ [(0, TimedOut)]) (start_world fd w) = (Ok b, v)"
    and "app_kernel v = open_fd fd (app_kernel w)"
  shows "server_main (env\<lparr>srv_received := rs\<rparr>) w = (Success, v\<lparr>app_kernel := app_kernel w\<rparr>)"
proof -
  have "no_failure (env\<lparr>srv_received := rs\<rparr>) fd" using assms(1) by (simp add: no_failure_def)
  from server_main_clean [OF this assms(2), of w] assms(3-5) show ?thesis
    by (simp add: server_turns_def the_callback_def start_world_def)
qed

lemma threads_to_sequential:
  assumes "sys_inv fd w s" "mpc s = Exited" "no_failure env fd" "0 \<le> fd" "fd \<notin> open_fds (app_kernel w)"
  shows "server_main (env\<lparr>srv_received := received s\<rparr>) w = (Success, world s)"
proof -
  have "recv_loop (the_callback w) (map (Pair 1) (received s) @ [(0, TimedOut)]) (start_world fd w) =
      (Ok False, (world s)\<lparr>app_kernel := open_fd fd (app_kernel w)\<rparr>)"
    and "app_kernel (world s) = app_kernel w"
    using assms(1,2) by (auto simp: sys_inv_def thread_done_so_far_def)
  from server_main_recv [OF assms(3-5) this(1)] this(2) show ?thesis by simp
qed

lemma sequential_to_threads:
  assumes "no_failure env fd" "0 \<le> fd" "fd \<notin> open_fds (app_kernel w)"
    and "server_main (env\<lparr>srv_received := rs\<rparr>) w = (Success, w')"
  shows "\<exists>s. app_step\<^sup>*\<^sup>* (sys_start env w) s \<and> mpc s = Exited \<and> world s = w'"
proof -
  let ?s = "sys_start env w"
  have inv: "sys_inv fd w ?s" by (rule sys_inv_start [OF assms(1)])
  have s: "mpc ?s = Pausing" "tpc ?s = AtFlag" "world ?s = start_world fd w"
    using sys_start_eq [OF assms(1)] by simp_all
  from thread_runs [OF inv s(1,2) assms(2,3), of rs] obtain t where t: "app_step\<^sup>*\<^sup>* ?s t"
    "mpc t = Pausing" "tpc t \<in> {AtFlag, ThreadDone}"
    "recv_loop (the_callback w) (map (Pair 1) rs) (start_world fd w) = (Ok (tpc t = AtFlag), world t)"
    using s(3) by auto
  note it = reachable_inv [OF t(1) assms(1-3)]
  have k: "app_kernel (world t) = open_fd fd (app_kernel w)" using it t(2) by (simp add: sys_inv_def)
  have "recv_loop (the_callback w) (map (Pair 1) rs @ [(0, TimedOut)]) (start_world fd w) =
      (Ok False, world t)"
    using t(3,4) by (auto simp: recv_loop_append)
  from server_main_recv [OF assms(1-3) this k] assms(4)
  have w': "w' = (world t)\<lparr>app_kernel := app_kernel w\<rparr>" by simp
  let ?u = "t\<lparr>mpc := Joining, app := (app t)\<lparr>srv_net_server := Ptr (shared_server w fd 0 True)\<rparr>\<rparr>"
  have u: "app_step\<^sup>*\<^sup>* ?s ?u" using t(1) signal_steps [OF it t(2)] by (rule rtranclp_trans)
  obtain v where v: "app_step\<^sup>*\<^sup>* ?s v" "mpc v = Joining" "tpc v = ThreadDone" "world v = world t"
  proof (cases "tpc t = ThreadDone")
    case True
    then show thesis using that [of ?u] u by simp
  next
    case False
    then have "tpc ?u = AtFlag" using t(3) by simp
    then have "app_step ?u (thread_step TimedOut ?u)" by (intro app_step.thread) simp
    moreover have "thread_step TimedOut ?u = ?u\<lparr>tpc := ThreadDone\<rparr>"
      using \<open>tpc ?u = AtFlag\<close>
      by (simp add: thread_step_def shared_server_def get_receive_data_flag_def)
    ultimately have "app_step ?u (?u\<lparr>tpc := ThreadDone\<rparr>)" by (simp only:)
    with u have "app_step\<^sup>*\<^sup>* ?s (?u\<lparr>tpc := ThreadDone\<rparr>)" by (rule rtranclp.rtrancl_into_rtrancl)
    then show thesis using that [of "?u\<lparr>tpc := ThreadDone\<rparr>"] by simp
  qed
  from main_finishes [OF reachable_inv [OF v(1) assms(1-3)] v(2,3) assms(2,3)] v(1,4) w'
  show ?thesis by (auto intro: rtranclp_trans)
qed

section \<open>Properties\<close>

text \<open>
  C8 (safety). In no interleaving does the receiving thread touch a freed server, a closed
  socket or a freed file manager: the server and its file live until the thread has ended. At
  the end both are freed and the socket is closed.
\<close>

theorem server_threads_safe:
  assumes "app_step\<^sup>*\<^sup>* (sys_start env w) s" "no_failure env fd" "0 \<le> fd"
    and "fd \<notin> open_fds (app_kernel w)"
  shows "\<not> crashed s \<and>
         (tpc s \<noteq> ThreadDone \<longrightarrow> (\<exists>srv. srv_net_server (app s) = Ptr srv \<and>
            sock_fd srv \<in> open_fds (app_kernel (world s))) \<and> (\<exists>m. srv_file_mngr (app s) = Ptr m)) \<and>
         (mpc s = Exited \<longrightarrow> tpc s = ThreadDone \<and> srv_net_server (app s) = Freed \<and>
            srv_file_mngr (app s) = Freed \<and> app_kernel (world s) = app_kernel w)"
proof -
  note inv = reachable_inv [OF assms]
  have "(\<exists>srv. srv_net_server (app s) = Ptr srv \<and> sock_fd srv \<in> open_fds (app_kernel (world s))) \<and>
      (\<exists>m. srv_file_mngr (app s) = Ptr m)" if "tpc s \<noteq> ThreadDone"
    by (rule inv_running [OF inv that]) (auto simp: shared_server_def open_fd_def)
  with inv show ?thesis by (simp add: sys_inv_def)
qed

lemma sample_no_failure:
  "no_failure (sample_server_env rs) 3 \<and> 3 \<notin> open_fds (app_kernel sample_server_world)"
  by (simp add: no_failure_def sample_server_env_def sample_server_world_def)

theorem server_threads_safe_witness:
  "\<exists>s. app_step\<^sup>*\<^sup>* (sys_start (sample_server_env []) sample_server_world) s \<and> mpc s = Exited \<and> \<not> crashed s"
proof -
  have inv: "sys_inv 3 sample_server_world (sys_start (sample_server_env []) sample_server_world)"
    using sample_no_failure by (blast intro: sys_inv_start)
  have h: "no_failure (sample_server_env []) 3" "3 \<notin> open_fds (app_kernel sample_server_world)" "0 \<le> (3 :: int)"
    using sample_no_failure by simp_all
  obtain s where s: "app_step\<^sup>*\<^sup>* (sys_start (sample_server_env []) sample_server_world) s" "mpc s = Exited"
    using reaches_exit_any [OF inv h(3,2)] by blast
  from server_threads_safe [OF s(1) h(1,3,2)] s show ?thesis by blast
qed

text \<open>
  C4 (equivalence). The interleavings of the two threads and the sequential program have the same
  outcomes: the worlds in which the threads can end are those in which \<open>server_main\<close> ends for some
  sequence of results of \<open>recvfrom\<close>.
\<close>

theorem server_threads_sequential:
  assumes "no_failure env fd" "0 \<le> fd" "fd \<notin> open_fds (app_kernel w)"
  shows "{world s | s. app_step\<^sup>*\<^sup>* (sys_start env w) s \<and> mpc s = Exited} =
         {w'. \<exists>rs. server_main (env\<lparr>srv_received := rs\<rparr>) w = (Success, w')}"
proof (intro equalityI subsetI)
  fix w' assume "w' \<in> {world s | s. app_step\<^sup>*\<^sup>* (sys_start env w) s \<and> mpc s = Exited}"
  then obtain s where s: "app_step\<^sup>*\<^sup>* (sys_start env w) s" "mpc s = Exited" "w' = world s" by blast
  from threads_to_sequential [OF reachable_inv [OF s(1) assms] s(2) assms] s(3)
  show "w' \<in> {w'. \<exists>rs. server_main (env\<lparr>srv_received := rs\<rparr>) w = (Success, w')}" by blast
next
  fix w' assume "w' \<in> {w'. \<exists>rs. server_main (env\<lparr>srv_received := rs\<rparr>) w = (Success, w')}"
  with sequential_to_threads [OF assms]
  show "w' \<in> {world s | s. app_step\<^sup>*\<^sup>* (sys_start env w) s \<and> mpc s = Exited}" by blast
qed

theorem server_threads_sequential_witness:
  "{world s | s. app_step\<^sup>*\<^sup>* (sys_start (sample_server_env []) sample_server_world) s \<and> mpc s = Exited} =
   {w'. \<exists>rs. server_main (sample_server_env rs) sample_server_world = (Success, w')}"
proof -
  have e: "sample_server_env []\<lparr>srv_received := rs\<rparr> = sample_server_env rs" for rs
    by (simp add: sample_server_env_def)
  have h: "no_failure (sample_server_env []) 3" "0 \<le> (3 :: int)"
    "3 \<notin> open_fds (app_kernel sample_server_world)"
    using sample_no_failure by simp_all
  show ?thesis using server_threads_sequential [OF h] by (simp only: e)
qed

text \<open>
  C11 (liveness). No reachable state but the last is stuck, the end can be reached from each of
  them, and once the flag is cleared the program ends within six steps, whatever the order of the
  threads: \<open>pthread_join\<close> waits for at most one \<open>recvfrom\<close> and one callback.
\<close>

theorem server_threads_end:
  assumes "app_step\<^sup>*\<^sup>* (sys_start env w) s" "no_failure env fd" "0 \<le> fd"
    and "fd \<notin> open_fds (app_kernel w)"
  shows "(mpc s \<noteq> Exited \<longrightarrow> (\<exists>t. app_step s t)) \<and> (\<exists>t. app_step\<^sup>*\<^sup>* s t \<and> mpc t = Exited) \<and>
         (mpc s = Joining \<longrightarrow> (app_step ^^ n) s t \<longrightarrow> n \<le> 6)"
proof -
  note inv = reachable_inv [OF assms]
  have "n \<le> 6" if j: "mpc s = Joining" "(app_step ^^ n) s t"
  proof -
    have "n + stop_rank t \<le> stop_rank s"
      using stop_rank_steps [OF j(2) inv] j(1) assms(3,4) by simp
    moreover have "stop_rank s \<le> 6" using j(1) by (cases "tpc s") (simp_all add: stop_rank_def)
    ultimately show ?thesis by simp
  qed
  with app_step_progress [OF inv] reaches_exit_any [OF inv assms(3,4)] show ?thesis by blast
qed

theorem server_threads_end_witness:
  "\<exists>t. app_step\<^sup>*\<^sup>* (sys_start (sample_server_env []) sample_server_world) t \<and> mpc t = Exited"
proof -
  have h: "no_failure (sample_server_env []) 3" "0 \<le> (3 :: int)"
    "3 \<notin> open_fds (app_kernel sample_server_world)"
    using sample_no_failure by simp_all
  from server_threads_end [OF rtranclp.rtrancl_refl h] show ?thesis by blast
qed

end
