(* ===== verification/File_Creator.thy ===== *)
theory File_Creator
  imports Transfer_Protocol Infra_Log
begin

text \<open>
  \<open>APPS/FILE_CREATOR_APP/file_creator.c\<close>: the program that fills a new file with a given number of
  random bytes. The values of \<open>rand ()\<close> are the stream \<open>rand_values\<close>; the outcome of an \<open>fwrite\<close> is \<open>None\<close>
  or \<open>Some n\<close> if only \<open>n\<close> bytes could be written; \<open>fclose_lost\<close> is the number of bytes at the end
  that \<open>fclose\<close> could not bring to the disk.
\<close>

section \<open>\<open>strtoull\<close> with base 10\<close>

definition is_space :: "char \<Rightarrow> bool" where
  "is_space c \<longleftrightarrow> (let n = (of_char c :: nat) in n = 32 \<or> 9 \<le> n \<and> n \<le> 13)"

definition is_digit :: "char \<Rightarrow> bool" where
  "is_digit c \<longleftrightarrow> (let n = (of_char c :: nat) in 48 \<le> n \<and> n \<le> 57)"

definition dec_value :: "string \<Rightarrow> nat" where
  "dec_value ds = foldl (\<lambda>v c. 10 * v + (of_char c - 48)) 0 ds"

definition split_sign :: "string \<Rightarrow> bool \<times> string" where
  "split_sign s = (case s of
     [] \<Rightarrow> (False, [])
   | c # r \<Rightarrow> if c = CHR ''-'' then (True, r) else if c = CHR ''+'' then (False, r) else (False, s))"

text \<open>The number and the text behind it; without digits 0 and the whole text.\<close>

definition strtoull :: "string \<Rightarrow> u64 \<times> string" where
  "strtoull s =
     (case split_sign (dropWhile is_space s) of
        (neg, u) \<Rightarrow>
          let ds = takeWhile is_digit u; v = dec_value ds
          in if ds = [] then (0, s)
             else ((if 2 ^ 64 \<le> v then - 1 else if neg then - of_nat v else of_nat v),
                   dropWhile is_digit u))"

section \<open>The program\<close>

definition FILE_BUFFER_SIZE :: nat where
  "FILE_BUFFER_SIZE = 1024"

record creator_env =
  fopen_ok :: bool
  rand_values :: "nat \<Rightarrow> nat"
  fwrites :: "nat option list"
  fclose_lost :: nat

text \<open>The position in the stream of random numbers, the outcomes left and the disk.\<close>

record creator_state =
  drawn :: nat
  outcomes :: "nat option list"
  cdisk :: disk

definition fill_buffer :: "(nat \<Rightarrow> nat) \<Rightarrow> nat \<Rightarrow> nat \<Rightarrow> u8 list" where
  "fill_buffer rnd p n = map (\<lambda>j. of_nat (rnd (p + j) mod 256)) [0..<n]"

text \<open>Filling the buffer and writing it to the open file; \<open>False\<close> if not all of it was written.\<close>

definition write_random :: "(nat \<Rightarrow> nat) \<Rightarrow> nat \<Rightarrow> nat \<Rightarrow> creator_state \<Rightarrow> bool \<times> creator_state" where
  "write_random rnd file n s =
     (let buffer = fill_buffer rnd (drawn s) n;
          written = (case first_or None (outcomes s) of None \<Rightarrow> n | Some k \<Rightarrow> min k n);
          d = cdisk s
      in (written = n,
          s\<lparr>drawn := drawn s + n, outcomes := tl (outcomes s),
            cdisk := d\<lparr>contents := (contents d)(file := contents d file @ take written buffer)\<rparr>\<rparr>))"

primrec write_chunks :: "(nat \<Rightarrow> nat) \<Rightarrow> nat \<Rightarrow> nat \<Rightarrow> creator_state \<Rightarrow> bool \<times> creator_state" where
  "write_chunks rnd file 0 s = (True, s)"
| "write_chunks rnd file (Suc full_chunks) s =
     (case write_random rnd file FILE_BUFFER_SIZE s of
        (ok, s) \<Rightarrow> if ok then write_chunks rnd file full_chunks s else (False, s))"

text \<open>\<open>fclose\<close>, whose result the code does not look at.\<close>

definition close_file :: "creator_env \<Rightarrow> nat \<Rightarrow> disk \<Rightarrow> disk" where
  "close_file env file d =
     d\<lparr>contents := (contents d)
        (file := take (length (contents d file) - fclose_lost env) (contents d file))\<rparr>"

text \<open>\<open>True\<close> stands for the result 0 and \<open>False\<close> for -1.\<close>

definition creating_data_file :: "creator_env \<Rightarrow> string \<Rightarrow> u64 \<Rightarrow> disk \<Rightarrow> bool \<times> disk" where
  "creating_data_file env path f_size d =
     (if \<not> fopen_ok env then (False, d)
      else
        case open_new path d of
          (file, d) \<Rightarrow>
            (case write_chunks (rand_values env) file (unat f_size div FILE_BUFFER_SIZE)
                    \<lparr>drawn = 0, outcomes = fwrites env, cdisk = d\<rparr> of
               (False, s) \<Rightarrow> (False, close_file env file (cdisk s))
             | (True, s) \<Rightarrow>
                 let remaining = unat f_size mod FILE_BUFFER_SIZE
                 in if remaining > 0
                    then (case write_random (rand_values env) file remaining s of
                            (ok, s) \<Rightarrow> (ok, close_file env file (cdisk s)))
                    else (True, close_file env file (cdisk s))))"

definition creator_main :: "creator_env \<Rightarrow> string list \<Rightarrow> disk \<Rightarrow> exit_status \<times> disk" where
  "creator_main env argv d =
     (if length argv \<noteq> 3 then (Failure, d)
      else
        let file_path = argv ! 1
        in case strtoull (argv ! 2) of
             (file_size, endptr) \<Rightarrow>
               if endptr \<noteq> [] \<or> file_size = 0 then (Failure, d)
               else
                 (case creating_data_file env file_path file_size d of
                    (ok, d) \<Rightarrow> (if ok then Success else Failure, d)))"

section \<open>Decimal numbers\<close>

lemma dec_value_snoc [simp]: "dec_value (ds @ [c]) = 10 * dec_value ds + (of_char c - 48)"
  by (simp add: dec_value_def)

lemma digit_char:
  assumes "n < 10"
  shows "of_char (char_of (48 + n) :: char) = (48 + n :: nat)" "is_digit (char_of (48 + n))"
  using assms by (simp_all add: is_digit_def)

lemma digits_props: "dec_value (digits n) = n \<and> (\<forall>c \<in> set (digits n). is_digit c) \<and> digits n \<noteq> []"
proof (induction n rule: digits.induct)
  case (1 n)
  show ?case
  proof (cases "n < 10")
    case True
    then show ?thesis using digit_char [OF True] dec_value_snoc [of "[]" "char_of (48 + n)"]
      by (simp add: digits.simps [of n] dec_value_def)
  next
    case False
    have "n mod 10 < 10" by simp
    from digit_char [OF this] 1 [OF False] show ?thesis
      using False by (simp add: digits.simps [of n])
  qed
qed

lemma digit_not_special: "is_digit c \<Longrightarrow> \<not> is_space c \<and> c \<noteq> CHR ''-'' \<and> c \<noteq> CHR ''+''"
  by (auto simp: is_digit_def is_space_def Let_def)

lemma takeWhile_digits [simp]: "takeWhile is_digit (digits n) = digits n" "dropWhile is_digit (digits n) = []"
  using digits_props [of n] by (simp_all add: takeWhile_eq_all_conv dropWhile_eq_Nil_conv)

lemma strtoull_digits:
  "strtoull (digits n) = (if n < 2 ^ 64 then of_nat n else - 1, []) \<and>
   strtoull (CHR ''-'' # digits n) = (if n < 2 ^ 64 then - of_nat n else - 1, [])"
proof -
  obtain c r where cr: "digits n = c # r" using digits_props [of n] by (cases "digits n") auto
  then have "is_digit c" using digits_props [of n] by simp
  note c = digit_not_special [OF this]
  have "dropWhile is_space (digits n) = digits n" "split_sign (digits n) = (False, digits n)"
    using c cr by (simp_all add: split_sign_def)
  moreover have "dropWhile is_space (CHR ''-'' # digits n) = CHR ''-'' # digits n"
    by (simp add: is_space_def)
  ultimately show ?thesis
    using digits_props [of n] by (simp add: strtoull_def split_sign_def Let_def)
qed

lemma strtoull_3: "strtoull ''3'' = (3, [])"
proof -
  have "(char_of (51 :: nat) :: char) = CHR ''3''" by code_simp
  then have "digits 3 = ''3''" by (simp add: digits.simps)
  then show ?thesis using strtoull_digits [of 3] by simp
qed

lemma strtoull_garbage:
  assumes "\<not> is_digit c"
  shows "snd (strtoull (digits n @ c # rest)) \<noteq> []"
proof -
  obtain e r where cr: "digits n = e # r" using digits_props [of n] by (cases "digits n") auto
  then have "is_digit e" using digits_props [of n] by simp
  note e = digit_not_special [OF this]
  have "dropWhile is_space (digits n @ c # rest) = digits n @ c # rest"
    "split_sign (digits n @ c # rest) = (False, digits n @ c # rest)"
    using e cr by (simp_all add: split_sign_def)
  moreover have "takeWhile is_digit (digits n @ c # rest) = digits n"
    "dropWhile is_digit (digits n @ c # rest) = c # rest"
    using digits_props [of n] assms by (simp_all add: takeWhile_append2 dropWhile_append2)
  ultimately show ?thesis using digits_props [of n] by (simp add: strtoull_def Let_def)
qed

section \<open>What the program writes\<close>

lemma length_fill_buffer [simp]: "length (fill_buffer r p n) = n"
  by (simp add: fill_buffer_def)

lemma fill_buffer_add: "fill_buffer r p m @ fill_buffer r (p + m) n = fill_buffer r p (m + n)"
  by (rule nth_equalityI) (auto simp: fill_buffer_def nth_append)

text \<open>Steps that only append bytes \<open>bs\<close> to the file and use up random numbers.\<close>

definition appends :: "nat \<Rightarrow> creator_state \<Rightarrow> u8 list \<Rightarrow> creator_state \<Rightarrow> bool" where
  "appends file s bs t \<longleftrightarrow> drawn t = drawn s + length bs \<and>
     cdisk t = (cdisk s)\<lparr>contents := (contents (cdisk s))(file := contents (cdisk s) file @ bs)\<rparr>"

lemma appends_trans: "appends file s xs t \<Longrightarrow> appends file t ys u \<Longrightarrow> appends file s (xs @ ys) u"
  by (simp add: appends_def)

lemma appends_Nil: "appends file s [] s"
  by (simp add: appends_def)

lemma write_random_ok:
  assumes "write_random r file n s = (True, t)"
  shows "appends file s (fill_buffer r (drawn s) n) t"
  using assms by (auto simp: write_random_def Let_def appends_def)

lemma write_random_all:
  assumes "\<forall>x \<in> set (outcomes s). x = None"
  obtains t where "write_random r file n s = (True, t)" "\<forall>x \<in> set (outcomes t). x = None"
proof -
  have "first_or None (outcomes s) = None" "\<forall>x \<in> set (tl (outcomes s)). x = None"
    using assms by (cases "outcomes s"; simp add: first_or_def)+
  then show thesis
    using that [of "snd (write_random r file n s)"] by (simp add: write_random_def Let_def)
qed

lemma write_chunks_ok:
  "write_chunks r file k s = (True, t) \<Longrightarrow> appends file s (fill_buffer r (drawn s) (1024 * k)) t"
proof (induction k arbitrary: s)
  case 0
  then show ?case using appends_Nil by (simp add: fill_buffer_def)
next
  case (Suc k)
  then obtain u where u: "write_random r file 1024 s = (True, u)" "write_chunks r file k u = (True, t)"
    by (auto simp: FILE_BUFFER_SIZE_def split: prod.splits if_splits)
  note a = write_random_ok [OF u(1)]
  have "fill_buffer r (drawn s) 1024 @ fill_buffer r (drawn u) (1024 * k) =
      fill_buffer r (drawn s) (1024 * Suc k)"
    using a fill_buffer_add [of r "drawn s" 1024 "1024 * k"] by (simp add: appends_def)
  with appends_trans [OF a Suc.IH [OF u(2)]] show ?case by simp
qed

lemma write_chunks_all:
  "\<forall>x \<in> set (outcomes s). x = None \<Longrightarrow>
     \<exists>t. write_chunks r file k s = (True, t) \<and> (\<forall>x \<in> set (outcomes t). x = None)"
proof (induction k arbitrary: s)
  case (Suc k)
  obtain u where u: "write_random r file 1024 s = (True, u)" "\<forall>x \<in> set (outcomes u). x = None"
    by (rule write_random_all [OF Suc.prems])
  from Suc.IH [OF u(2)] u(1) show ?case by (simp add: FILE_BUFFER_SIZE_def)
qed simp

text \<open>The disk after a complete run over the file opened for \<open>path\<close>.\<close>

definition created :: "creator_env \<Rightarrow> string \<Rightarrow> nat \<Rightarrow> disk \<Rightarrow> disk" where
  "created env path n d =
     (case open_new path d of (i, d) \<Rightarrow>
        d\<lparr>contents := (contents d)(i := take (n - fclose_lost env) (fill_buffer (rand_values env) 0 n))\<rparr>)"

lemma open_new_empty: "contents (snd (open_new path d)) (fst (open_new path d)) = []"
  by (simp add: open_new_def split: option.split)

lemma close_appended:
  assumes "appends file \<lparr>drawn = 0, outcomes = os, cdisk = d\<rparr> bs t" "contents d file = []"
  shows "close_file env file (cdisk t) =
           d\<lparr>contents := (contents d)(file := take (length bs - fclose_lost env) bs)\<rparr>"
  using assms by (simp add: appends_def close_file_def)

lemma creating_data_file_True:
  assumes "creating_data_file env path sz d = (True, d')"
  shows "d' = created env path (unat sz) d"
proof -
  let ?n = "unat sz" and ?r = "rand_values env"
  obtain i d1 where o: "open_new path d = (i, d1)" by (cases "open_new path d")
  have e: "contents d1 i = []" using open_new_empty [of path d] o by simp
  let ?s0 = "\<lparr>drawn = 0, outcomes = fwrites env, cdisk = d1\<rparr>"
  from assms o obtain s where s: "write_chunks ?r i (?n div 1024) ?s0 = (True, s)"
    by (auto simp: creating_data_file_def FILE_BUFFER_SIZE_def split: if_splits prod.splits bool.splits)
  note a = write_chunks_ok [OF s]
  show ?thesis
  proof (cases "?n mod 1024 = 0")
    case True
    then have "1024 * (?n div 1024) = ?n" by (metis mult_div_mod_eq add_0_right)
    with a have "appends i ?s0 (fill_buffer ?r 0 ?n) s" by simp
    from close_appended [OF this e] show ?thesis
      using assms o s True
      by (simp add: creating_data_file_def FILE_BUFFER_SIZE_def created_def split: if_splits)
  next
    case False
    with assms o s obtain t where t: "write_random ?r i (?n mod 1024) s = (True, t)"
      "d' = close_file env i (cdisk t)"
      by (auto simp: creating_data_file_def FILE_BUFFER_SIZE_def Let_def split: if_splits prod.splits)
    have "fill_buffer ?r 0 (1024 * (?n div 1024)) @ fill_buffer ?r (drawn s) (?n mod 1024) =
        fill_buffer ?r 0 ?n"
      using a fill_buffer_add [of ?r 0 "1024 * (?n div 1024)" "?n mod 1024"] by (simp add: appends_def)
    with appends_trans [OF a write_random_ok [OF t(1)]]
    have "appends i ?s0 (fill_buffer ?r 0 ?n) t" by simp
    from close_appended [OF this e] show ?thesis using t(2) o by (simp add: created_def)
  qed
qed

lemma creating_data_file_all:
  assumes "fopen_ok env" "\<forall>x \<in> set (fwrites env). x = None"
  shows "fst (creating_data_file env path sz d)"
proof -
  obtain i d1 where o: "open_new path d = (i, d1)" by (cases "open_new path d")
  let ?s0 = "\<lparr>drawn = 0, outcomes = fwrites env, cdisk = d1\<rparr>" and ?k = "unat sz div 1024"
  have "\<forall>x \<in> set (outcomes ?s0). x = None" using assms(2) by simp
  from write_chunks_all [OF this, of "rand_values env" i ?k] obtain t where
    t: "write_chunks (rand_values env) i ?k ?s0 = (True, t)" "\<forall>x \<in> set (outcomes t). x = None" by blast
  obtain u where "write_random (rand_values env) i (unat sz mod 1024) t = (True, u)"
    by (rule write_random_all [OF t(2)])
  with t(1) o assms(1) show ?thesis
    by (simp add: creating_data_file_def FILE_BUFFER_SIZE_def Let_def)
qed

section \<open>Properties\<close>

definition file_at :: "string \<Rightarrow> disk \<Rightarrow> u8 list" where
  "file_at path d = (case directory d path of Some i \<Rightarrow> contents d i | None \<Rightarrow> [])"

lemma created_file:
  "\<exists>i. directory (created env path n d) path = Some i \<and>
       contents (created env path n d) i = take (n - fclose_lost env) (fill_buffer (rand_values env) 0 n) \<and>
       (\<forall>j. j \<noteq> i \<longrightarrow> contents (created env path n d) j = contents d j) \<and>
       (\<forall>p. p \<noteq> path \<longrightarrow> directory (created env path n d) p = directory d p)"
  by (simp add: created_def open_new_def split: option.split)

lemma creator_main_run:
  assumes "strtoull arg = (n, [])" "n \<noteq> 0" "fopen_ok env" "\<forall>x \<in> set (fwrites env). x = None"
  shows "creator_main env [prog, path, arg] d = (Success, created env path (unat n) d)"
proof -
  obtain d' where r: "creating_data_file env path n d = (True, d')"
    using creating_data_file_all [OF assms(3,4), of path n d] by (metis prod.collapse)
  from creating_data_file_True [OF r] r assms(1,2) show ?thesis by (simp add: creator_main_def)
qed

text \<open>
  C22 (functional). Status 0 means that the size was a number other than 0, and that the file of
  the given name holds exactly that many bytes, each the next value of \<open>rand ()\<close> modulo 256, except
  for those at the end that \<open>fclose\<close> failed to write, which the program does not notice. No other
  file or name changes.
\<close>

theorem creator_success:
  assumes "creator_main env argv d = (Success, d')"
  shows "\<exists>prog path arg n i. argv = [prog, path, arg] \<and> strtoull arg = (n, []) \<and> n \<noteq> 0 \<and>
           directory d' path = Some i \<and>
           contents d' i = take (unat n - fclose_lost env)
             (map (\<lambda>k. of_nat (rand_values env k mod 256)) [0..<unat n]) \<and>
           (\<forall>j. j \<noteq> i \<longrightarrow> contents d' j = contents d j) \<and>
           (\<forall>p. p \<noteq> path \<longrightarrow> directory d' p = directory d p)"
proof -
  have "length argv = 3" using assms by (simp add: creator_main_def split: if_splits)
  then obtain prog path arg where argv: "argv = [prog, path, arg]"
    by (auto simp: numeral_3_eq_3 length_Suc_conv)
  obtain n r where t: "strtoull arg = (n, r)" by (cases "strtoull arg")
  with assms argv have n: "r = []" "n \<noteq> 0" by (auto simp: creator_main_def split: if_splits)
  with t assms argv have "creating_data_file env path n d = (True, d')"
    by (auto simp: creator_main_def split: prod.splits if_splits)
  from creating_data_file_True [OF this] created_file [of env path "unat n" d] obtain i where
    "directory d' path = Some i"
    "contents d' i = take (unat n - fclose_lost env) (fill_buffer (rand_values env) 0 (unat n))"
    "\<forall>j. j \<noteq> i \<longrightarrow> contents d' j = contents d j" "\<forall>p. p \<noteq> path \<longrightarrow> directory d' p = directory d p"
    by blast
  with argv t n show ?thesis by (simp add: fill_buffer_def)
qed

definition sample_creator_env :: creator_env where
  "sample_creator_env = \<lparr>fopen_ok = True, rand_values = (\<lambda>k. 300 * k), fwrites = [], fclose_lost = 0\<rparr>"

definition no_files :: disk where
  "no_files = \<lparr>directory = Map.empty, contents = (\<lambda>_. []), next_file = 0\<rparr>"

lemma sample_creator_run:
  "creator_main sample_creator_env [''prog'', ''x.bin'', ''3''] no_files =
     (Success, created sample_creator_env ''x.bin'' 3 no_files)"
proof -
  from creator_main_run [OF strtoull_3, of sample_creator_env] show ?thesis
    by (simp add: sample_creator_env_def)
qed

theorem creator_success_witness:
  "\<exists>i. contents (snd (creator_main sample_creator_env [''prog'', ''x.bin'', ''3''] no_files)) i = [0, 44, 88]"
proof -
  have e: "map (\<lambda>k. of_nat (300 * k mod 256)) [0..<3] = ([0, 44, 88] :: u8 list)" by code_simp
  from creator_success [OF sample_creator_run] obtain i where
    "contents (created sample_creator_env ''x.bin'' 3 no_files) i =
       take (unat (3 :: u64) - fclose_lost sample_creator_env)
         (map (\<lambda>k. of_nat (rand_values sample_creator_env k mod 256)) [0..<unat (3 :: u64)])"
    by (auto simp: strtoull_3)
  then have "contents (created sample_creator_env ''x.bin'' 3 no_files) i = [0, 44, 88]"
    using e by (simp add: sample_creator_env_def)
  then show ?thesis using sample_creator_run by auto
qed

text \<open>
  C40 (functional). What the size argument means when no call fails. A decimal number up to
  \<open>2 ^ 64 - 1\<close> other than 0 gives a file of that size, whatever was in a file of that name before; a
  larger number is not refused but gives \<open>2 ^ 64 - 1\<close> bytes; a negative number is not refused
  either and asks for \<open>2 ^ 64\<close> minus that many bytes (\<open>2 ^ 64 - 1\<close> when it is out of range). Zero, and a text that
  goes on behind its digits, are refused with nothing touched.
\<close>

theorem creator_sizes:
  assumes "fopen_ok env" "\<forall>x \<in> set (fwrites env). x = None" "fclose_lost env = 0" "\<not> is_digit c"
  shows "(if n = 0
          then creator_main env [prog, path, digits n] d = (Failure, d) \<and>
               creator_main env [prog, path, CHR ''-'' # digits n] d = (Failure, d)
          else \<exists>d1 d2. creator_main env [prog, path, digits n] d = (Success, d1) \<and>
               length (file_at path d1) = min n (2 ^ 64 - 1) \<and>
               creator_main env [prog, path, CHR ''-'' # digits n] d = (Success, d2) \<and>
               length (file_at path d2) = (if n < 2 ^ 64 then 2 ^ 64 - n else 2 ^ 64 - 1)) \<and>
         creator_main env [prog, path, digits n @ c # rest] d = (Failure, d)"
proof -
  note st = strtoull_digits [of n]
  have len: "length (file_at path (created env path k d)) = k" for k
    using created_file [of env path k d] assms(3) by (auto simp: file_at_def)
  have run: "\<exists>d'. creator_main env [prog, path, arg] d = (Success, d') \<and> length (file_at path d') = unat v"
    if "strtoull arg = (v, [])" "v \<noteq> 0" for arg v
    using creator_main_run [OF that assms(1,2)] len by blast
  have top: "unat (- 1 :: u64) = 2 ^ 64 - 1" by (simp add: unsigned_minus_1_eq_mask mask_eq_exp_minus_1)
  have garbage: "creator_main env [prog, path, digits n @ c # rest] d = (Failure, d)"
    using strtoull_garbage [OF assms(4), of n rest] by (auto simp: creator_main_def split: prod.split)
  consider (zero) "n = 0" | (fits) "0 < n" "n < 2 ^ 64" | (large) "2 ^ 64 \<le> n" by linarith
  then show ?thesis
  proof cases
    case zero
    with st garbage show ?thesis by (simp add: creator_main_def)
  next
    case fits
    have u: "unat (of_nat n :: u64) = n" "unat (of_nat (2 ^ 64 - n) :: u64) = 2 ^ 64 - n"
      using fits by (intro unat_of_nat_lt; simp)+
    have "of_nat n + of_nat (2 ^ 64 - n) = (of_nat (2 ^ 64) :: u64)"
      using fits(2) by (metis le_add_diff_inverse less_imp_le of_nat_add)
    also have "\<dots> = 0" by simp
    finally have neg: "- of_nat n = (of_nat (2 ^ 64 - n) :: u64)" by (rule minus_unique)
    have nz: "of_nat n \<noteq> (0 :: u64)" "- of_nat n \<noteq> (0 :: u64)"
      using u(1) fits(1) by (metis neg_equal_0_iff_equal not_less_zero unat_0)+
    have s1: "strtoull (digits n) = (of_nat n, [])" "strtoull (CHR ''-'' # digits n) = (- of_nat n, [])"
      using st fits(2) by simp_all
    have m: "min n (2 ^ 64 - 1) = n" "n \<noteq> 0" using fits by simp_all
    show ?thesis
      using run [OF s1(1) nz(1), unfolded u] run [OF s1(2) nz(2), unfolded neg u] garbage fits(2)
      unfolding if_not_P [OF m(2)] m(1) by auto
  next
    case large
    then have s1: "strtoull (digits n) = (- 1, [])" "strtoull (CHR ''-'' # digits n) = (- 1, [])"
      and m: "min n (2 ^ 64 - 1) = 2 ^ 64 - 1" "n \<noteq> 0" "\<not> n < 2 ^ 64"
      using st by simp_all
    have nz: "(- 1 :: u64) \<noteq> 0" by simp
    show ?thesis
      using run [OF s1(1) nz, unfolded top] run [OF s1(2) nz, unfolded top] garbage
      unfolding if_not_P [OF m(2)] if_not_P [OF m(3)] m(1) by blast
  qed
qed

theorem creator_sizes_witness:
  "\<exists>d2. creator_main sample_creator_env [''prog'', ''x.bin'', CHR ''-'' # digits 1] no_files = (Success, d2) \<and>
        length (file_at ''x.bin'' d2) = 18446744073709551615"
proof -
  have h: "fopen_ok sample_creator_env" "\<forall>x \<in> set (fwrites sample_creator_env). x = None"
    "fclose_lost sample_creator_env = 0" "\<not> is_digit CHR ''k''"
    by (simp_all add: sample_creator_env_def is_digit_def)
  from creator_sizes [OF h, of 1 "''prog''" "''x.bin''" no_files] show ?thesis by auto
qed

end
