(* ===== verification/Spec2Isabelle.thy ===== *)
theory Spec2Isabelle
  imports C_Prelude Id_Pool Client_Mngr Buddy_Properties Store_Mngr Ram_File Stack Infra_Log Net
    File_Transfer Server_Threads File_Creator
begin

text \<open>
  Verification of the client/server repository: a buddy allocator, a store of blocks in a file, a
  client and file registry, a UDP server and client, and the programs that send a file over them.

  \<^bold>\<open>Parts of the program and how they interact.\<close>
  The store manager (\<open>STORAGE_MANAGER\<close>) takes the position of each block from the buddy allocator
  (\<open>BUDDY_ALLOCATOR\<close>) and reads and writes the block in one backing file through \<open>ram_file_ctrl\<close>
  (\<open>CLIENT_SERVER\<close>). The client manager (\<open>CLIENTS_MANAGER\<close>) numbers clients and their files with the
  identifier pool (\<open>INFRA/src/id_pool.c\<close>) and keeps an opaque context for each file. The file
  sender (\<open>APPS\<close>) cuts a file into datagrams with a 16-byte header (\<open>file_transfer_protocol.h\<close>) and
  sends them with \<open>net_client\<close>; the server program starts the receiving thread of \<open>net_server\<close>, whose
  callback writes each chunk to a file with \<open>ram_file_ctrl\<close>. The file creator makes test files.
  \<open>STACK/stack.c\<close> and \<open>INFRA/src/infra_log.c\<close> stand for themselves.

  \<^bold>\<open>How C is read.\<close>
  \<open>C_Prelude\<close>: a pointer is \<open>NULL\<close>, \<open>Freed\<close> or \<open>Ptr\<close> with its object; a function returns \<open>Ok\<close>, \<open>Err\<close>
  with the error number, or \<open>UB\<close> where C gives no meaning to it; state is passed and returned, also
  with errors. Integers are words of their width under LP64, so wrap-around is in the model. What
  the operating system and the C library decide (whether an allocation succeeds, what a system
  call gives, how many bytes a read or a write transfers) is an argument of the operation.

  \<^bold>\<open>Theories.\<close>
  \<^item> \<open>Id_Pool\<close>: \<open>id_pool.c\<close>, all functions, over \<open>Id_Source\<close>, the interface of a supply of
    identifiers that no one gets twice; a stack of free identifiers is its specification.
  \<^item> \<open>Buddy_Arith\<close> (levels, sizes, slots), \<open>Buddy_Alloc\<close> (blocks, free lists, allocation, split, free,
    merge) model \<open>buddy_allocator.c\<close>. \<open>Buddy_Tree\<close> and \<open>Buddy_State\<close> hold the geometry of the binary
    tree and the invariant of the free lists as list segments through the \<open>prev\<close> and \<open>next\<close> slots,
    \<open>Buddy_Steps\<close> what each list operation does, \<open>Buddy_Correct\<close> that every operation keeps the
    invariant \<open>buddy_inv\<close> and gives the block it should. \<open>Block_Source\<close> is the interface of a supply of
    disjoint ranges; \<open>Buddy_Contract\<close> interprets it with the allocator and lists the blocks met on a
    walk along the free lists, and \<open>Buddy_Properties\<close> draws the properties: disjoint aligned blocks, no
    failure while a large enough block is free, after any run a tiling of the pool by held and listed
    blocks and, with nothing held, one block again, and the inputs that are outside the contract.
  \<^item> \<open>Ram_File\<close>: \<open>ram_file_ctrl.c\<close> over a file system of names and contents, an instance of
    \<open>Byte_File\<close>'s interface of a bounded file. \<open>Store_Mngr\<close>: \<open>store_mngr.c\<close>, the store built from the
    two interfaces, an instance of \<open>block_store\<close>: what is written to a block is read back until it is
    written again, whatever happens to other blocks.
  \<^item> \<open>Client_Mngr\<close>: \<open>client_mngr.c\<close>. \<open>Stack\<close>: \<open>stack.c\<close>. \<open>Infra_Log\<close>: \<open>infra_log.c\<close>.
  \<^item> \<open>Net\<close>: \<open>net_server.c\<close> and \<open>net_client.c\<close>, the life cycle of the objects, the receiving loop and the
    sending of one datagram, over a kernel of open descriptors and datagrams sent; the interface
    \<open>receiver\<close> says what the server asks of a callback.
  \<^item> \<open>Transfer_Protocol\<close>: the header of a datagram and its round trip. \<open>File_Sender_Client\<close>:
    \<open>file_sender_client.c\<close> with its loop. \<open>File_Sender_Server\<close>: \<open>file_sender_server.c\<close> as one sequence
    of operations; its callback is an instance of \<open>receiver\<close>. \<open>Chunk_File\<close> is the interface between a
    file written at positions and messages that carry bytes for a position, and \<open>File_Transfer\<close> puts
    both programs together over a network that loses, reorders and duplicates datagrams.
  \<^item> \<open>Server_Threads\<close>: the server program as two threads that step in any order on shared objects,
    with freed objects visible to both. It justifies the sequential reading of \<open>File_Sender_Server\<close>.
  \<^item> \<open>File_Creator\<close>: \<open>file_creator.c\<close> with \<open>strtoull\<close> for base 10.

  \<^bold>\<open>What the properties say.\<close>
  For each component: what every operation returns and changes on each of its branches; an invariant
  that all operations keep (side conditions, such as ranges that do not wrap around in 32 bits, are
  named in the text before each theorem); and the inputs or failures for which the code does something it should
  not, stated as theorems about what it does instead (double free, offsets outside a block, a file
  area that is too small, dangling pointers after a failed creation, an unnoticed \<open>fclose\<close> failure).
  Across components: isolation of the blocks of the store, delivery of a file from the client's disk
  to the server's disk, and the equality of the outcomes of the threads and of the sequential server.

  \<^bold>\<open>Bounds.\<close>
  The allocator's invariant asks for at most 27 levels: with 28 or more the 32-bit product of slot
  and element size wraps around, as \<open>mem_pool_slot_bound\<close> shows, and with 32 the count of slots
  is undefined, as \<open>buddy_create_undefined\<close> shows. Loops are structural or have a termination proof.
  The walk over a free list, which a double free makes cyclic, ends because its counter is an \<open>int\<close>
  whose overflow is undefined behaviour; \<open>buddy_count_result\<close> shows that under the invariant it ends
  at the end of the list, with at most \<open>2 ^ 27\<close> blocks. No operation of the program is modelled with
  fuel; \<open>free_blocks\<close>, which only states properties, walks each list for as many steps as there are
  blocks, which is enough because a list without cycles meets each block once (\<open>free_blocks_inv\<close>).
  The client manager's file operations are described for clients whose entries lie in the file area
  and do not wrap around; \<open>client_mngr_area_overflow\<close> says what happens to the others on a fresh
  manager. The receiving loop runs over a list of results; that it ends after the flag is cleared is
  \<open>server_threads_end\<close>.

  \<^bold>\<open>Not modelled.\<close>
  Bytes that a short \<open>fwrite\<close> or a failing \<open>fflush\<close> leaves in the buffer of a stream (they are taken
  as lost; C could still write them with a later call); what a failing read has stored in the
  caller's buffer; log output of the components other than \<open>infra_log.c\<close> itself; that \<open>errno\<close> survives \<open>close\<close> and
  \<open>free\<close> between a failing call and its use; the alignment of the receive buffer and the value of
  padding bytes; two threads started on one server; the signal that falls between the test of
  \<open>stop_requested\<close> and \<open>pause\<close> (the wait is taken to end); \<open>inet_aton\<close> and \<open>vprintf\<close>, which are
  arguments; the macros of \<open>common_defs.h\<close>, which are hints to the compiler; tests and build files.
\<close>

end
